(* ===== verification/Prelude.thy ===== *)
theory Prelude
  imports Main "HOL-Library.Word" "HOL-Library.Monad_Syntax"
begin

text \<open>
  Shared vocabulary of the development: the widths of the machine integers, the way a
  kernel panic is represented, the rounding macros of \<^verbatim>\<open>lib/round.h\<close>, and the generic
  lemmas on options, lists and words that the component theories rely on.

  A C function that can fail an \<^verbatim>\<open>ASSERT\<close>, call \<^verbatim>\<open>PANIC\<close> or dereference a null pointer
  is modelled by a function into \<open>option\<close>; \<open>None\<close> stands for the kernel having stopped
  (for the recursive functions defined with \<^theory_text>\<open>partial_function\<close> also for a call that does
  not return). Results that are ordinary error codes of the C code are kept as values.
\<close>

unbundle bit_operations_syntax

named_theorems panic_simps \<open>rewrite rules that evaluate the panic monad\<close>
named_theorems frame_simps \<open>what an operation leaves unchanged\<close>
named_theorems word_simps \<open>conversions between machine words and numbers\<close>

type_synonym u8 = "8 word"
type_synonym u16 = "16 word"
type_synonym u32 = "32 word"
type_synonym u64 = "64 word"

section \<open>Assertions and panics\<close>

definition ASSERT :: "bool \<Rightarrow> unit option" where
  "ASSERT b = (if b then Some () else None)"

lemma ASSERT_True [simp, panic_simps]: "ASSERT True = Some ()"
  by (simp add: ASSERT_def)

lemma ASSERT_False [simp, panic_simps]: "ASSERT False = None"
  by (simp add: ASSERT_def)

lemma ASSERT_eq_Some [simp, panic_simps]: "ASSERT b = Some u \<longleftrightarrow> b"
  by (simp add: ASSERT_def)

lemma ASSERT_eq_None [simp, panic_simps]: "ASSERT b = None \<longleftrightarrow> \<not> b"
  by (simp add: ASSERT_def)

lemma ASSERT_bind_eq_Some [panic_simps]:
  "(ASSERT b \<bind> f) = Some y \<longleftrightarrow> b \<and> f () = Some y"
  by (simp add: ASSERT_def)

lemma ASSERT_bind_eq_None [panic_simps]:
  "(ASSERT b \<bind> f) = None \<longleftrightarrow> (b \<longrightarrow> f () = None)"
  by (simp add: ASSERT_def)

lemma ASSERT_bind_if: "(ASSERT b \<bind> f) = (if b then f () else None)"
  by (simp add: ASSERT_def)

section \<open>Rounding (lib/round.h)\<close>

definition ROUND_UP :: "nat \<Rightarrow> nat \<Rightarrow> nat" where
  "ROUND_UP x step = (x + step - 1) div step * step"

definition DIV_ROUND_UP :: "nat \<Rightarrow> nat \<Rightarrow> nat" where
  "DIV_ROUND_UP x step = (x + step - 1) div step"

definition ROUND_DOWN :: "nat \<Rightarrow> nat \<Rightarrow> nat" where
  "ROUND_DOWN x step = x div step * step"

lemma DIV_ROUND_UP_ge: "0 < step \<Longrightarrow> x \<le> DIV_ROUND_UP x step * step"
proof -
  assume pos: "0 < step"
  have "x + step - 1 < ((x + step - 1) div step) * step + step"
    using pos by (metis add.commute dividend_less_div_times)
  then show ?thesis using pos by (simp add: DIV_ROUND_UP_def)
qed

lemma DIV_ROUND_UP_less: "0 < step \<Longrightarrow> DIV_ROUND_UP x step * step < x + step"
proof -
  assume pos: "0 < step"
  have "(x + step - 1) div step * step \<le> x + step - 1" by (rule div_times_less_eq_dividend)
  also have "\<dots> < x + step" using pos by simp
  finally show ?thesis by (simp only: DIV_ROUND_UP_def)
qed

lemma DIV_ROUND_UP_0 [simp]: "0 < step \<Longrightarrow> DIV_ROUND_UP 0 step = 0"
  by (simp add: DIV_ROUND_UP_def)

lemma DIV_ROUND_UP_pos: "0 < step \<Longrightarrow> 0 < x \<Longrightarrow> 0 < DIV_ROUND_UP x step"
  using DIV_ROUND_UP_ge [of step x] by (cases "DIV_ROUND_UP x step") auto

section \<open>Words\<close>

lemma unat_and_mask_mod [word_simps]: "unat (w AND mask n) = unat w mod 2 ^ n"
  by (metis take_bit_eq_mask take_bit_eq_mod unsigned_take_bit_eq)

lemma unat_drop_bit_div [word_simps]: "unat (drop_bit n w) = unat w div 2 ^ n"
  by (metis drop_bit_eq_div unat_drop_bit_eq)

text \<open>Subtraction of a \<open>k\<close>-bit unsigned value, written as an addition so that it stays in \<open>nat\<close>.\<close>

lemma mod_sub_le: "b \<le> a \<Longrightarrow> a < M \<Longrightarrow> (a + M - b) mod M = a - (b :: nat)"
  by (metis Nat.add_diff_assoc2 less_imp_diff_less mod_add_self2 mod_less)

text \<open>A \<^verbatim>\<open>for\<close> loop over the given indexes whose body may fail.\<close>

primrec for_each :: "'i list \<Rightarrow> ('i \<Rightarrow> 's \<Rightarrow> 's option) \<Rightarrow> 's \<Rightarrow> 's option" where
  "for_each [] body s = Some s"
| "for_each (i # is) body s = do { s \<leftarrow> body i s; for_each is body s }"

lemma for_each_append [simp]:
  "for_each (is @ js) body s = do { s \<leftarrow> for_each is body s; for_each js body s }"
  by (induction "is" arbitrary: s) (simp_all split: bind_split)

text \<open>A loop whose body always succeeds, with an abstraction that follows it.\<close>

lemma for_each_refine:
  assumes "P s" "\<And>i s. i \<in> set is \<Longrightarrow> P s \<Longrightarrow> \<exists>s'. body i s = Some s' \<and> P s' \<and> absf s' = f i (absf s)"
  shows "\<exists>s'. for_each is body s = Some s' \<and> P s' \<and> absf s' = fold f is (absf s)"
  using assms
proof (induction "is" arbitrary: s)
  case (Cons i "is")
  obtain s1 where s1: "body i s = Some s1" "P s1" "absf s1 = f i (absf s)"
    using Cons.prems by auto
  obtain s2 where "for_each is body s1 = Some s2" "P s2" "absf s2 = fold f is (absf s1)"
    using Cons.IH [OF s1(2)] Cons.prems(2) by auto
  then show ?case using s1 by simp
qed simp

lemma find_upt_Some:
  assumes "find P [a..<b] = Some i"
  shows "a \<le> i" "i < b" "P i" "\<And>k. a \<le> k \<Longrightarrow> k < i \<Longrightarrow> \<not> P k"
proof -
  from assms obtain j where j: "j < b - a" "P ([a..<b] ! j)" "i = [a..<b] ! j"
    "\<And>m. m < j \<Longrightarrow> \<not> P ([a..<b] ! m)" by (auto simp: find_Some_iff)
  then have i: "i = a + j" by simp
  then show "a \<le> i" "i < b" "P i" using j by auto
  fix k assume "a \<le> k" "k < i"
  then show "\<not> P k" using j(1) j(4) [of "k - a"] i by auto
qed

lemma and_nat_le: "(x :: nat) AND y \<le> y"
  unfolding and_nat_def using AND_upper2 [of "int y" "int x"] by (simp add: nat_le_iff)

lemma and_low_mask: "(x :: nat) AND (2 ^ n - 1) = x mod 2 ^ n"
  unfolding mask_eq_exp_minus_1 [symmetric] take_bit_eq_mask [symmetric] by (rule take_bit_eq_mod)

lemma and_low_mask_Suc [simp]: "(x :: nat) AND (2 ^ n - Suc 0) = x mod 2 ^ n"
  using and_low_mask [of x n] by simp

text \<open>Results of \<^verbatim>\<open>int\<close> arithmetic, wrapped to 32 bits.\<close>

definition i32 :: "int \<Rightarrow> int" where
  "i32 x = (x + 2 ^ 31) mod 2 ^ 32 - 2 ^ 31"

lemma i32_small: "0 \<le> x \<Longrightarrow> x < 2 ^ 31 \<Longrightarrow> i32 x = x"
  by (simp add: i32_def)

end
