(* ===== verification/Klist.thy ===== *)
theory Klist
  imports Prelude "HOL-Library.Multiset"
begin

text \<open>
  The doubly linked lists of \<^verbatim>\<open>lib/kernel/list.c\<close>, at the level of the pointers: the heap maps
  the address of a \<^verbatim>\<open>struct list_elem\<close> to its two links, a \<^verbatim>\<open>struct list\<close> at address \<open>l\<close>
  has its header elements at the addresses of its two members, and every operation reads and
  writes links in the order of the C statements. \<open>None\<close> is a failed assertion, a null
  dereference or (for the loops) a traversal that does not end.

  The representation predicate \<open>list_rep h l xs\<close> says that the list at \<open>l\<close> holds exactly the
  elements \<open>xs\<close>; each operation is shown to return, and to act on \<open>xs\<close> as its comment promises.
\<close>

section \<open>Data\<close>

type_synonym addr = nat

abbreviation (input) NULL :: addr where
  "NULL \<equiv> 0"

record list_elem =
  le_prev :: addr
  le_next :: addr

type_synonym heap = "addr \<Rightarrow> list_elem"

text \<open>Addresses of the members \<^verbatim>\<open>head\<close> and \<^verbatim>\<open>tail\<close> of a \<^verbatim>\<open>struct list\<close>: a
  \<^verbatim>\<open>struct list_elem\<close> is two 4-byte pointers.\<close>

definition head_of :: "addr \<Rightarrow> addr" where
  "head_of l = l"

definition tail_of :: "addr \<Rightarrow> addr" where
  "tail_of l = l + 8"

text \<open>Loads and stores of one link through a pointer.\<close>

definition nxt :: "heap \<Rightarrow> addr \<Rightarrow> addr" where
  "nxt h p = le_next (h p)"

definition prv :: "heap \<Rightarrow> addr \<Rightarrow> addr" where
  "prv h p = le_prev (h p)"

definition upd_next :: "heap \<Rightarrow> addr \<Rightarrow> addr \<Rightarrow> heap" where
  "upd_next h p v = h(p := (h p)\<lparr>le_next := v\<rparr>)"

definition upd_prev :: "heap \<Rightarrow> addr \<Rightarrow> addr \<Rightarrow> heap" where
  "upd_prev h p v = h(p := (h p)\<lparr>le_prev := v\<rparr>)"

definition get_next :: "heap \<Rightarrow> addr \<Rightarrow> addr option" where
  "get_next h p = (if p = NULL then None else Some (nxt h p))"

definition get_prev :: "heap \<Rightarrow> addr \<Rightarrow> addr option" where
  "get_prev h p = (if p = NULL then None else Some (prv h p))"

definition set_next :: "heap \<Rightarrow> addr \<Rightarrow> addr \<Rightarrow> heap option" where
  "set_next h p v = (if p = NULL then None else Some (upd_next h p v))"

definition set_prev :: "heap \<Rightarrow> addr \<Rightarrow> addr \<Rightarrow> heap option" where
  "set_prev h p v = (if p = NULL then None else Some (upd_prev h p v))"

section \<open>Operations\<close>

definition is_head :: "heap \<Rightarrow> addr \<Rightarrow> bool" where
  "is_head h e \<longleftrightarrow> e \<noteq> NULL \<and> prv h e = NULL \<and> nxt h e \<noteq> NULL"

definition is_interior :: "heap \<Rightarrow> addr \<Rightarrow> bool" where
  "is_interior h e \<longleftrightarrow> e \<noteq> NULL \<and> prv h e \<noteq> NULL \<and> nxt h e \<noteq> NULL"

definition is_tail :: "heap \<Rightarrow> addr \<Rightarrow> bool" where
  "is_tail h e \<longleftrightarrow> e \<noteq> NULL \<and> prv h e \<noteq> NULL \<and> nxt h e = NULL"

definition list_init :: "heap \<Rightarrow> addr \<Rightarrow> heap option" where
  "list_init h l = do {
     ASSERT (l \<noteq> NULL);
     h \<leftarrow> set_prev h (head_of l) NULL;
     h \<leftarrow> set_next h (head_of l) (tail_of l);
     h \<leftarrow> set_prev h (tail_of l) (head_of l);
     set_next h (tail_of l) NULL
   }"

definition list_begin :: "heap \<Rightarrow> addr \<Rightarrow> addr option" where
  "list_begin h l = do { ASSERT (l \<noteq> NULL); get_next h (head_of l) }"

definition list_next :: "heap \<Rightarrow> addr \<Rightarrow> addr option" where
  "list_next h e = do { ASSERT (is_head h e \<or> is_interior h e); get_next h e }"

definition list_end :: "addr \<Rightarrow> addr option" where
  "list_end l = do { ASSERT (l \<noteq> NULL); Some (tail_of l) }"

definition list_rbegin :: "heap \<Rightarrow> addr \<Rightarrow> addr option" where
  "list_rbegin h l = do { ASSERT (l \<noteq> NULL); get_prev h (tail_of l) }"

definition list_prev :: "heap \<Rightarrow> addr \<Rightarrow> addr option" where
  "list_prev h e = do { ASSERT (is_interior h e \<or> is_tail h e); get_prev h e }"

definition list_rend :: "addr \<Rightarrow> addr option" where
  "list_rend l = do { ASSERT (l \<noteq> NULL); Some (head_of l) }"

definition list_head :: "addr \<Rightarrow> addr option" where
  "list_head l = do { ASSERT (l \<noteq> NULL); Some (head_of l) }"

definition list_tail :: "addr \<Rightarrow> addr option" where
  "list_tail l = do { ASSERT (l \<noteq> NULL); Some (tail_of l) }"

definition list_insert :: "heap \<Rightarrow> addr \<Rightarrow> addr \<Rightarrow> heap option" where
  "list_insert h before e = do {
     ASSERT (is_interior h before \<or> is_tail h before);
     ASSERT (e \<noteq> NULL);
     bp \<leftarrow> get_prev h before;
     h \<leftarrow> set_prev h e bp;
     h \<leftarrow> set_next h e before;
     bp \<leftarrow> get_prev h before;
     h \<leftarrow> set_next h bp e;
     set_prev h before e
   }"

definition list_splice :: "heap \<Rightarrow> addr \<Rightarrow> addr \<Rightarrow> addr \<Rightarrow> heap option" where
  "list_splice h before fst_e lst_e = do {
     ASSERT (is_interior h before \<or> is_tail h before);
     if fst_e = lst_e then Some h
     else do {
       lst_e \<leftarrow> list_prev h lst_e;
       ASSERT (is_interior h fst_e);
       ASSERT (is_interior h lst_e);
       fp \<leftarrow> get_prev h fst_e;
       ln \<leftarrow> get_next h lst_e;
       h \<leftarrow> set_next h fp ln;
       ln \<leftarrow> get_next h lst_e;
       fp \<leftarrow> get_prev h fst_e;
       h \<leftarrow> set_prev h ln fp;
       bp \<leftarrow> get_prev h before;
       h \<leftarrow> set_prev h fst_e bp;
       h \<leftarrow> set_next h lst_e before;
       bp \<leftarrow> get_prev h before;
       h \<leftarrow> set_next h bp fst_e;
       set_prev h before lst_e
     }
   }"

definition list_push_front :: "heap \<Rightarrow> addr \<Rightarrow> addr \<Rightarrow> heap option" where
  "list_push_front h l e = do { b \<leftarrow> list_begin h l; list_insert h b e }"

definition list_push_back :: "heap \<Rightarrow> addr \<Rightarrow> addr \<Rightarrow> heap option" where
  "list_push_back h l e = do { t \<leftarrow> list_end l; list_insert h t e }"

definition list_remove :: "heap \<Rightarrow> addr \<Rightarrow> (addr \<times> heap) option" where
  "list_remove h e = do {
     ASSERT (is_interior h e);
     ep \<leftarrow> get_prev h e;
     en \<leftarrow> get_next h e;
     h \<leftarrow> set_next h ep en;
     en \<leftarrow> get_next h e;
     ep \<leftarrow> get_prev h e;
     h \<leftarrow> set_prev h en ep;
     en \<leftarrow> get_next h e;
     Some (en, h)
   }"

definition list_empty :: "heap \<Rightarrow> addr \<Rightarrow> bool option" where
  "list_empty h l = do { b \<leftarrow> list_begin h l; t \<leftarrow> list_end l; Some (b = t) }"

definition list_front :: "heap \<Rightarrow> addr \<Rightarrow> addr option" where
  "list_front h l = do {
     em \<leftarrow> list_empty h l;
     ASSERT (\<not> em);
     get_next h (head_of l)
   }"

definition list_back :: "heap \<Rightarrow> addr \<Rightarrow> addr option" where
  "list_back h l = do {
     em \<leftarrow> list_empty h l;
     ASSERT (\<not> em);
     get_prev h (tail_of l)
   }"

definition list_pop_front :: "heap \<Rightarrow> addr \<Rightarrow> (addr \<times> heap) option" where
  "list_pop_front h l = do {
     front \<leftarrow> list_front h l;
     (_, h) \<leftarrow> list_remove h front;
     Some (front, h)
   }"

definition list_pop_back :: "heap \<Rightarrow> addr \<Rightarrow> (addr \<times> heap) option" where
  "list_pop_back h l = do {
     back \<leftarrow> list_back h l;
     (_, h) \<leftarrow> list_remove h back;
     Some (back, h)
   }"

partial_function (option) list_size_loop :: "heap \<Rightarrow> addr \<Rightarrow> addr \<Rightarrow> nat \<Rightarrow> nat option" where
  "list_size_loop h l e cnt = do {
     t \<leftarrow> list_end l;
     if e = t then Some cnt
     else do { e \<leftarrow> list_next h e; list_size_loop h l e (cnt + 1) }
   }"

definition list_size :: "heap \<Rightarrow> addr \<Rightarrow> nat option" where
  "list_size h l = do { b \<leftarrow> list_begin h l; list_size_loop h l b 0 }"

text \<open>\<open>swap_links h e\<close> is \<^verbatim>\<open>swap(&e->prev, &e->next)\<close>.\<close>

definition swap_links :: "heap \<Rightarrow> addr \<Rightarrow> heap option" where
  "swap_links h e = do {
     p \<leftarrow> get_prev h e;
     n \<leftarrow> get_next h e;
     h \<leftarrow> set_prev h e n;
     set_next h e p
   }"

partial_function (option) list_reverse_loop :: "heap \<Rightarrow> addr \<Rightarrow> addr \<Rightarrow> heap option" where
  "list_reverse_loop h l e = do {
     t \<leftarrow> list_end l;
     if e = t then Some h
     else do { h \<leftarrow> swap_links h e; e \<leftarrow> get_prev h e; list_reverse_loop h l e }
   }"

definition list_reverse :: "heap \<Rightarrow> addr \<Rightarrow> heap option" where
  "list_reverse h l = do {
     em \<leftarrow> list_empty h l;
     if em then Some h
     else do {
       b \<leftarrow> list_begin h l;
       h \<leftarrow> list_reverse_loop h l b;
       hn \<leftarrow> get_next h (head_of l);
       tp \<leftarrow> get_prev h (tail_of l);
       h \<leftarrow> set_next h (head_of l) tp;
       h \<leftarrow> set_prev h (tail_of l) hn;
       hn \<leftarrow> get_next h (head_of l);
       tp \<leftarrow> get_prev h (tail_of l);
       a \<leftarrow> get_prev h hn;
       b \<leftarrow> get_next h tp;
       h \<leftarrow> set_prev h hn b;
       set_next h tp a
     }
   }"

section \<open>What a list holds\<close>

text \<open>\<open>chain f ns\<close>: following \<open>f\<close> from each node of \<open>ns\<close> leads to the one after it.\<close>

fun chain :: "(addr \<Rightarrow> addr) \<Rightarrow> addr list \<Rightarrow> bool" where
  "chain f (a # b # ns) \<longleftrightarrow> f a = b \<and> chain f (b # ns)"
| "chain f ns \<longleftrightarrow> True"

text \<open>The nodes of a list with elements \<open>xs\<close>: the two headers around the elements.\<close>

definition nodes :: "addr \<Rightarrow> addr list \<Rightarrow> addr list" where
  "nodes l xs = head_of l # xs @ [tail_of l]"

definition list_rep :: "heap \<Rightarrow> addr \<Rightarrow> addr list \<Rightarrow> bool" where
  "list_rep h l xs \<longleftrightarrow>
     l \<noteq> NULL \<and> NULL \<notin> set xs \<and> distinct (nodes l xs) \<and>
     chain (nxt h) (nodes l xs) \<and> chain (prv h) (rev (nodes l xs)) \<and>
     prv h (head_of l) = NULL \<and> nxt h (tail_of l) = NULL"

text \<open>The address a traversal stands at when the elements \<open>zs\<close> are still to come.\<close>

definition cur :: "addr \<Rightarrow> addr list \<Rightarrow> addr" where
  "cur l zs = (case zs of [] \<Rightarrow> tail_of l | z # _ \<Rightarrow> z)"

text \<open>
  A run of linked elements outside or inside a list, and the two pointer surgeries every
  mutator is made of: closing the gap around a run, and opening a gap for one.
\<close>

definition segment :: "heap \<Rightarrow> addr list \<Rightarrow> bool" where
  "segment h cs \<longleftrightarrow> cs \<noteq> [] \<and> NULL \<notin> set cs \<and> distinct cs \<and>
     chain (nxt h) cs \<and> chain (prv h) (rev cs)"

definition unlink :: "addr \<Rightarrow> addr \<Rightarrow> heap \<Rightarrow> heap" where
  "unlink p n h = upd_prev (upd_next h p n) n p"

definition link :: "addr \<Rightarrow> addr \<Rightarrow> addr \<Rightarrow> addr \<Rightarrow> heap \<Rightarrow> heap" where
  "link p c d q h = upd_prev (upd_next (upd_next (upd_prev h c p) d q) p c) q d"

text \<open>The heap in which the two links of every element of \<open>zs\<close> are exchanged.\<close>

definition swap_all :: "addr list \<Rightarrow> heap \<Rightarrow> heap" where
  "swap_all zs h = (\<lambda>q. if q \<in> set zs then \<lparr>le_prev = nxt h q, le_next = prv h q\<rparr> else h q)"

text \<open>A heap that holds one given list, used to exhibit concrete lists.\<close>

fun heap_of :: "addr \<Rightarrow> addr list \<Rightarrow> heap" where
  "heap_of l [] = (\<lambda>_. \<lparr>le_prev = NULL, le_next = NULL\<rparr>)
     (head_of l := \<lparr>le_prev = NULL, le_next = tail_of l\<rparr>, tail_of l := \<lparr>le_prev = head_of l, le_next = NULL\<rparr>)"
| "heap_of l (x # xs) = link (head_of l) x x (cur l xs) (heap_of l xs)"

text \<open>The same with a second, empty list at \<open>m\<close>.\<close>

definition list_pair :: "addr \<Rightarrow> addr list \<Rightarrow> addr \<Rightarrow> heap" where
  "list_pair l xs m = (heap_of l xs)
     (head_of m := \<lparr>le_prev = NULL, le_next = tail_of m\<rparr>, tail_of m := \<lparr>le_prev = head_of m, le_next = NULL\<rparr>)"

section \<open>Chains and single links\<close>

lemma cur_simps [simp]: "cur l [] = tail_of l" "cur l (z # zs) = z"
  by (simp_all add: cur_def)

lemma cur_append: "cur l (ys @ zs) = (if ys = [] then cur l zs else hd ys)"
  by (cases ys) simp_all

lemma chain_append: "chain f (xs @ a # ys) \<longleftrightarrow> chain f (xs @ [a]) \<and> chain f (a # ys)"
proof (induction f xs rule: chain.induct)
  case (1 f a b ns)
  then show ?case by simp
qed (cases ys; simp)+

lemma chain_snoc: "chain f (xs @ [a, b]) \<longleftrightarrow> chain f (xs @ [a]) \<and> f a = b"
  using chain_append [of f xs a "[b]"] by simp

lemma chain_cong: "(\<And>x. x \<in> set (butlast ns) \<Longrightarrow> f x = g x) \<Longrightarrow> chain f ns = chain g ns"
  by (induction f ns rule: chain.induct) auto

lemma chain_upd [simp]: "p \<notin> set (butlast ns) \<Longrightarrow> chain (f(p := v)) ns = chain f ns"
  by (rule chain_cong) auto

lemma nxt_upd [simp]: "nxt (upd_next h p v) = (nxt h)(p := v)" "nxt (upd_prev h p v) = nxt h"
  by (auto simp: nxt_def upd_next_def upd_prev_def fun_eq_iff)

lemma prv_upd [simp]: "prv (upd_prev h p v) = (prv h)(p := v)" "prv (upd_next h p v) = prv h"
  by (auto simp: prv_def upd_next_def upd_prev_def fun_eq_iff)

lemma upd_other [frame_simps]:
  "q \<noteq> p \<Longrightarrow> upd_next h p v q = h q" "q \<noteq> p \<Longrightarrow> upd_prev h p v q = h q"
  by (simp_all add: upd_next_def upd_prev_def)

lemmas link_access = get_next_def get_prev_def set_next_def set_prev_def

lemma tail_of_neq [simp]: "tail_of l \<noteq> NULL" "tail_of l \<noteq> head_of l" "head_of l \<noteq> tail_of l"
  by (simp_all add: tail_of_def head_of_def)

lemma head_of_eq_NULL [simp]: "head_of l = NULL \<longleftrightarrow> l = NULL"
  by (simp add: head_of_def)

lemma list_repD:
  assumes "list_rep h l xs"
  shows "l \<noteq> NULL" "NULL \<notin> set xs" "distinct xs" "head_of l \<notin> set xs" "tail_of l \<notin> set xs"
    "prv h (head_of l) = NULL" "nxt h (tail_of l) = NULL"
    "chain (nxt h) (head_of l # xs @ [tail_of l])"
    "chain (prv h) (tail_of l # rev xs @ [head_of l])"
  using assms by (auto simp: list_rep_def nodes_def)

text \<open>The links around a cut of the element list.\<close>

lemma list_rep_cut:
  assumes "list_rep h l (ys @ zs)"
  shows "nxt h (last (head_of l # ys)) = cur l zs" "prv h (cur l zs) = last (head_of l # ys)"
    "last (head_of l # ys) \<noteq> NULL" "cur l zs \<noteq> NULL"
proof -
  obtain as p where as: "head_of l # ys = as @ [p]" by (metis list.discI rev_exhaust)
  obtain q bs where bs: "zs @ [tail_of l] = q # bs" by (metis neq_Nil_conv snoc_eq_iff_butlast)
  have p: "last (head_of l # ys) = p" using as by simp
  have q: "cur l zs = q" using bs by (cases zs) auto
  have n: "nodes l (ys @ zs) = as @ p # q # bs"
    using as bs by (simp add: nodes_def flip: append.assoc)
  then have r: "rev (nodes l (ys @ zs)) = rev bs @ q # p # rev as" by simp
  have "chain (nxt h) (as @ p # q # bs)" "chain (prv h) (rev bs @ q # p # rev as)"
    using assms unfolding list_rep_def n r by auto
  then show "nxt h (last (head_of l # ys)) = cur l zs" "prv h (cur l zs) = last (head_of l # ys)"
    unfolding p q using chain_append [of "nxt h" as p "q # bs"]
      chain_append [of "prv h" "rev bs" q "p # rev as"] by auto
  have "NULL \<notin> set (nodes l (ys @ zs))"
    using assms by (auto simp: list_rep_def nodes_def)
  then show "last (head_of l # ys) \<noteq> NULL" "cur l zs \<noteq> NULL"
    unfolding p q n by auto
qed

lemma list_rep_next: "list_rep h l (ys @ z # zs) \<Longrightarrow> nxt h z = cur l zs"
  using list_rep_cut(1) [of h l "ys @ [z]" zs] by simp

lemma list_rep_prev: "list_rep h l (ys @ z # zs) \<Longrightarrow> prv h z = last (head_of l # ys)"
  using list_rep_cut(2) [of h l ys "z # zs"] by simp

lemma list_rep_head_next: "list_rep h l zs \<Longrightarrow> nxt h (head_of l) = cur l zs"
  using list_rep_cut(1) [of h l "[]" zs] by simp

lemma list_rep_tail_prev: "list_rep h l ys \<Longrightarrow> prv h (tail_of l) = last (head_of l # ys)"
  using list_rep_cut(2) [of h l ys "[]"] by simp

lemma list_rep_interior: "list_rep h l (ys @ z # zs) \<Longrightarrow> is_interior h z"
  using list_rep_cut [of h l ys "z # zs"] list_rep_cut [of h l "ys @ [z]" zs]
  by (simp add: is_interior_def)

lemma list_rep_is_head: "list_rep h l xs \<Longrightarrow> is_head h (head_of l)"
  using list_rep_cut [of h l "[]" xs] by (auto simp: is_head_def dest: list_repD)

lemma list_rep_is_tail: "list_rep h l xs \<Longrightarrow> is_tail h (tail_of l)"
  using list_rep_cut [of h l xs "[]"] by (auto simp: is_tail_def dest: list_repD)

lemma list_rep_cur: "list_rep h l (ys @ zs) \<Longrightarrow> is_interior h (cur l zs) \<or> is_tail h (cur l zs)"
  by (cases zs) (auto dest: list_rep_is_tail list_rep_interior)

section \<open>Navigation\<close>

lemma list_begin_rep [simp]: "list_rep h l xs \<Longrightarrow> list_begin h l = Some (cur l xs)"
  by (simp add: list_begin_def link_access list_rep_head_next list_repD(1))

lemma list_end_rep [simp]: "l \<noteq> NULL \<Longrightarrow> list_end l = Some (tail_of l)"
  by (simp add: list_end_def)

lemma list_next_rep: "list_rep h l (ys @ z # zs) \<Longrightarrow> list_next h z = Some (cur l zs)"
  using list_rep_interior [of h l ys z zs]
  by (simp add: list_next_def link_access list_rep_next) (simp add: is_interior_def)

lemma list_prev_rep: "list_rep h l (ys @ zs) \<Longrightarrow> list_prev h (cur l zs) = Some (last (head_of l # ys))"
  using list_rep_cur [of h l ys zs] list_rep_cut [of h l ys zs]
  by (simp add: list_prev_def link_access)

lemma list_rbegin_rep: "list_rep h l xs \<Longrightarrow> list_rbegin h l = Some (last (head_of l # xs))"
  using list_rep_tail_prev [of h l xs] list_repD(1) [of h l xs]
  by (simp add: list_rbegin_def link_access)

lemma list_empty_rep [simp]: "list_rep h l xs \<Longrightarrow> list_empty h l = Some (xs = [])"
  by (cases xs) (auto simp: list_empty_def list_repD(1) dest: list_repD(5))

lemma list_front_rep [simp]: "list_rep h l (x # xs) \<Longrightarrow> list_front h l = Some x"
  using list_rep_head_next [of h l "x # xs"] list_repD(1) [of h l "x # xs"]
  by (simp add: list_front_def link_access)

lemma list_back_rep [simp]: "list_rep h l (xs @ [x]) \<Longrightarrow> list_back h l = Some x"
  using list_rep_tail_prev [of h l "xs @ [x]"] by (simp add: list_back_def link_access)

lemma list_front_empty: "list_rep h l [] \<Longrightarrow> list_front h l = None"
  by (simp add: list_front_def)

lemma list_back_empty: "list_rep h l [] \<Longrightarrow> list_back h l = None"
  by (simp add: list_back_def)

lemma list_init_rep:
  assumes "l \<noteq> NULL"
  shows "\<exists>h'. list_init h l = Some h' \<and> list_rep h' l [] \<and>
           (\<forall>q. q \<notin> {head_of l, tail_of l} \<longrightarrow> h' q = h q)"
  using assms by (simp add: list_init_def link_access list_rep_def nodes_def frame_simps)

section \<open>Opening and closing gaps\<close>

lemma list_rep_frame:
  assumes "list_rep h l xs" "\<And>q. q \<in> set (nodes l xs) \<Longrightarrow> h' q = h q"
  shows "list_rep h' l xs"
proof -
  have eq: "nxt h' q = nxt h q" "prv h' q = prv h q" if "q \<in> set (nodes l xs)" for q
    using assms(2) [OF that] by (simp_all add: nxt_def prv_def)
  have "chain (nxt h') (nodes l xs) = chain (nxt h) (nodes l xs)"
    by (rule chain_cong) (auto intro: eq dest: in_set_butlastD)
  moreover have "chain (prv h') (rev (nodes l xs)) = chain (prv h) (rev (nodes l xs))"
    by (rule chain_cong) (metis eq(2) in_set_butlastD set_rev)
  moreover have "head_of l \<in> set (nodes l xs)" "tail_of l \<in> set (nodes l xs)"
    by (simp_all add: nodes_def)
  ultimately show ?thesis using assms(1) eq unfolding list_rep_def by metis
qed

lemma chain_join:
  "xs \<noteq> [] \<Longrightarrow> ys \<noteq> [] \<Longrightarrow> chain f (xs @ ys) \<longleftrightarrow> chain f xs \<and> f (last xs) = hd ys \<and> chain f ys"
  by (cases xs rule: rev_cases; cases ys) (simp_all add: chain_append [where ys = "_ # _"])

lemma last_notin_butlast: "distinct xs \<Longrightarrow> xs \<noteq> [] \<Longrightarrow> last xs \<notin> set (butlast xs)"
  by (cases xs rule: rev_cases) auto

lemma chain_open:
  assumes ne: "A \<noteq> []" "B \<noteq> []" "C \<noteq> []" and d: "distinct (A @ C @ B)"
    and c: "chain f (A @ B)" "chain f C"
  shows "chain (f(last C := hd B, last A := hd C)) (A @ C @ B)"
proof -
  let ?g = "f(last C := hd B, last A := hd C)"
  have A: "last A \<in> set A" and C: "last C \<in> set C" using ne by simp_all
  have dj: "last A \<notin> set C" "last A \<notin> set B" "last C \<notin> set A" "last C \<notin> set B"
    using d A C by auto
  have f: "chain f A" "chain f B" "chain f C" using c ne by (simp_all add: chain_join)
  have nA: "last A \<notin> set (butlast A)" and nC: "last C \<notin> set (butlast C)"
    using d ne by (simp_all add: last_notin_butlast)
  have nB: "last A \<notin> set (butlast B)" "last C \<notin> set (butlast B)" "last C \<notin> set (butlast A)"
      "last A \<notin> set (butlast C)"
    using dj in_set_butlastD by metis+
  have "chain ?g A" "chain ?g B" "chain ?g C" using f nA nB nC by simp_all
  moreover have "last C \<noteq> last A" using dj C by metis
  ultimately show ?thesis using ne by (simp add: chain_join)
qed

lemma chain_close:
  assumes ne: "A \<noteq> []" "B \<noteq> []" "C \<noteq> []" and d: "distinct (A @ C @ B)"
    and c: "chain f (A @ C @ B)"
  shows "chain (f(last A := hd B)) (A @ B)" "chain (f(last A := hd B)) C"
proof -
  let ?g = "f(last A := hd B)"
  have cs: "chain f A" "chain f B" "chain f C" using c ne by (simp_all add: chain_join)
  have lA: "last A \<in> set A" using ne by simp
  have "chain ?g A" using cs d ne last_notin_butlast [of A] by simp
  moreover have "last A \<notin> set B" "last A \<notin> set C" using d lA by auto
  then have "last A \<notin> set (butlast B)" "last A \<notin> set (butlast C)" using in_set_butlastD by metis+
  then have "chain ?g B" "chain ?g C" using cs by simp_all
  ultimately show "chain ?g (A @ B)" "chain ?g C" using ne by (simp_all add: chain_join)
qed

lemma link_rep:
  assumes rep: "list_rep h l (us @ vs)" and seg: "segment h cs"
    and dj: "set cs \<inter> set (nodes l (us @ vs)) = {}"
  shows "list_rep (link (last (head_of l # us)) (hd cs) (last cs) (cur l vs) h) l (us @ cs @ vs)"
    (is "list_rep ?h _ _")
proof -
  define A where "A = head_of l # us"
  define B where "B = vs @ [tail_of l]"
  have n: "nodes l (us @ vs) = A @ B" "nodes l (us @ cs @ vs) = A @ cs @ B"
    by (simp_all add: nodes_def A_def B_def)
  have q: "cur l vs = hd B" by (cases vs) (simp_all add: B_def)
  have ne: "A \<noteq> []" "B \<noteq> []" "cs \<noteq> []" using seg by (auto simp: A_def B_def segment_def)
  have d: "distinct (A @ cs @ B)" using rep seg dj unfolding list_rep_def n segment_def by auto
  have nx: "nxt ?h = (nxt h)(last cs := hd B, last A := hd cs)"
    and pv: "prv ?h = (prv h)(hd cs := last A, hd B := last cs)"
    by (simp_all add: link_def q A_def)
  have "chain (nxt ?h) (A @ cs @ B)"
    unfolding nx using rep seg ne d by (intro chain_open) (auto simp: list_rep_def n segment_def)
  moreover have "chain (prv ?h) (rev B @ rev cs @ rev A)"
    using chain_open [of "rev B" "rev A" "rev cs" "prv h"] rep seg ne d
    unfolding pv list_rep_def n segment_def by (auto simp: hd_rev last_rev)
  moreover have "prv ?h (head_of l) = NULL" "nxt ?h (tail_of l) = NULL"
  proof -
    have "head_of l \<noteq> hd cs" "head_of l \<noteq> hd B" using d ne by (auto simp: A_def)
    moreover have "tail_of l \<noteq> last cs" "tail_of l \<noteq> last A" using d ne by (auto simp: B_def)
    ultimately show "prv ?h (head_of l) = NULL" "nxt ?h (tail_of l) = NULL"
      unfolding nx pv using list_repD(6,7) [OF rep] by simp_all
  qed
  ultimately show ?thesis using d rep seg unfolding list_rep_def n segment_def by auto
qed

lemma unlink_rep:
  assumes rep: "list_rep h l (as @ cs @ ds)" and ne0: "cs \<noteq> []"
  shows "list_rep (unlink (last (head_of l # as)) (cur l ds) h) l (as @ ds)" (is "list_rep ?h _ _")
    and "segment (unlink (last (head_of l # as)) (cur l ds) h) cs"
    and "set cs \<inter> set (nodes l (as @ ds)) = {}"
proof -
  define A where "A = head_of l # as"
  define B where "B = ds @ [tail_of l]"
  have n: "nodes l (as @ ds) = A @ B" "nodes l (as @ cs @ ds) = A @ cs @ B"
    by (simp_all add: nodes_def A_def B_def)
  have q: "cur l ds = hd B" by (cases ds) (simp_all add: B_def)
  have ne: "A \<noteq> []" "B \<noteq> []" "cs \<noteq> []" using ne0 by (auto simp: A_def B_def)
  have d: "distinct (A @ cs @ B)" using rep unfolding list_rep_def n by auto
  have c: "chain (nxt h) (A @ cs @ B)" "chain (prv h) (rev B @ rev cs @ rev A)"
    using rep unfolding list_rep_def n by auto
  have nx: "nxt ?h = (nxt h)(last A := hd B)" and pv: "prv ?h = (prv h)(hd B := last A)"
    by (simp_all add: unlink_def q A_def)
  have f: "chain (nxt ?h) (A @ B)" "chain (nxt ?h) cs"
    unfolding nx by (intro chain_close [OF ne d c(1)])+
  have b: "chain (prv ?h) (rev B @ rev A)" "chain (prv ?h) (rev cs)"
    using chain_close [of "rev B" "rev A" "rev cs" "prv h"] ne d c(2)
    unfolding pv by (auto simp: hd_rev last_rev)
  show "set cs \<inter> set (nodes l (as @ ds)) = {}" unfolding n using d by auto
  show "segment ?h cs" using ne d f b rep by (auto simp: segment_def list_rep_def)
  have "head_of l \<noteq> hd B" "tail_of l \<noteq> last A"
    using d ne by (auto simp: A_def B_def hd_append)
  then have "prv ?h (head_of l) = NULL" "nxt ?h (tail_of l) = NULL"
    unfolding nx pv using list_repD(6,7) [OF rep] by simp_all
  then show "list_rep ?h l (as @ ds)" using d rep f b unfolding list_rep_def n by auto
qed

section \<open>Insertion and removal\<close>

lemma link_other [frame_simps]: "q \<notin> {p, c, d, n} \<Longrightarrow> link p c d n h q = h q"
  by (simp add: link_def frame_simps)

lemma unlink_other [frame_simps]: "q \<notin> {p, n} \<Longrightarrow> unlink p n h q = h q"
  by (simp add: unlink_def frame_simps)

lemma cut_in_nodes:
  fixes us vs :: "addr list"
  shows "last (head_of l # us) \<in> set (nodes l (us @ vs))" "cur l vs \<in> set (nodes l (us @ vs))"
  by (auto simp: nodes_def cur_def split: list.split)

lemma segment_single [simp]: "segment h [e] \<longleftrightarrow> e \<noteq> NULL"
  by (auto simp: segment_def)

lemma list_insert_eq:
  assumes "list_rep h l (us @ vs)" "e \<noteq> NULL" "e \<notin> set (nodes l (us @ vs))"
  shows "list_insert h (cur l vs) e = Some (link (last (head_of l # us)) e e (cur l vs) h)"
proof -
  have "cur l vs \<noteq> e" using assms(3) cut_in_nodes(2) [of l vs us] by metis
  then show ?thesis
    using assms list_rep_cur [OF assms(1)] list_rep_cut(2-4) [OF assms(1)]
    by (simp add: list_insert_def link_access link_def)
qed

lemma list_insert_rep:
  assumes "list_rep h l (us @ vs)" "e \<noteq> NULL" "e \<notin> set (nodes l (us @ vs))"
  obtains h' where "list_insert h (cur l vs) e = Some h'" "list_rep h' l (us @ e # vs)"
    "\<And>q. q \<notin> insert e (set (nodes l (us @ vs))) \<Longrightarrow> h' q = h q"
proof
  show "list_insert h (cur l vs) e = Some (link (last (head_of l # us)) e e (cur l vs) h)"
    using assms by (rule list_insert_eq)
  show "list_rep (link (last (head_of l # us)) e e (cur l vs) h) l (us @ e # vs)"
    using link_rep [of h l us vs "[e]"] assms by simp
  show "link (last (head_of l # us)) e e (cur l vs) h q = h q"
    if "q \<notin> insert e (set (nodes l (us @ vs)))" for q
    using that cut_in_nodes [where l = l and us = us and vs = vs] by (intro link_other) blast
qed

lemma list_push_back_rep:
  assumes "list_rep h l xs" "e \<noteq> NULL" "e \<notin> set (nodes l xs)"
  obtains h' where "list_push_back h l e = Some h'" "list_rep h' l (xs @ [e])"
    "\<And>q. q \<notin> insert e (set (nodes l xs)) \<Longrightarrow> h' q = h q"
  using list_insert_rep [of h l xs "[]" e] assms
  by (auto simp: list_push_back_def list_repD(1))

lemma list_push_front_rep:
  assumes "list_rep h l xs" "e \<noteq> NULL" "e \<notin> set (nodes l xs)"
  obtains h' where "list_push_front h l e = Some h'" "list_rep h' l (e # xs)"
    "\<And>q. q \<notin> insert e (set (nodes l xs)) \<Longrightarrow> h' q = h q"
  using list_insert_rep [of h l "[]" xs e] assms
  by (auto simp: list_push_front_def)

lemma list_remove_eq:
  assumes "list_rep h l (us @ e # vs)"
  shows "list_remove h e = Some (cur l vs, unlink (last (head_of l # us)) (cur l vs) h)"
proof -
  have "e \<noteq> NULL" using list_rep_interior [OF assms] by (simp add: is_interior_def)
  moreover have "e \<noteq> last (head_of l # us)" "cur l vs \<noteq> e"
    using unlink_rep(3) [of h l us "[e]" vs] assms cut_in_nodes [where l = l and us = us and vs = vs] by auto
  moreover have "last (head_of l # us) \<noteq> NULL" "cur l vs \<noteq> NULL"
    using list_rep_cut(3) [of h l us "e # vs"] list_rep_cut(4) [of h l "us @ [e]" vs] assms by auto
  ultimately show ?thesis
    using list_rep_interior [OF assms] list_rep_next [OF assms] list_rep_prev [OF assms]
    by (auto simp: list_remove_def link_access unlink_def)
qed

lemma list_remove_rep:
  assumes "list_rep h l (us @ e # vs)"
  obtains h' where "list_remove h e = Some (cur l vs, h')" "list_rep h' l (us @ vs)"
    "\<And>q. q \<notin> set (nodes l (us @ vs)) \<Longrightarrow> h' q = h q"
proof
  show "list_remove h e = Some (cur l vs, unlink (last (head_of l # us)) (cur l vs) h)"
    using assms by (rule list_remove_eq)
  show "list_rep (unlink (last (head_of l # us)) (cur l vs) h) l (us @ vs)"
    using unlink_rep(1) [of h l us "[e]" vs] assms by simp
  show "unlink (last (head_of l # us)) (cur l vs) h q = h q"
    if "q \<notin> set (nodes l (us @ vs))" for q
    using that cut_in_nodes [where l = l and us = us and vs = vs] by (intro unlink_other) blast
qed

lemma list_pop_front_rep:
  assumes "list_rep h l (x # xs)"
  obtains h' where "list_pop_front h l = Some (x, h')" "list_rep h' l xs"
    "\<And>q. q \<notin> set (nodes l xs) \<Longrightarrow> h' q = h q"
proof -
  obtain h' where "list_remove h x = Some (cur l xs, h')" "list_rep h' l ([] @ xs)"
    "\<And>q. q \<notin> set (nodes l ([] @ xs)) \<Longrightarrow> h' q = h q"
    using list_remove_rep [of h l "[]" x xs] assms by auto
  then show ?thesis using that assms by (simp add: list_pop_front_def)
qed

lemma list_pop_back_rep:
  assumes "list_rep h l (xs @ [x])"
  obtains h' where "list_pop_back h l = Some (x, h')" "list_rep h' l xs"
    "\<And>q. q \<notin> set (nodes l xs) \<Longrightarrow> h' q = h q"
proof -
  obtain h' where "list_remove h x = Some (cur l [], h')" "list_rep h' l (xs @ [])"
    "\<And>q. q \<notin> set (nodes l (xs @ [])) \<Longrightarrow> h' q = h q"
    using list_remove_rep [of h l xs x "[]"] assms by auto
  then show ?thesis using that assms by (simp add: list_pop_back_def)
qed

lemma list_pop_empty: "list_rep h l [] \<Longrightarrow> list_pop_front h l = None \<and> list_pop_back h l = None"
  by (simp add: list_pop_front_def list_pop_back_def list_front_empty list_back_empty)

text \<open>Removing a header, or an element whose links were cleared, fails the assertion.\<close>

lemma list_remove_header:
  "list_rep h l xs \<Longrightarrow> list_remove h (head_of l) = None \<and> list_remove h (tail_of l) = None"
  using list_rep_is_head [of h l xs] list_rep_is_tail [of h l xs]
  by (simp add: list_remove_def is_head_def is_tail_def is_interior_def)

text \<open>\<open>list_splice\<close> is a removal of the run followed by an insertion of it.\<close>

lemma list_splice_eq:
  assumes src: "list_rep h l (as @ cs @ ds)" "cs \<noteq> []"
    and before: "is_interior h b \<or> is_tail h b" "b \<notin> set cs"
    and dst: "prv (unlink (last (head_of l # as)) (cur l ds) h) b = p" "p \<noteq> NULL" "p \<notin> set cs"
  shows "list_splice h b (hd cs) (cur l ds) =
    Some (link p (hd cs) (last cs) b (unlink (last (head_of l # as)) (cur l ds) h))"
proof -
  let ?u = "last (head_of l # as)" and ?n = "cur l ds"
  have seg: "segment (unlink ?u ?n h) cs" and dj: "set cs \<inter> set (nodes l (as @ ds)) = {}"
    using unlink_rep [OF src] by auto
  obtain c cs1 where c: "cs = c # cs1" using src(2) by (cases cs) auto
  obtain cs2 d where d: "cs = cs2 @ [d]" using src(2) by (cases cs rule: rev_cases) auto
  have ends: "hd cs = c" "last cs = d" by (simp add: c) (simp add: d)
  have mem: "c \<in> set cs" "d \<in> set cs" by (simp add: c) (simp add: d)
  have un: "?u \<in> set (nodes l (as @ ds))" "?n \<in> set (nodes l (as @ ds))" by (rule cut_in_nodes)+
  have neq: "c \<noteq> ?u" "c \<noteq> ?n" "d \<noteq> ?u" "d \<noteq> ?n" using mem un dj by auto
  have r1: "list_rep h l (as @ c # (cs1 @ ds))" using src(1) c by simp
  have r2: "list_rep h l ((as @ cs2) @ d # ds)" using src(1) d by simp
  have r3: "list_rep h l ((as @ cs) @ ds)" using src(1) by simp
  have lp: "list_prev h ?n = Some d" using list_prev_rep [OF r3] src(2) ends by simp
  have nn: "?u \<noteq> NULL" "?n \<noteq> NULL" "c \<noteq> NULL" "d \<noteq> NULL" "b \<noteq> NULL"
    using list_rep_cut(3) [OF src(1)] list_rep_cut(4) [OF r3] list_rep_interior [OF r1]
      list_rep_interior [OF r2] before(1) by (auto simp: is_interior_def is_tail_def)
  have "c \<noteq> b" "d \<noteq> b" "c \<noteq> p" "d \<noteq> p" using mem before(2) dst(3) by auto
  then show ?thesis
    using before(1) lp nn neq list_rep_interior [OF r1] list_rep_interior [OF r2]
      list_rep_prev [OF r1] list_rep_next [OF r2] dst(1,2)
    by (simp add: list_splice_def link_access ends link_def unlink_def)
qed

lemma list_rep_mem_interior: "list_rep h l xs \<Longrightarrow> x \<in> set xs \<Longrightarrow> is_interior h x"
  by (metis list_rep_interior split_list)

lemma list_splice_same:
  assumes src: "list_rep h l (as @ cs @ ds)" "cs \<noteq> []" and cut: "us @ vs = as @ ds"
  obtains h' where "list_splice h (cur l vs) (hd cs) (cur l ds) = Some h'"
    "list_rep h' l (us @ cs @ vs)"
    "\<And>q. q \<notin> set (nodes l (as @ cs @ ds)) \<Longrightarrow> h' q = h q"
proof
  let ?h1 = "unlink (last (head_of l # as)) (cur l ds) h"
  let ?p = "last (head_of l # us)"
  have r1: "list_rep ?h1 l (us @ vs)" and sg: "segment ?h1 cs"
    and dj: "set cs \<inter> set (nodes l (us @ vs)) = {}"
    using unlink_rep [OF src] cut by simp_all
  have in_n: "?p \<in> set (nodes l (us @ vs))" "cur l vs \<in> set (nodes l (us @ vs))"
    by (rule cut_in_nodes)+
  have "cur l vs \<in> set (as @ cs @ ds) \<or> cur l vs = tail_of l"
    using cut by (cases vs) (auto, metis UnE in_set_conv_decomp set_append)
  then have int: "is_interior h (cur l vs) \<or> is_tail h (cur l vs)"
    using list_rep_mem_interior [OF src(1)] list_rep_is_tail [OF src(1)] by metis
  show "list_splice h (cur l vs) (hd cs) (cur l ds) =
      Some (link ?p (hd cs) (last cs) (cur l vs) ?h1)"
    using list_splice_eq [OF src int _ list_rep_cut(2) [OF r1] list_rep_cut(3) [OF r1]]
      in_n dj by blast
  show "list_rep (link ?p (hd cs) (last cs) (cur l vs) ?h1) l (us @ cs @ vs)"
    using r1 sg dj by (rule link_rep)
  show "link ?p (hd cs) (last cs) (cur l vs) ?h1 q = h q"
    if q: "q \<notin> set (nodes l (as @ cs @ ds))" for q
  proof -
    have "hd cs \<in> set cs" "last cs \<in> set cs" using src(2) by simp_all
    moreover have "set (nodes l (as @ cs @ ds)) = set cs \<union> set (nodes l (us @ vs))"
      using cut by (auto simp: nodes_def)
    moreover have "last (head_of l # as) \<in> set (nodes l (us @ vs))" "cur l ds \<in> set (nodes l (us @ vs))"
      unfolding cut by (rule cut_in_nodes)+
    ultimately have "q \<notin> {?p, hd cs, last cs, cur l vs}" "q \<notin> {last (head_of l # as), cur l ds}"
      using q in_n by blast+
    then show ?thesis using link_other unlink_other by metis
  qed
qed

lemma list_splice_other:
  assumes src: "list_rep h l (as @ cs @ ds)" "cs \<noteq> []" and dst: "list_rep h m (us @ vs)"
    and dj: "set (nodes l (as @ cs @ ds)) \<inter> set (nodes m (us @ vs)) = {}"
  obtains h' where "list_splice h (cur m vs) (hd cs) (cur l ds) = Some h'"
    "list_rep h' l (as @ ds)" "list_rep h' m (us @ cs @ vs)"
proof
  let ?h1 = "unlink (last (head_of l # as)) (cur l ds) h"
  let ?p = "last (head_of m # us)" and ?b = "cur m vs"
  have r1: "list_rep ?h1 l (as @ ds)" and sg: "segment ?h1 cs"
    using unlink_rep [OF src] by simp_all
  have sub: "set cs \<subseteq> set (nodes l (as @ cs @ ds))"
      "set (nodes l (as @ ds)) \<subseteq> set (nodes l (as @ cs @ ds))" by (auto simp: nodes_def)
  have "last (head_of l # as) \<in> set (nodes l (as @ ds))" "cur l ds \<in> set (nodes l (as @ ds))"
    by (rule cut_in_nodes)+
  then have r2: "list_rep ?h1 m (us @ vs)"
    using dst sub dj by (intro list_rep_frame [OF dst] unlink_other) blast
  have in_n: "?p \<in> set (nodes m (us @ vs))" "?b \<in> set (nodes m (us @ vs))" by (rule cut_in_nodes)+
  show "list_splice h ?b (hd cs) (cur l ds) = Some (link ?p (hd cs) (last cs) ?b ?h1)"
    using list_splice_eq [OF src list_rep_cur [OF dst] _ list_rep_cut(2) [OF r2] list_rep_cut(3) [OF r2]]
      in_n dj sub by blast
  show "list_rep (link ?p (hd cs) (last cs) ?b ?h1) m (us @ cs @ vs)"
    using r2 sg dj sub by (intro link_rep) blast+
  have "hd cs \<in> set cs" "last cs \<in> set cs" using src(2) by simp_all
  moreover have "set cs \<inter> set (nodes l (as @ ds)) = {}" using unlink_rep(3) [OF src] .
  ultimately show "list_rep (link ?p (hd cs) (last cs) ?b ?h1) l (as @ ds)"
    using in_n dj sub by (intro list_rep_frame [OF r1] link_other) blast
qed

section \<open>Traversals\<close>

lemma list_size_loop_rep:
  "list_rep h l (ys @ zs) \<Longrightarrow> list_size_loop h l (cur l zs) n = Some (n + length zs)"
proof (induction zs arbitrary: ys n)
  case Nil
  then show ?case by (subst list_size_loop.simps) (simp add: list_repD(1))
next
  case (Cons z zs)
  have "z \<noteq> tail_of l" using Cons.prems by (auto dest: list_repD)
  moreover have "list_size_loop h l (cur l zs) (Suc n) = Some (Suc n + length zs)"
    using Cons.IH [of "ys @ [z]"] Cons.prems by simp
  ultimately show ?case
    using list_next_rep [OF Cons.prems] list_repD(1) [OF Cons.prems]
    by (subst list_size_loop.simps) simp
qed

lemma list_size_rep [simp]: "list_rep h l xs \<Longrightarrow> list_size h l = Some (length xs)"
  using list_size_loop_rep [of h l "[]" xs 0] by (simp add: list_size_def)

lemma swap_all_links [simp]:
  "nxt (swap_all zs h) q = (if q \<in> set zs then prv h q else nxt h q)"
  "prv (swap_all zs h) q = (if q \<in> set zs then nxt h q else prv h q)"
  by (simp_all add: swap_all_def nxt_def prv_def)

lemma swap_links_eq: "e \<noteq> NULL \<Longrightarrow> swap_links h e = Some (swap_all [e] h)"
  by (auto simp: swap_links_def link_access swap_all_def upd_next_def upd_prev_def nxt_def prv_def
      fun_eq_iff)

lemma swap_all_Cons: "z \<notin> set zs \<Longrightarrow> swap_all zs (swap_all [z] h) = swap_all (z # zs) h"
  by (auto simp: swap_all_def nxt_def prv_def fun_eq_iff)

lemma list_reverse_loop_eq:
  assumes "l \<noteq> NULL" "NULL \<notin> set zs" "distinct (zs @ [tail_of l])" "chain (nxt h) (zs @ [tail_of l])"
  shows "list_reverse_loop h l (cur l zs) = Some (swap_all zs h)"
  using assms
proof (induction zs arbitrary: h)
  case Nil
  then show ?case by (subst list_reverse_loop.simps) (simp add: swap_all_def)
next
  case (Cons z zs)
  have n: "nxt h z = cur l zs" and c: "chain (nxt h) (zs @ [tail_of l])"
    using Cons.prems(4) by (cases zs; simp)+
  have "chain (nxt (swap_all [z] h)) (zs @ [tail_of l]) = chain (nxt h) (zs @ [tail_of l])"
    using Cons.prems(3) by (intro chain_cong) auto
  then have "list_reverse_loop (swap_all [z] h) l (cur l zs) = Some (swap_all (z # zs) h)"
    using Cons c by (simp add: swap_all_Cons)
  then show ?case
    using Cons.prems n by (subst list_reverse_loop.simps) (simp add: swap_links_eq link_access)
qed

lemma chain_rev_links:
  assumes c: "chain g (t # rev xs @ [hd0])" and ne: "xs \<noteq> []"
    and d: "distinct (hd0 # xs @ [t])"
    and f: "f hd0 = last xs" "f (hd xs) = t" "\<And>q. q \<in> set xs \<Longrightarrow> q \<noteq> hd xs \<Longrightarrow> f q = g q"
  shows "chain f (hd0 # rev xs @ [t])"
proof -
  have "chain g (rev xs)" using c ne chain_join [of "[t]" "rev xs @ [hd0]" g] chain_join [of "rev xs" "[hd0]" g]
    by simp
  moreover have "hd xs \<notin> set (butlast (rev xs))"
    using last_notin_butlast [of "rev xs"] ne d by (simp add: last_rev)
  then have "chain f (rev xs) = chain g (rev xs)"
    by (intro chain_cong) (metis f(3) in_set_butlastD set_rev)
  ultimately show ?thesis
    using ne f(1,2) chain_join [of "[hd0]" "rev xs @ [t]" f] chain_join [of "rev xs" "[t]" f]
    by (simp add: hd_append hd_rev last_rev)
qed

lemma list_reverse_rep:
  assumes rep: "list_rep h l xs"
  obtains h' where "list_reverse h l = Some h'" "list_rep h' l (rev xs)"
    "\<And>q. q \<notin> set (nodes l xs) \<Longrightarrow> h' q = h q"
proof (cases "xs = []")
  case True
  then show ?thesis using rep by (intro that [of h]) (simp_all add: list_reverse_def)
next
  case False
  let ?a = "hd xs" and ?z = "last xs" and ?s = "swap_all xs h"
  let ?h' = "upd_next (upd_prev (upd_prev (upd_next ?s (head_of l) ?z) (tail_of l) ?a) ?z (head_of l)) ?a (tail_of l)"
  note D = list_repD [OF rep]
  have az: "?a \<in> set xs" "?z \<in> set xs" using False by simp_all
  have n: "nxt h (head_of l) = ?a" "prv h (tail_of l) = ?z"
    using list_rep_head_next [OF rep] list_rep_tail_prev [OF rep] False by (simp_all add: cur_def split: list.splits)
  have az': "prv h ?a = head_of l" "nxt h ?z = tail_of l"
    using list_rep_prev [of h l "[]" ?a "tl xs"] list_rep_next [of h l "butlast xs" ?z "[]"] rep False
    by simp_all
  have ne: "?a \<noteq> NULL" "?z \<noteq> NULL" "?a \<noteq> head_of l" "?a \<noteq> tail_of l" "?z \<noteq> head_of l" "?z \<noteq> tail_of l"
    using az D by metis+
  have loop: "list_reverse_loop h l (cur l xs) = Some ?s"
  proof (rule list_reverse_loop_eq)
    show "chain (nxt h) (xs @ [tail_of l])"
      using D(8) chain_join [of "[head_of l]" "xs @ [tail_of l]" "nxt h"] by simp
  qed (use D in auto)
  have eq: "list_reverse h l = Some ?h'"
    using rep False D(1,4,5) loop n az az' ne by (simp add: list_reverse_def link_access)
  have nx: "nxt ?h' = (\<lambda>q. if q \<in> set xs then prv h q else nxt h q)(head_of l := ?z, ?a := tail_of l)"
    and pv: "prv ?h' = (\<lambda>q. if q \<in> set xs then nxt h q else prv h q)(tail_of l := ?a, ?z := head_of l)"
    by (simp_all add: fun_eq_iff)
  have d: "distinct (head_of l # xs @ [tail_of l])" using D by auto
  have "chain (nxt ?h') (head_of l # rev xs @ [tail_of l])"
    by (rule chain_rev_links [OF D(9) False d]) (use ne D az in \<open>auto simp: nx\<close>)
  moreover have "chain (prv ?h') (tail_of l # rev (rev xs) @ [head_of l])"
  proof (rule chain_rev_links)
    show "chain (nxt h) (head_of l # rev (rev xs) @ [tail_of l])" using D(8) by simp
  qed (use ne D az False in \<open>auto simp: pv hd_rev last_rev\<close>)
  moreover have "prv ?h' (head_of l) = NULL" "nxt ?h' (tail_of l) = NULL"
    unfolding nx pv using ne D by simp_all
  ultimately have "list_rep ?h' l (rev xs)" using D by (simp add: list_rep_def nodes_def)
  moreover have "?h' q = h q" if "q \<notin> set (nodes l xs)" for q
    using that az ne by (auto simp: frame_simps nodes_def swap_all_def upd_next_def upd_prev_def)
  ultimately show ?thesis using that eq by blast
qed

lemma heap_of_rep: "l \<noteq> NULL \<Longrightarrow> NULL \<notin> set xs \<Longrightarrow> distinct (nodes l xs) \<Longrightarrow> list_rep (heap_of l xs) l xs"
proof (induction xs)
  case Nil
  then show ?case by (simp add: list_rep_def nodes_def nxt_def prv_def)
next
  case (Cons x xs)
  then show ?case using link_rep [of "heap_of l xs" l "[]" xs "[x]"] by (auto simp: nodes_def)
qed

lemma list_pair_rep:
  assumes "l \<noteq> NULL" "m \<noteq> NULL" "NULL \<notin> set xs" "distinct (nodes l xs)"
    "set (nodes l xs) \<inter> {head_of m, tail_of m} = {}"
  shows "list_rep (list_pair l xs m) l xs" "list_rep (list_pair l xs m) m []"
proof -
  show "list_rep (list_pair l xs m) l xs"
    using assms by (intro list_rep_frame [OF heap_of_rep [of l xs]]) (auto simp: list_pair_def)
  show "list_rep (list_pair l xs m) m []"
    using assms by (simp add: list_rep_def nodes_def nxt_def prv_def list_pair_def)
qed

section \<open>Correctness of the list operations\<close>

text \<open>C2: \<^verbatim>\<open>list_insert\<close> puts a new element exactly before the given position and
  \<^verbatim>\<open>list_remove\<close> takes it out again, returning the element that followed it; neither writes
  memory outside the list and the element.\<close>

theorem list_insert_remove_roundtrip:
  assumes "list_rep h l (us @ vs)" "e \<noteq> NULL" "e \<notin> set (nodes l (us @ vs))"
  shows "\<exists>h1 h2. list_insert h (cur l vs) e = Some h1 \<and> list_rep h1 l (us @ e # vs) \<and>
    list_remove h1 e = Some (cur l vs, h2) \<and> list_rep h2 l (us @ vs) \<and>
    (\<forall>q. q \<notin> insert e (set (nodes l (us @ vs))) \<longrightarrow> h1 q = h q \<and> h2 q = h q)"
proof -
  obtain h1 where h1: "list_insert h (cur l vs) e = Some h1" "list_rep h1 l (us @ e # vs)"
    "\<And>q. q \<notin> insert e (set (nodes l (us @ vs))) \<Longrightarrow> h1 q = h q"
    using list_insert_rep [OF assms] by metis
  obtain h2 where "list_remove h1 e = Some (cur l vs, h2)" "list_rep h2 l (us @ vs)"
    "\<And>q. q \<notin> set (nodes l (us @ vs)) \<Longrightarrow> h2 q = h1 q"
    using list_remove_rep [OF h1(2)] by metis
  with h1 show ?thesis by auto
qed

theorem list_insert_remove_roundtrip_witness:
  "\<exists>h1 h2. list_insert (heap_of 8 [40, 60]) 60 52 = Some h1 \<and> list_rep h1 8 [40, 52, 60] \<and>
     list_remove h1 52 = Some (60, h2) \<and> list_rep h2 8 [40, 60]"
proof -
  have "list_rep (heap_of 8 [40, 60]) 8 ([40] @ [60])"
    using heap_of_rep [of 8 "[40, 60]"] by (simp add: nodes_def head_of_def tail_of_def)
  then show ?thesis
    using list_insert_remove_roundtrip [of "heap_of 8 [40, 60]" 8 "[40]" "[60]" 52]
    by (auto simp: nodes_def head_of_def tail_of_def)
qed

text \<open>\<^verbatim>\<open>list_splice\<close> moves a run of elements from one list to any position of another: the
  source keeps the rest, the destination has the run at that position, in order.\<close>

theorem list_splice_moves:
  assumes "list_rep h l (as @ cs @ ds)" "cs \<noteq> []" "list_rep h m (us @ vs)"
    "set (nodes l (as @ cs @ ds)) \<inter> set (nodes m (us @ vs)) = {}"
  shows "\<exists>h'. list_splice h (cur m vs) (hd cs) (cur l ds) = Some h' \<and>
    list_rep h' l (as @ ds) \<and> list_rep h' m (us @ cs @ vs)"
  using list_splice_other [OF assms] by metis

theorem list_splice_moves_witness:
  "\<exists>h'. list_splice (list_pair 8 [40, 52, 60] 200) (tail_of 200) 40 60 = Some h' \<and>
     list_rep h' 8 [60] \<and> list_rep h' 200 [40, 52]"
proof -
  have "list_rep (list_pair 8 [40, 52, 60] 200) 8 ([] @ [40, 52] @ [60])"
    "list_rep (list_pair 8 [40, 52, 60] 200) 200 ([] @ [])"
    using list_pair_rep [of 8 200 "[40, 52, 60]"] by (simp_all add: nodes_def head_of_def tail_of_def)
  then show ?thesis
    using list_splice_moves [of "list_pair 8 [40, 52, 60] 200" 8 "[]" "[40, 52]" "[60]" 200 "[]" "[]"]
    by (auto simp: nodes_def head_of_def tail_of_def)
qed

text \<open>\<^verbatim>\<open>list_reverse\<close> returns with the elements in the opposite order, whatever the length,
  and writes only the list's own nodes.\<close>

theorem list_reverse_correct:
  assumes "list_rep h l xs"
  shows "\<exists>h'. list_reverse h l = Some h' \<and> list_rep h' l (rev xs) \<and>
    (\<forall>q. q \<notin> set (nodes l xs) \<longrightarrow> h' q = h q)"
  using list_reverse_rep [OF assms] by metis

theorem list_reverse_correct_witness:
  "\<exists>h'. list_reverse (heap_of 8 [40, 52, 60]) 8 = Some h' \<and> list_rep h' 8 [60, 52, 40]"
proof -
  have "list_rep (heap_of 8 [40, 52, 60]) 8 [40, 52, 60]"
    using heap_of_rep [of 8 "[40, 52, 60]"] by (simp add: nodes_def head_of_def tail_of_def)
  then show ?thesis using list_reverse_correct [of "heap_of 8 [40, 52, 60]" 8 "[40, 52, 60]"] by auto
qed

end
