(* ===== verification/Klist_Sort.thy ===== *)
theory Klist_Sort
  imports Klist
begin

text \<open>
  The ordered operations of \<^verbatim>\<open>lib/kernel/list.c\<close>: \<^verbatim>\<open>list_sort\<close> (a natural merge sort that
  merges adjacent runs in place, by splicing), \<^verbatim>\<open>list_insert_ordered\<close>, \<^verbatim>\<open>list_unique\<close>,
  \<^verbatim>\<open>list_max\<close> and \<^verbatim>\<open>list_min\<close>. The pointer programs are related to list functions
  (\<open>first_run\<close>, \<open>merge\<close>, \<open>sort_pass\<close>) and those to the specification: the elements are permuted
  stably into order. The contract of a comparison function is the locale \<open>weak_order\<close>.
\<close>

section \<open>Operations\<close>

text \<open>
  The comparison \<^verbatim>\<open>less(a, b, aux)\<close> looks at the structures the elements are embedded in, not
  at the links: it is a predicate on addresses.
\<close>

type_synonym less_func = "addr \<Rightarrow> addr \<Rightarrow> bool"

partial_function (option) is_sorted_loop :: "heap \<Rightarrow> addr \<Rightarrow> addr \<Rightarrow> less_func \<Rightarrow> bool option" where
  "is_sorted_loop h a b lessf = do {
     a \<leftarrow> list_next h a;
     if a = b then Some True
     else do {
       p \<leftarrow> list_prev h a;
       if lessf a p then Some False else is_sorted_loop h a b lessf
     }
   }"

definition is_sorted :: "heap \<Rightarrow> addr \<Rightarrow> addr \<Rightarrow> less_func \<Rightarrow> bool option" where
  "is_sorted h a b lessf = (if a \<noteq> b then is_sorted_loop h a b lessf else Some True)"

partial_function (option) find_end_of_run_loop ::
    "heap \<Rightarrow> addr \<Rightarrow> addr \<Rightarrow> less_func \<Rightarrow> addr option" where
  "find_end_of_run_loop h a b lessf = do {
     a \<leftarrow> list_next h a;
     if a = b then Some a
     else do {
       p \<leftarrow> list_prev h a;
       if lessf a p then Some a else find_end_of_run_loop h a b lessf
     }
   }"

definition find_end_of_run :: "heap \<Rightarrow> addr \<Rightarrow> addr \<Rightarrow> less_func \<Rightarrow> addr option" where
  "find_end_of_run h a b lessf = do {
     ASSERT (a \<noteq> NULL);
     ASSERT (b \<noteq> NULL);
     ASSERT (a \<noteq> b);
     find_end_of_run_loop h a b lessf
   }"

partial_function (option) inplace_merge_loop ::
    "heap \<Rightarrow> addr \<Rightarrow> addr \<Rightarrow> addr \<Rightarrow> less_func \<Rightarrow> heap option" where
  "inplace_merge_loop h a0 a1b0 b1 lessf =
     (if a0 \<noteq> a1b0 \<and> a1b0 \<noteq> b1 then
        if \<not> lessf a1b0 a0 then do {
          a0 \<leftarrow> list_next h a0;
          inplace_merge_loop h a0 a1b0 b1 lessf
        }
        else do {
          a1b0 \<leftarrow> list_next h a1b0;
          p \<leftarrow> list_prev h a1b0;
          h \<leftarrow> list_splice h a0 p a1b0;
          inplace_merge_loop h a0 a1b0 b1 lessf
        }
      else Some h)"

definition inplace_merge :: "heap \<Rightarrow> addr \<Rightarrow> addr \<Rightarrow> addr \<Rightarrow> less_func \<Rightarrow> heap option" where
  "inplace_merge h a0 a1b0 b1 lessf = do {
     ASSERT (a0 \<noteq> NULL);
     ASSERT (a1b0 \<noteq> NULL);
     ASSERT (b1 \<noteq> NULL);
     s1 \<leftarrow> is_sorted h a0 a1b0 lessf;
     ASSERT s1;
     s2 \<leftarrow> is_sorted h a1b0 b1 lessf;
     ASSERT s2;
     inplace_merge_loop h a0 a1b0 b1 lessf
   }"

text \<open>One pass over the list (the \<^verbatim>\<open>for\<close> loop of \<^verbatim>\<open>list_sort\<close>), then the \<^verbatim>\<open>do ... while\<close>.\<close>

partial_function (option) list_sort_pass ::
    "heap \<Rightarrow> addr \<Rightarrow> addr \<Rightarrow> less_func \<Rightarrow> nat \<Rightarrow> (heap \<times> nat) option" where
  "list_sort_pass h l a0 lessf output_run_cnt = do {
     t \<leftarrow> list_end l;
     if a0 = t then Some (h, output_run_cnt)
     else do {
       a1b0 \<leftarrow> find_end_of_run h a0 t lessf;
       if a1b0 = t then Some (h, output_run_cnt + 1)
       else do {
         b1 \<leftarrow> find_end_of_run h a1b0 t lessf;
         h \<leftarrow> inplace_merge h a0 a1b0 b1 lessf;
         list_sort_pass h l b1 lessf (output_run_cnt + 1)
       }
     }
   }"

partial_function (option) list_sort_loop :: "heap \<Rightarrow> addr \<Rightarrow> less_func \<Rightarrow> heap option" where
  "list_sort_loop h l lessf = do {
     b \<leftarrow> list_begin h l;
     (h, output_run_cnt) \<leftarrow> list_sort_pass h l b lessf 0;
     if output_run_cnt > 1 then list_sort_loop h l lessf else Some h
   }"

definition list_sort :: "heap \<Rightarrow> addr \<Rightarrow> less_func \<Rightarrow> heap option" where
  "list_sort h l lessf = do {
     ASSERT (l \<noteq> NULL);
     h \<leftarrow> list_sort_loop h l lessf;
     b \<leftarrow> list_begin h l;
     t \<leftarrow> list_end l;
     s \<leftarrow> is_sorted h b t lessf;
     ASSERT s;
     Some h
   }"

partial_function (option) list_insert_ordered_loop ::
    "heap \<Rightarrow> addr \<Rightarrow> addr \<Rightarrow> addr \<Rightarrow> less_func \<Rightarrow> addr option" where
  "list_insert_ordered_loop h l e elem lessf = do {
     t \<leftarrow> list_end l;
     if e = t then Some e
     else if lessf elem e then Some e
     else do { e \<leftarrow> list_next h e; list_insert_ordered_loop h l e elem lessf }
   }"

definition list_insert_ordered :: "heap \<Rightarrow> addr \<Rightarrow> addr \<Rightarrow> less_func \<Rightarrow> heap option" where
  "list_insert_ordered h l elem lessf = do {
     ASSERT (l \<noteq> NULL);
     ASSERT (elem \<noteq> NULL);
     b \<leftarrow> list_begin h l;
     e \<leftarrow> list_insert_ordered_loop h l b elem lessf;
     list_insert h e elem
   }"

partial_function (option) list_unique_loop ::
    "heap \<Rightarrow> addr \<Rightarrow> addr \<Rightarrow> addr \<Rightarrow> less_func \<Rightarrow> heap option" where
  "list_unique_loop h l duplicates elem lessf = do {
     nx \<leftarrow> list_next h elem;
     t \<leftarrow> list_end l;
     if nx = t then Some h
     else if \<not> lessf elem nx \<and> \<not> lessf nx elem then do {
       (_, h) \<leftarrow> list_remove h nx;
       h \<leftarrow> (if duplicates \<noteq> NULL then list_push_back h duplicates nx else Some h);
       list_unique_loop h l duplicates elem lessf
     }
     else list_unique_loop h l duplicates nx lessf
   }"

definition list_unique :: "heap \<Rightarrow> addr \<Rightarrow> addr \<Rightarrow> less_func \<Rightarrow> heap option" where
  "list_unique h l duplicates lessf = do {
     ASSERT (l \<noteq> NULL);
     em \<leftarrow> list_empty h l;
     if em then Some h
     else do { b \<leftarrow> list_begin h l; list_unique_loop h l duplicates b lessf }
   }"

partial_function (option) list_max_loop ::
    "heap \<Rightarrow> addr \<Rightarrow> addr \<Rightarrow> addr \<Rightarrow> less_func \<Rightarrow> addr option" where
  "list_max_loop h l mx e lessf = do {
     t \<leftarrow> list_end l;
     if e = t then Some mx
     else do {
       e' \<leftarrow> list_next h e;
       list_max_loop h l (if lessf mx e then e else mx) e' lessf
     }
   }"

definition list_max :: "heap \<Rightarrow> addr \<Rightarrow> less_func \<Rightarrow> addr option" where
  "list_max h l lessf = do {
     mx \<leftarrow> list_begin h l;
     t \<leftarrow> list_end l;
     if mx \<noteq> t then do { e \<leftarrow> list_next h mx; list_max_loop h l mx e lessf }
     else Some mx
   }"

partial_function (option) list_min_loop ::
    "heap \<Rightarrow> addr \<Rightarrow> addr \<Rightarrow> addr \<Rightarrow> less_func \<Rightarrow> addr option" where
  "list_min_loop h l mn e lessf = do {
     t \<leftarrow> list_end l;
     if e = t then Some mn
     else do {
       e' \<leftarrow> list_next h e;
       list_min_loop h l (if lessf e mn then e else mn) e' lessf
     }
   }"

definition list_min :: "heap \<Rightarrow> addr \<Rightarrow> less_func \<Rightarrow> addr option" where
  "list_min h l lessf = do {
     mn \<leftarrow> list_begin h l;
     t \<leftarrow> list_end l;
     if mn \<noteq> t then do { e \<leftarrow> list_next h mn; list_min_loop h l mn e lessf }
     else Some mn
   }"

section \<open>Reference functions on lists\<close>

text \<open>The first maximal run of a list and what follows it.\<close>

fun first_run :: "('a \<Rightarrow> 'a \<Rightarrow> bool) \<Rightarrow> 'a list \<Rightarrow> 'a list \<times> 'a list" where
  "first_run lt (x # y # zs) =
     (if lt y x then ([x], y # zs) else (case first_run lt (y # zs) of (r, rest) \<Rightarrow> (x # r, rest)))"
| "first_run lt xs = (xs, [])"

text \<open>A run: no element is less than its predecessor.\<close>

fun is_run :: "('a \<Rightarrow> 'a \<Rightarrow> bool) \<Rightarrow> 'a list \<Rightarrow> bool" where
  "is_run lt (x # y # zs) \<longleftrightarrow> \<not> lt y x \<and> is_run lt (y # zs)"
| "is_run lt xs \<longleftrightarrow> True"

text \<open>The number of maximal runs.\<close>

fun nruns :: "('a \<Rightarrow> 'a \<Rightarrow> bool) \<Rightarrow> 'a list \<Rightarrow> nat" where
  "nruns lt (x # y # zs) = (if lt y x then 1 else 0) + nruns lt (y # zs)"
| "nruns lt xs = length xs"

text \<open>Equivalence under a comparison, the contract of a comparison, and the specification of a
  stable sort.\<close>

definition equiv_by :: "('a \<Rightarrow> 'a \<Rightarrow> bool) \<Rightarrow> 'a \<Rightarrow> 'a \<Rightarrow> bool" where
  "equiv_by lt x y \<longleftrightarrow> \<not> lt x y \<and> \<not> lt y x"

definition strict_weak :: "('a \<Rightarrow> 'a \<Rightarrow> bool) \<Rightarrow> bool" where
  "strict_weak lt \<longleftrightarrow> (\<forall>x y. lt x y \<longrightarrow> \<not> lt y x) \<and>
     (\<forall>x y z. \<not> lt x y \<longrightarrow> \<not> lt y z \<longrightarrow> \<not> lt x z)"

definition stable_sort_of :: "('a \<Rightarrow> 'a \<Rightarrow> bool) \<Rightarrow> 'a list \<Rightarrow> 'a list \<Rightarrow> bool" where
  "stable_sort_of lt ys xs \<longleftrightarrow> sorted_wrt (\<lambda>x y. \<not> lt y x) ys \<and> mset ys = mset xs \<and>
     (\<forall>x. filter (equiv_by lt x) ys = filter (equiv_by lt x) xs)"

text \<open>Removal of adjacent equivalents: what is kept from \<open>x # zs\<close> and what is taken out.\<close>

fun uniq :: "('a \<Rightarrow> 'a \<Rightarrow> bool) \<Rightarrow> 'a \<Rightarrow> 'a list \<Rightarrow> 'a list \<times> 'a list" where
  "uniq lt x [] = ([x], [])"
| "uniq lt x (z # zs) =
     (if equiv_by lt x z then (case uniq lt x zs of (k, d) \<Rightarrow> (k, z # d))
      else (case uniq lt z zs of (k, d) \<Rightarrow> (x # k, d)))"

text \<open>The left-biased merge of two runs.\<close>

fun merge :: "('a \<Rightarrow> 'a \<Rightarrow> bool) \<Rightarrow> 'a list \<Rightarrow> 'a list \<Rightarrow> 'a list" where
  "merge lt (a # as) (b # bs) =
     (if \<not> lt b a then a # merge lt as (b # bs) else b # merge lt (a # as) bs)"
| "merge lt as bs = as @ bs"

lemma first_run_append: "fst (first_run lt xs) @ snd (first_run lt xs) = xs"
  by (induction lt xs rule: first_run.induct) (auto split: prod.split simp: case_prod_beta)

lemma first_run_ne: "xs \<noteq> [] \<Longrightarrow> fst (first_run lt xs) \<noteq> []"
  by (induction lt xs rule: first_run.induct) (auto split: prod.split)

lemma first_run_shorter: "xs \<noteq> [] \<Longrightarrow> length (snd (first_run lt xs)) < length xs"
  using first_run_append [of lt xs] first_run_ne [of xs lt]
  by (metis add_less_same_cancel2 length_append length_greater_0_conv less_add_same_cancel2)

text \<open>One pass: merge the runs two by two; the second component counts the runs produced.\<close>

function sort_pass :: "('a \<Rightarrow> 'a \<Rightarrow> bool) \<Rightarrow> 'a list \<Rightarrow> 'a list \<times> nat" where
  "sort_pass lt xs =
     (if xs = [] then ([], 0)
      else let (r1, rest) = first_run lt xs in
        if rest = [] then (xs, 1)
        else let (r2, rest2) = first_run lt rest; (ys, c) = sort_pass lt rest2
             in (merge lt r1 r2 @ ys, c + 1))"
  by pat_completeness auto
termination
proof (relation "measure (length \<circ> snd)")
  fix lt :: "'a \<Rightarrow> 'a \<Rightarrow> bool" and xs p r1 rest q r2 rest2
  assume "xs \<noteq> []" "p = first_run lt xs" "(r1, rest) = p" "rest \<noteq> []"
    "q = first_run lt rest" "(r2, rest2) = q"
  then show "((lt, rest2), lt, xs) \<in> measure (length \<circ> snd)"
    using first_run_shorter [of xs lt] first_run_shorter [of rest lt]
    by (metis comp_apply in_measure less_trans snd_conv)
qed simp

declare sort_pass.simps [simp del]

section \<open>The pointer programs compute the reference functions\<close>

lemma cur_neq:
  assumes "list_rep h l (us @ vs @ ws)" "vs \<noteq> []"
  shows "cur l (vs @ ws) \<noteq> cur l ws"
proof -
  have "cur l (vs @ ws) \<in> set vs" using assms(2) by (simp add: cur_append)
  moreover have "cur l ws \<in> insert (tail_of l) (set ws)" by (cases ws) simp_all
  moreover have "set vs \<inter> insert (tail_of l) (set ws) = {}"
    using list_repD [OF assms(1)] by auto
  ultimately show ?thesis by auto
qed

lemma list_prev_elem: "list_rep h l (ys @ x # z # zs) \<Longrightarrow> list_prev h z = Some x"
  using list_prev_rep [of h l "ys @ [x]" "z # zs"] by simp

lemma find_end_of_run_loop_rep:
  "list_rep h l (ys @ x # zs) \<Longrightarrow>
   find_end_of_run_loop h x (tail_of l) lt = Some (cur l (snd (first_run lt (x # zs))))"
proof (induction zs arbitrary: ys x)
  case Nil
  then show ?case using list_next_rep [OF Nil] by (subst find_end_of_run_loop.simps) simp
next
  case (Cons z zs)
  have "z \<noteq> tail_of l" using Cons.prems by (auto dest: list_repD)
  moreover have "find_end_of_run_loop h z (tail_of l) lt = Some (cur l (snd (first_run lt (z # zs))))"
    using Cons.IH [of "ys @ [x]" z] Cons.prems by simp
  ultimately show ?case
    using list_next_rep [OF Cons.prems] list_prev_elem [OF Cons.prems]
    by (subst find_end_of_run_loop.simps) (simp split: prod.split)
qed

lemma find_end_of_run_rep:
  assumes "list_rep h l (ys @ zs)" "zs \<noteq> []"
  shows "find_end_of_run h (cur l zs) (tail_of l) lt = Some (cur l (snd (first_run lt zs)))"
proof -
  obtain x xs where zs: "zs = x # xs" using assms(2) by (cases zs) auto
  have "x \<noteq> tail_of l" "x \<noteq> NULL" using assms(1) zs by (auto dest: list_repD)
  then show ?thesis
    using find_end_of_run_loop_rep [of h l ys x xs lt] assms(1) zs by (simp add: find_end_of_run_def)
qed

lemma is_sorted_loop_rep:
  "list_rep h l (ys @ x # as @ ps) \<Longrightarrow> is_sorted_loop h x (cur l ps) lt = Some (is_run lt (x # as))"
proof (induction as arbitrary: ys x)
  case Nil
  then show ?case using list_next_rep [of h l ys x ps] by (subst is_sorted_loop.simps) simp
next
  case (Cons z as)
  have "list_rep h l ((ys @ [x]) @ z # as @ ps)" using Cons.prems by simp
  moreover from this have "z \<noteq> cur l ps" using cur_neq [of h l "ys @ [x]" "z # as" ps] by simp
  ultimately show ?case
    using list_next_rep [of h l ys x "z # as @ ps"] list_prev_elem [of h l ys x z "as @ ps"]
      Cons.prems Cons.IH [of "ys @ [x]" z]
    by (subst is_sorted_loop.simps) simp
qed

lemma is_sorted_rep:
  assumes "list_rep h l (ys @ as @ ps)"
  shows "is_sorted h (cur l (as @ ps)) (cur l ps) lt = Some (is_run lt as)"
proof (cases as)
  case (Cons x xs)
  then show ?thesis
    using is_sorted_loop_rep [of h l ys x xs ps lt] cur_neq [OF assms] assms by (simp add: is_sorted_def)
qed (simp add: is_sorted_def)

lemma inplace_merge_loop_rep:
  assumes "list_rep h l (pre @ as @ bs @ post)"
  shows "\<exists>h'. inplace_merge_loop h (cur l (as @ bs @ post)) (cur l (bs @ post)) (cur l post) lt = Some h' \<and>
    list_rep h' l (pre @ merge lt as bs @ post) \<and>
    (\<forall>q. q \<notin> set (nodes l (pre @ as @ bs @ post)) \<longrightarrow> h' q = h q)"
  using assms
proof (induction lt as bs arbitrary: pre h rule: merge.induct)
  case (1 lt a as b bs)
  note rep = 1(3)
  have neq: "a \<noteq> b" "b \<noteq> cur l post"
    using cur_neq [of h l pre "a # as" "b # bs @ post"] cur_neq [of h l "pre @ a # as" "b # bs" post] rep
    by simp_all
  show ?case
  proof (cases "lt b a")
    case False
    have "list_next h a = Some (cur l (as @ (b # bs) @ post))"
      using list_next_rep [of h l pre a "as @ (b # bs) @ post"] rep by simp
    then show ?thesis
      using 1(1) [OF False, of h "pre @ [a]"] rep neq False
      by (subst inplace_merge_loop.simps) simp
  next
    case True
    have nx: "list_next h b = Some (cur l (bs @ post))"
      using list_next_rep [of h l "pre @ a # as" b "bs @ post"] rep by simp
    have pv: "list_prev h (cur l (bs @ post)) = Some b"
      using list_prev_rep [of h l "pre @ a # as @ [b]" "bs @ post"] rep by simp
    obtain h1 where sp: "list_splice h a b (cur l (bs @ post)) = Some h1"
      and r1: "list_rep h1 l ((pre @ [b]) @ (a # as) @ bs @ post)"
      and f1: "\<And>q. q \<notin> set (nodes l (pre @ (a # as) @ (b # bs) @ post)) \<Longrightarrow> h1 q = h q"
      using list_splice_same [of h l "pre @ a # as" "[b]" "bs @ post" pre "a # as @ bs @ post"] rep by auto
    have "set (nodes l ((pre @ [b]) @ (a # as) @ bs @ post)) = set (nodes l (pre @ (a # as) @ (b # bs) @ post))"
      by (auto simp: nodes_def)
    then show ?thesis
      using 1(2) [of h1 "pre @ [b]"] r1 f1 neq True nx pv sp
      by (subst inplace_merge_loop.simps) auto
  qed
qed (subst inplace_merge_loop.simps; simp)+

lemma inplace_merge_rep:
  assumes "list_rep h l (pre @ as @ bs @ post)" "is_run lt as" "is_run lt bs"
  shows "\<exists>h'. inplace_merge h (cur l (as @ bs @ post)) (cur l (bs @ post)) (cur l post) lt = Some h' \<and>
    list_rep h' l (pre @ merge lt as bs @ post) \<and>
    (\<forall>q. q \<notin> set (nodes l (pre @ as @ bs @ post)) \<longrightarrow> h' q = h q)"
  using inplace_merge_loop_rep [OF assms(1), of lt] assms(2,3)
    is_sorted_rep [of h l pre as "bs @ post" lt] is_sorted_rep [of h l "pre @ as" bs post lt] assms(1)
    list_rep_cut(4) [of h l pre "as @ bs @ post"] list_rep_cut(4) [of h l "pre @ as" "bs @ post"]
    list_rep_cut(4) [of h l "pre @ as @ bs" post]
  by (simp add: inplace_merge_def)

section \<open>The reference functions sort\<close>

lemma mset_merge: "mset (merge lt as bs) = mset as + mset bs"
  by (induction lt as bs rule: merge.induct) auto

lemma merge_induct [case_names both left right]:
  assumes "\<And>a as b bs. (\<not> lt b a \<Longrightarrow> P as (b # bs)) \<Longrightarrow> (lt b a \<Longrightarrow> P (a # as) bs) \<Longrightarrow> P (a # as) (b # bs)"
    and "\<And>bs. P [] bs" and "\<And>as. P as []"
  shows "P as bs"
proof (induction as arbitrary: bs)
  case (Cons a as)
  then show ?case using assms by (induction bs) auto
qed (rule assms(2))

lemma set_merge: "set (merge lt as bs) = set as \<union> set bs"
  by (metis mset_merge set_mset_mset set_mset_union)

lemma is_run_first_run: "is_run lt (fst (first_run lt xs))"
proof (induction lt xs rule: first_run.induct)
  case (1 lt x y zs)
  moreover have "\<exists>r. fst (first_run lt (y # zs)) = y # r"
    by (cases zs) (auto split: prod.split)
  ultimately show ?case by (auto split: prod.split)
qed auto

lemma is_run_nruns: "is_run lt xs \<longleftrightarrow> nruns lt xs \<le> 1"
proof (induction lt xs rule: is_run.induct)
  case (1 lt x y zs)
  have "nruns lt (y # zs) > 0" by (induction zs arbitrary: y) auto
  with 1 show ?case by auto
qed auto

lemma nruns_append: "nruns lt (as @ bs) \<le> nruns lt as + nruns lt bs"
  by (induction lt as rule: nruns.induct; cases bs) auto

lemma nruns_first_run: "xs \<noteq> [] \<Longrightarrow> nruns lt xs = Suc (nruns lt (snd (first_run lt xs)))"
  by (induction lt xs rule: first_run.induct) (auto split: prod.splits)

lemma sort_pass_unfold:
  "sort_pass lt [] = ([], 0)"
  "xs \<noteq> [] \<Longrightarrow> snd (first_run lt xs) = [] \<Longrightarrow> sort_pass lt xs = (xs, 1)"
  "xs \<noteq> [] \<Longrightarrow> snd (first_run lt xs) \<noteq> [] \<Longrightarrow> sort_pass lt xs =
     (merge lt (fst (first_run lt xs)) (fst (first_run lt (snd (first_run lt xs)))) @
        fst (sort_pass lt (snd (first_run lt (snd (first_run lt xs))))),
      Suc (snd (sort_pass lt (snd (first_run lt (snd (first_run lt xs)))))))"
  by (subst sort_pass.simps; simp add: case_prod_beta Let_def)+

text \<open>Induction along the pairs of runs that a pass merges.\<close>

lemma runs_induct [case_names Nil single pair]:
  assumes "P []"
    and "\<And>xs. xs \<noteq> [] \<Longrightarrow> snd (first_run lt xs) = [] \<Longrightarrow> P xs"
    and "\<And>xs. xs \<noteq> [] \<Longrightarrow> snd (first_run lt xs) \<noteq> [] \<Longrightarrow>
           P (snd (first_run lt (snd (first_run lt xs)))) \<Longrightarrow> P xs"
  shows "P xs"
proof (induction xs rule: length_induct)
  case (1 xs)
  then show ?case using assms first_run_shorter [of xs lt] first_run_shorter [of "snd (first_run lt xs)" lt]
    by (metis less_trans)
qed

lemma two_runs_append:
  "xs = fst (first_run lt xs) @ fst (first_run lt (snd (first_run lt xs))) @
     snd (first_run lt (snd (first_run lt xs)))"
  using first_run_append [of lt xs] first_run_append [of lt "snd (first_run lt xs)"] by simp

lemma mset_sort_pass: "mset (fst (sort_pass lt xs)) = mset xs"
proof (induction xs rule: runs_induct [where lt = lt])
  case (pair xs)
  then show ?case
    using arg_cong [OF two_runs_append [of xs lt], of mset] by (simp add: sort_pass_unfold mset_merge)
qed (simp_all add: sort_pass_unfold)

lemma set_sort_pass: "set (fst (sort_pass lt xs)) = set xs"
  by (metis mset_sort_pass set_mset_mset)

lemma sort_pass_count: "snd (sort_pass lt xs) = (nruns lt xs + 1) div 2"
proof (induction xs rule: runs_induct [where lt = lt])
  case (pair xs)
  then show ?case
    using nruns_first_run [of xs lt] nruns_first_run [of "snd (first_run lt xs)" lt]
    by (simp add: sort_pass_unfold)
qed (simp_all add: sort_pass_unfold nruns_first_run)

lemma list_sort_pass_rep:
  assumes "list_rep h l (pre @ xs)"
  shows "\<exists>h'. list_sort_pass h l (cur l xs) lt n = Some (h', n + snd (sort_pass lt xs)) \<and>
    list_rep h' l (pre @ fst (sort_pass lt xs)) \<and>
    (\<forall>q. q \<notin> set (nodes l (pre @ xs)) \<longrightarrow> h' q = h q)"
  using assms
proof (induction xs arbitrary: pre h n rule: runs_induct [where lt = lt])
  case Nil
  then show ?case by (subst list_sort_pass.simps) (simp add: list_repD(1) sort_pass_unfold)
next
  case (single xs)
  have "cur l xs \<noteq> tail_of l" using cur_neq [of h l pre xs "[]"] single by simp
  then show ?case
    using single find_end_of_run_rep [of h l pre xs lt] list_repD(1) [OF single(3)]
    by (subst list_sort_pass.simps) (simp add: sort_pass_unfold)
next
  case (pair xs)
  define r1 where "r1 = fst (first_run lt xs)"
  define rest where "rest = snd (first_run lt xs)"
  define r2 where "r2 = fst (first_run lt rest)"
  define rest2 where "rest2 = snd (first_run lt rest)"
  have xs: "xs = r1 @ r2 @ rest2" and rest: "rest = r2 @ rest2"
    using first_run_append [of lt xs] first_run_append [of lt rest]
    by (simp_all add: r1_def r2_def rest_def rest2_def)
  have l: "l \<noteq> NULL" using list_repD(1) [OF pair(4)] .
  have r: "list_rep h l (pre @ r1 @ r2 @ rest2)" "list_rep h l ((pre @ r1) @ rest)"
    using pair(4) xs rest by simp_all
  have ne: "cur l xs \<noteq> tail_of l" "cur l rest \<noteq> tail_of l"
    using cur_neq [of h l pre xs "[]"] cur_neq [of h l "pre @ r1" rest "[]"] pair r
    by (simp_all add: rest_def)
  have e: "find_end_of_run h (cur l xs) (tail_of l) lt = Some (cur l rest)"
      "find_end_of_run h (cur l rest) (tail_of l) lt = Some (cur l rest2)"
    using find_end_of_run_rep [of h l pre xs lt] find_end_of_run_rep [OF r(2), of lt] pair
    by (simp_all add: rest_def rest2_def)
  obtain h1 where m: "inplace_merge h (cur l xs) (cur l rest) (cur l rest2) lt = Some h1"
      and r1': "list_rep h1 l ((pre @ merge lt r1 r2) @ rest2)"
      and f1: "\<forall>q. q \<notin> set (nodes l (pre @ xs)) \<longrightarrow> h1 q = h q"
    using inplace_merge_rep [OF r(1), of lt] is_run_first_run [of lt] unfolding xs rest
    by (auto simp: r1_def r2_def)
  have sn: "set (nodes l ((pre @ merge lt r1 r2) @ rest2)) = set (nodes l (pre @ xs))"
    unfolding xs by (auto simp: nodes_def set_merge)
  obtain h2 where "list_sort_pass h1 l (cur l rest2) lt (n + 1) = Some (h2, n + 1 + snd (sort_pass lt rest2))"
      and "list_rep h2 l ((pre @ merge lt r1 r2) @ fst (sort_pass lt rest2))"
      and "\<forall>q. q \<notin> set (nodes l (pre @ xs)) \<longrightarrow> h2 q = h1 q"
    using pair(3) [of h1 "pre @ merge lt r1 r2" "n + 1"] r1' sn by (auto simp: rest_def rest2_def)
  moreover have "sort_pass lt xs = (merge lt r1 r2 @ fst (sort_pass lt rest2), Suc (snd (sort_pass lt rest2)))"
    using pair by (simp add: sort_pass_unfold r1_def r2_def rest_def rest2_def)
  ultimately show ?case
    using m f1 l ne e by (subst list_sort_pass.simps) simp
qed

section \<open>Ordered insertion, duplicates, extrema\<close>

lemma list_insert_ordered_loop_rep:
  "list_rep h l (ys @ zs) \<Longrightarrow>
   list_insert_ordered_loop h l (cur l zs) e lt = Some (cur l (dropWhile (\<lambda>x. \<not> lt e x) zs))"
proof (induction zs arbitrary: ys)
  case Nil
  then show ?case by (subst list_insert_ordered_loop.simps) (simp add: list_repD(1))
next
  case (Cons z zs)
  have "z \<noteq> tail_of l" using Cons.prems by (auto dest: list_repD)
  then show ?case
    using Cons.IH [of "ys @ [z]"] Cons.prems list_next_rep [OF Cons.prems] list_repD(1) [OF Cons.prems]
    by (subst list_insert_ordered_loop.simps) simp
qed

lemma list_insert_ordered_rep:
  assumes "list_rep h l xs" "e \<noteq> NULL" "e \<notin> set (nodes l xs)"
  obtains h' where "list_insert_ordered h l e lt = Some h'"
    "list_rep h' l (takeWhile (\<lambda>x. \<not> lt e x) xs @ e # dropWhile (\<lambda>x. \<not> lt e x) xs)"
    "\<And>q. q \<notin> insert e (set (nodes l xs)) \<Longrightarrow> h' q = h q"
proof -
  let ?us = "takeWhile (\<lambda>x. \<not> lt e x) xs" and ?vs = "dropWhile (\<lambda>x. \<not> lt e x) xs"
  obtain h' where "list_insert h (cur l ?vs) e = Some h'" "list_rep h' l (?us @ e # ?vs)"
    "\<And>q. q \<notin> insert e (set (nodes l (?us @ ?vs))) \<Longrightarrow> h' q = h q"
    using list_insert_rep [of h l ?us ?vs e] assms by (metis takeWhile_dropWhile_id)
  then show ?thesis
    using that [of h'] assms list_insert_ordered_loop_rep [of h l "[]" xs e lt] list_repD(1) [OF assms(1)]
    by (simp add: list_insert_ordered_def)
qed

lemma list_unique_loop_dups:
  assumes "list_rep h l (ys @ x # zs)" "list_rep h m ds"
    and "set (nodes l (ys @ x # zs)) \<inter> set (nodes m ds) = {}"
  shows "\<exists>h'. list_unique_loop h l m x lt = Some h' \<and> list_rep h' l (ys @ fst (uniq lt x zs)) \<and>
    list_rep h' m (ds @ snd (uniq lt x zs))"
  using assms
proof (induction zs arbitrary: ys x ds h)
  case Nil
  then show ?case
    using list_next_rep [of h l ys x "[]"] list_repD(1) [OF Nil(1)]
    by (subst list_unique_loop.simps) simp
next
  case (Cons z zs)
  note rep = Cons.prems(1)
  have l: "l \<noteq> NULL" "m \<noteq> NULL" using list_repD(1) rep Cons.prems(2) by metis+
  have z: "z \<noteq> tail_of l" "z \<noteq> NULL" using rep by (auto dest: list_repD)
  have nx: "list_next h x = Some z" using list_next_rep [OF rep] by simp
  show ?case
  proof (cases "equiv_by lt x z")
    case False
    then show ?thesis
      using Cons.IH [of h "ys @ [x]" z ds] Cons.prems nx l z
      by (subst list_unique_loop.simps) (auto simp: equiv_by_def split: prod.split)
  next
    case True
    obtain h1 where h1: "list_remove h z = Some (cur l zs, h1)" "list_rep h1 l (ys @ x # zs)"
      "\<And>q. q \<notin> set (nodes l (ys @ x # zs)) \<Longrightarrow> h1 q = h q"
      using list_remove_rep [of h l "ys @ [x]" z zs] rep by auto
    have zn: "z \<notin> set (nodes l (ys @ x # zs))" "z \<notin> set (nodes m ds)"
      using unlink_rep(3) [of h l "ys @ [x]" "[z]" zs] rep Cons.prems(3) by (auto simp: nodes_def)
    have sub: "set (nodes l (ys @ x # zs)) \<subseteq> set (nodes l (ys @ x # z # zs))"
      by (auto simp: nodes_def)
    have m1: "list_rep h1 m ds"
      using Cons.prems(2,3) sub by (intro list_rep_frame [OF Cons.prems(2)] h1(3)) blast
    obtain h2 where h2: "list_push_back h1 m z = Some h2" "list_rep h2 m (ds @ [z])"
      "\<And>q. q \<notin> insert z (set (nodes m ds)) \<Longrightarrow> h2 q = h1 q"
      using list_push_back_rep [OF m1 z(2) zn(2)] by blast
    have l2: "list_rep h2 l (ys @ x # zs)"
      using zn(1) Cons.prems(3) sub by (intro list_rep_frame [OF h1(2)] h2(3)) blast
    have dj: "set (nodes l (ys @ x # zs)) \<inter> set (nodes m (ds @ [z])) = {}"
      using zn(1) Cons.prems(3) sub by (auto simp: nodes_def)
    show ?thesis
      using Cons.IH [OF l2 h2(2) dj] True nx l z h1(1) h2(1)
      by (subst list_unique_loop.simps) (auto simp: equiv_by_def split: prod.split)
  qed
qed

lemma list_unique_loop_null:
  assumes "list_rep h l (ys @ x # zs)"
  shows "\<exists>h'. list_unique_loop h l NULL x lt = Some h' \<and> list_rep h' l (ys @ fst (uniq lt x zs))"
  using assms
proof (induction zs arbitrary: ys x h)
  case Nil
  then show ?case
    using list_next_rep [of h l ys x "[]"] list_repD(1) [OF Nil(1)]
    by (subst list_unique_loop.simps) simp
next
  case (Cons z zs)
  have l: "l \<noteq> NULL" "z \<noteq> tail_of l" using Cons.prems by (auto dest: list_repD)
  have nx: "list_next h x = Some z" using list_next_rep [OF Cons.prems] by simp
  obtain h1 where h1: "list_remove h z = Some (cur l zs, h1)" "list_rep h1 l (ys @ x # zs)"
    using list_remove_rep [of h l "ys @ [x]" z zs] Cons.prems by auto
  show ?case
    using Cons.IH [OF h1(2)] Cons.IH [of h "ys @ [x]" z] Cons.prems nx l h1(1)
    by (subst list_unique_loop.simps) (auto simp: equiv_by_def split: prod.split)
qed

lemma list_max_loop_rep:
  "list_rep h l (ys @ zs) \<Longrightarrow>
   list_max_loop h l mx (cur l zs) lt = Some (foldl (\<lambda>m e. if lt m e then e else m) mx zs)"
proof (induction zs arbitrary: ys mx)
  case Nil
  then show ?case by (subst list_max_loop.simps) (simp add: list_repD(1))
next
  case (Cons z zs)
  have "z \<noteq> tail_of l" using Cons.prems by (auto dest: list_repD)
  then show ?case
    using Cons.IH [of "ys @ [z]"] Cons.prems list_next_rep [OF Cons.prems] list_repD(1) [OF Cons.prems]
    by (subst list_max_loop.simps) simp
qed

lemma list_max_rep: "list_rep h l (x # xs) \<Longrightarrow>
   list_max h l lt = Some (foldl (\<lambda>m e. if lt m e then e else m) x xs)"
  using list_max_loop_rep [of h l "[x]" xs x lt] list_next_rep [of h l "[]" x xs]
  by (auto simp: list_max_def list_repD(1) dest: list_repD)

lemma list_min_loop_rep:
  "list_rep h l (ys @ zs) \<Longrightarrow>
   list_min_loop h l mn (cur l zs) lt = Some (foldl (\<lambda>m e. if lt e m then e else m) mn zs)"
proof (induction zs arbitrary: ys mn)
  case Nil
  then show ?case by (subst list_min_loop.simps) (simp add: list_repD(1))
next
  case (Cons z zs)
  have "z \<noteq> tail_of l" using Cons.prems by (auto dest: list_repD)
  then show ?case
    using Cons.IH [of "ys @ [z]"] Cons.prems list_next_rep [OF Cons.prems] list_repD(1) [OF Cons.prems]
    by (subst list_min_loop.simps) simp
qed

lemma list_min_rep: "list_rep h l (x # xs) \<Longrightarrow>
   list_min h l lt = Some (foldl (\<lambda>m e. if lt e m then e else m) x xs)"
  using list_min_loop_rep [of h l "[x]" xs x lt] list_next_rep [of h l "[]" x xs]
  by (auto simp: list_min_def list_repD(1) dest: list_repD)

lemma list_extrema_empty:
  "list_rep h l [] \<Longrightarrow> list_max h l lt = Some (tail_of l) \<and> list_min h l lt = Some (tail_of l)"
  by (simp add: list_max_def list_min_def list_repD(1))

text \<open>What a client gets from a comparison that is a strict weak order.\<close>

locale weak_order =
  fixes lt :: "'a \<Rightarrow> 'a \<Rightarrow> bool"
  assumes asym: "lt x y \<Longrightarrow> \<not> lt y x"
    and ntrans: "\<not> lt x y \<Longrightarrow> \<not> lt y z \<Longrightarrow> \<not> lt x z"
begin

lemma is_run_sorted: "is_run lt xs \<longleftrightarrow> sorted_wrt (\<lambda>x y. \<not> lt y x) xs"
proof (induction xs rule: induct_list012)
  case (3 x y zs)
  then show ?case using ntrans [of _ y x] by auto
qed auto

lemma sorted_merge:
  "is_run lt as \<Longrightarrow> is_run lt bs \<Longrightarrow> is_run lt (merge lt as bs)"
  unfolding is_run_sorted
proof (induction as bs rule: merge_induct [where lt = lt])
  case (both a as b bs)
  show ?case
  proof (cases "lt b a")
    case False
    have "\<not> lt y a" if "y \<in> set as \<union> set (b # bs)" for y
      using that False both.prems ntrans [of y b a] by auto
    then show ?thesis using both False by (simp add: set_merge)
  next
    case True
    have "\<not> lt y b" if "y \<in> set (a # as) \<union> set bs" for y
      using that True both.prems asym [of b a] ntrans [of y a b] by auto
    then show ?thesis using both True by (simp add: set_merge)
  qed
qed auto

lemma filter_equiv_Nil:
  assumes "lt b a" "sorted_wrt (\<lambda>x y. \<not> lt y x) (a # as)" "equiv_by lt x b"
  shows "filter (equiv_by lt x) (a # as) = []"
proof -
  have "lt b y" if "y \<in> set (a # as)" for y
    using that assms(1,2) ntrans [of b y a] by auto
  moreover have "\<not> equiv_by lt x y" if "lt b y" for y
    using that assms(3) ntrans [of b x y] by (auto simp: equiv_by_def)
  ultimately show ?thesis by (auto simp: filter_empty_conv)
qed

lemma filter_merge:
  "is_run lt as \<Longrightarrow> is_run lt bs \<Longrightarrow>
   filter (equiv_by lt x) (merge lt as bs) = filter (equiv_by lt x) as @ filter (equiv_by lt x) bs"
  unfolding is_run_sorted
proof (induction as bs rule: merge_induct [where lt = lt])
  case (both a as b bs)
  show ?case
  proof (cases "lt b a \<and> equiv_by lt x b")
    case True
    then show ?thesis using both filter_equiv_Nil [of b a as x] by auto
  next
    case False
    then show ?thesis using both by auto
  qed
qed auto

lemma sort_pass_runs: "nruns lt (fst (sort_pass lt xs)) \<le> snd (sort_pass lt xs)"
proof (induction xs rule: runs_induct [where lt = lt])
  case (single xs)
  then show ?case by (simp add: sort_pass_unfold nruns_first_run)
next
  case (pair xs)
  let ?r = "snd (first_run lt xs)"
  have "nruns lt (merge lt (fst (first_run lt xs)) (fst (first_run lt ?r))) \<le> 1"
    using sorted_merge [OF is_run_first_run is_run_first_run] unfolding is_run_nruns .
  then show ?case
    using pair nruns_append [of lt "merge lt (fst (first_run lt xs)) (fst (first_run lt ?r))"
        "fst (sort_pass lt (snd (first_run lt ?r)))"]
    by (simp add: sort_pass_unfold)
qed (simp add: sort_pass_unfold)

lemma filter_sort_pass: "filter (equiv_by lt x) (fst (sort_pass lt xs)) = filter (equiv_by lt x) xs"
proof (induction xs rule: runs_induct [where lt = lt])
  case (pair xs)
  then show ?case
    using arg_cong [OF two_runs_append [of xs lt], of "filter (equiv_by lt x)"]
    by (simp add: sort_pass_unfold filter_merge is_run_first_run)
qed (simp_all add: sort_pass_unfold)

lemma sort_pass_progress:
  "snd (sort_pass lt xs) > 1 \<Longrightarrow> nruns lt (fst (sort_pass lt xs)) < nruns lt xs"
  "\<not> snd (sort_pass lt xs) > 1 \<Longrightarrow> is_run lt (fst (sort_pass lt xs))"
  using sort_pass_runs [of xs] sort_pass_count [of lt xs] by (auto simp: is_run_nruns)

lemma sorted_insert:
  assumes "sorted_wrt (\<lambda>x y. \<not> lt y x) xs"
  shows "sorted_wrt (\<lambda>x y. \<not> lt y x) (takeWhile (\<lambda>x. \<not> lt e x) xs @ e # dropWhile (\<lambda>x. \<not> lt e x) xs)"
  using assms
proof (induction xs)
  case (Cons x xs)
  show ?case
  proof (cases "lt e x")
    case True
    have "\<not> lt y e" if "y \<in> set (x # xs)" for y
      using that Cons.prems asym [OF True] ntrans [of y x e] by auto
    then show ?thesis using True Cons.prems by auto
  next
    case False
    have "\<not> lt y x" if "y \<in> set xs" for y using that Cons.prems by auto
    then show ?thesis using False Cons by (auto dest: set_takeWhileD set_dropWhileD)
  qed
qed simp

lemma foldl_max:
  "\<exists>us vs. x # xs = us @ foldl (\<lambda>m e. if lt m e then e else m) x xs # vs \<and>
     (\<forall>u \<in> set us. lt u (foldl (\<lambda>m e. if lt m e then e else m) x xs)) \<and>
     (\<forall>v \<in> set vs. \<not> lt (foldl (\<lambda>m e. if lt m e then e else m) x xs) v)"
proof (induction xs rule: rev_induct)
  case (snoc y xs)
  let ?m = "foldl (\<lambda>m e. if lt m e then e else m) x xs"
  obtain us vs where xs: "x # xs = us @ ?m # vs" "\<forall>u \<in> set us. lt u ?m" "\<forall>v \<in> set vs. \<not> lt ?m v"
    using snoc by auto
  show ?case
  proof (cases "lt ?m y")
    case True
    have le: "\<not> lt ?m u" if "u \<in> set (x # xs)" for u
      using that xs asym by (auto simp: xs(1))
    have "lt u y" if "u \<in> set (x # xs)" for u
      using le [OF that] True ntrans [of ?m u y] by auto
    then show ?thesis using True by (intro exI [of _ "x # xs"] exI [of _ "[]"]) auto
  next
    case False
    then show ?thesis using xs by (intro exI [of _ us] exI [of _ "vs @ [y]"]) auto
  qed
qed (auto intro: exI [of _ "[]"])

end

text \<open>The same contract for a \<^verbatim>\<open>list_less_func\<close>, and what the list operations then guarantee.\<close>

locale list_order = weak_order lt for lt :: less_func
begin

lemma list_sort_loop_rep:
  assumes "list_rep h l xs"
  shows "\<exists>h' ys. list_sort_loop h l lt = Some h' \<and> list_rep h' l ys \<and> stable_sort_of lt ys xs \<and>
    (\<forall>q. q \<notin> set (nodes l xs) \<longrightarrow> h' q = h q)"
  using assms
proof (induction "nruns lt xs" arbitrary: xs h rule: less_induct)
  case less
  define ys where "ys = fst (sort_pass lt xs)"
  obtain h1 where p: "list_sort_pass h l (cur l xs) lt 0 = Some (h1, snd (sort_pass lt xs))"
    and r1: "list_rep h1 l ys" and f1: "\<forall>q. q \<notin> set (nodes l xs) \<longrightarrow> h1 q = h q"
    using list_sort_pass_rep [of h l "[]" xs lt 0] less.prems by (auto simp: ys_def)
  have ms: "mset ys = mset xs" "\<And>x. filter (equiv_by lt x) ys = filter (equiv_by lt x) xs"
    by (simp_all add: ys_def mset_sort_pass filter_sort_pass)
  have sn: "set (nodes l ys) = set (nodes l xs)"
    using mset_eq_setD [OF ms(1)] by (simp add: nodes_def)
  have step: "list_sort_loop h l lt = (if snd (sort_pass lt xs) > 1 then list_sort_loop h1 l lt else Some h1)"
    using less.prems p by (subst list_sort_loop.simps) simp
  show ?case
  proof (cases "snd (sort_pass lt xs) > 1")
    case True
    then obtain h' zs where "list_sort_loop h1 l lt = Some h'" "list_rep h' l zs" "stable_sort_of lt zs ys"
      "\<forall>q. q \<notin> set (nodes l ys) \<longrightarrow> h' q = h1 q"
      using less.hyps [OF _ r1] sort_pass_progress(1) [OF True] by (auto simp: ys_def)
    then show ?thesis using step True ms f1 sn by (auto simp: stable_sort_of_def)
  next
    case False
    then have "stable_sort_of lt ys xs"
      using ms sort_pass_progress(2) [OF False] by (simp add: stable_sort_of_def is_run_sorted ys_def)
    then show ?thesis using step False r1 f1 by auto
  qed
qed

lemma list_sort_rep:
  assumes "list_rep h l xs"
  obtains h' ys where "list_sort h l lt = Some h'" "list_rep h' l ys" "stable_sort_of lt ys xs"
    "\<And>q. q \<notin> set (nodes l xs) \<Longrightarrow> h' q = h q"
proof -
  obtain h' ys where h': "list_sort_loop h l lt = Some h'" and ys: "list_rep h' l ys" "stable_sort_of lt ys xs"
    and f: "\<forall>q. q \<notin> set (nodes l xs) \<longrightarrow> h' q = h q"
    using list_sort_loop_rep [OF assms] by blast
  have "is_sorted h' (cur l ys) (tail_of l) lt = Some True"
    using is_sorted_rep [of h' l "[]" ys "[]" lt] ys by (simp add: stable_sort_of_def is_run_sorted)
  then show ?thesis
    using that [of h' ys] h' ys f list_repD(1) [OF assms] by (simp add: list_sort_def)
qed

end

lemma strict_weak_locales: "strict_weak lt \<Longrightarrow> weak_order lt" "strict_weak lt' \<Longrightarrow> list_order lt'"
  unfolding strict_weak_def by (unfold_locales; blast)+

lemma strict_weak_converse: "strict_weak lt \<Longrightarrow> strict_weak (\<lambda>x y. lt y x)"
  unfolding strict_weak_def by blast

lemma uniq_mset: "mset (fst (uniq lt x zs)) + mset (snd (uniq lt x zs)) = mset (x # zs)"
  by (induction lt x zs rule: uniq.induct) (auto split: prod.splits)

lemma uniq_fst_Cons: "\<exists>k. fst (uniq lt x zs) = x # k"
  by (induction zs) (auto split: prod.splits)

lemma uniq_distinct_adj: "successively (\<lambda>x y. \<not> equiv_by lt x y) (fst (uniq lt x zs))"
proof (induction lt x zs rule: uniq.induct)
  case (2 lt x z zs)
  then show ?case using uniq_fst_Cons [of lt z zs] by (auto split: prod.splits)
qed simp

section \<open>Correctness of the ordered operations\<close>

text \<open>C1: \<^verbatim>\<open>list_sort\<close> returns for every list and every comparison that is a strict weak order,
  none of its assertions fails, the elements of the list end up in order by a stable
  permutation, and no memory outside the list is written.\<close>

theorem list_sort_correct:
  assumes "list_rep h l xs" "strict_weak lt"
  shows "\<exists>h' ys. list_sort h l lt = Some h' \<and> list_rep h' l ys \<and> stable_sort_of lt ys xs \<and>
    (\<forall>q. q \<notin> set (nodes l xs) \<longrightarrow> h' q = h q)"
  using list_order.list_sort_rep [OF strict_weak_locales(2) [OF assms(2)] assms(1)] by metis

theorem list_sort_correct_witness:
  "\<exists>h' ys. list_sort (heap_of 8 [60, 40, 52, 44]) 8 (\<lambda>a b. a div 10 < b div 10) = Some h' \<and>
     list_rep h' 8 ys \<and> stable_sort_of (\<lambda>a b. a div 10 < b div 10) ys [60, 40, 52, 44]"
proof -
  have "list_rep (heap_of 8 [60, 40, 52, 44]) 8 [60, 40, 52, 44]"
    by (rule heap_of_rep) (simp_all add: nodes_def head_of_def tail_of_def)
  moreover have "strict_weak (\<lambda>a b. a div 10 < b div (10::nat))"
    by (auto simp: strict_weak_def)
  ultimately show ?thesis using list_sort_correct by blast
qed

text \<open>C3: \<^verbatim>\<open>list_insert_ordered\<close> puts a new element after every element that is not greater and
  before the first greater one; a list that was in order stays in order.\<close>

theorem list_insert_ordered_correct:
  assumes "list_rep h l xs" "e \<noteq> NULL" "e \<notin> set (nodes l xs)"
  shows "\<exists>h' us vs. list_insert_ordered h l e lt = Some h' \<and> xs = us @ vs \<and> list_rep h' l (us @ e # vs) \<and>
    (\<forall>u \<in> set us. \<not> lt e u) \<and> (vs \<noteq> [] \<longrightarrow> lt e (hd vs)) \<and>
    (strict_weak lt \<and> sorted_wrt (\<lambda>x y. \<not> lt y x) xs \<longrightarrow> sorted_wrt (\<lambda>x y. \<not> lt y x) (us @ e # vs))"
proof -
  let ?us = "takeWhile (\<lambda>x. \<not> lt e x) xs" and ?vs = "dropWhile (\<lambda>x. \<not> lt e x) xs"
  obtain h' where "list_insert_ordered h l e lt = Some h'" "list_rep h' l (?us @ e # ?vs)"
    using list_insert_ordered_rep [OF assms] by metis
  moreover have "\<forall>u \<in> set ?us. \<not> lt e u" by (auto dest: set_takeWhileD)
  moreover have "?vs \<noteq> [] \<longrightarrow> lt e (hd ?vs)" using hd_dropWhile by metis
  moreover have "xs = ?us @ ?vs" by simp
  moreover have "strict_weak lt \<and> sorted_wrt (\<lambda>x y. \<not> lt y x) xs \<longrightarrow>
      sorted_wrt (\<lambda>x y. \<not> lt y x) (?us @ e # ?vs)"
    by (intro impI weak_order.sorted_insert strict_weak_locales(1)) simp_all
  ultimately show ?thesis by blast
qed

theorem list_insert_ordered_correct_witness:
  "\<exists>h' us vs. list_insert_ordered (heap_of 8 [40, 60]) 8 52 (<) = Some h' \<and> [40, 60] = us @ vs \<and>
     list_rep h' 8 (us @ 52 # vs)"
proof -
  have "list_rep (heap_of 8 [40, 60]) 8 [40, 60]"
    by (rule heap_of_rep) (simp_all add: nodes_def head_of_def tail_of_def)
  then show ?thesis
    using list_insert_ordered_correct [of "heap_of 8 [40, 60]" 8 "[40, 60]" 52 "(<)"]
    by (fastforce simp: nodes_def head_of_def tail_of_def)
qed

text \<open>\<^verbatim>\<open>list_unique\<close> leaves no two adjacent equivalent elements, moves every element it
  takes out to the end of the duplicates list, and loses none.\<close>

theorem list_unique_correct:
  assumes "list_rep h l xs" "list_rep h m ds" "set (nodes l xs) \<inter> set (nodes m ds) = {}"
  shows "\<exists>h' ys dups. list_unique h l m lt = Some h' \<and> list_rep h' l ys \<and> list_rep h' m (ds @ dups) \<and>
    mset ys + mset dups = mset xs \<and> successively (\<lambda>x y. \<not> equiv_by lt x y) ys"
proof (cases xs)
  case Nil
  then show ?thesis using assms by (force simp: list_unique_def list_repD(1))
next
  case (Cons x zs)
  then obtain h' where "list_unique_loop h l m x lt = Some h'" "list_rep h' l (fst (uniq lt x zs))"
    "list_rep h' m (ds @ snd (uniq lt x zs))"
    using list_unique_loop_dups [of h l "[]" x zs m ds lt] assms by auto
  moreover from this have "list_unique h l m lt = Some h'"
    using Cons assms by (simp add: list_unique_def list_repD(1))
  ultimately show ?thesis
    using Cons uniq_mset [of lt x zs] uniq_distinct_adj [of lt x zs] by metis
qed

theorem list_unique_correct_witness:
  "\<exists>h' ys dups. list_unique (list_pair 8 [40, 44, 60] 200) 8 200 (\<lambda>a b. a div 10 < b div 10) = Some h' \<and>
     list_rep h' 8 ys \<and> list_rep h' 200 ([] @ dups) \<and> mset ys + mset dups = mset [40, 44, 60]"
proof -
  have "list_rep (list_pair 8 [40, 44, 60] 200) 8 [40, 44, 60]"
    "list_rep (list_pair 8 [40, 44, 60] 200) 200 []"
    by (rule list_pair_rep; simp add: nodes_def head_of_def tail_of_def)+
  then show ?thesis
    using list_unique_correct [of "list_pair 8 [40, 44, 60] 200" 8 "[40, 44, 60]" 200 "[]"
        "\<lambda>a b. a div 10 < b div 10"]
    by (fastforce simp: nodes_def head_of_def tail_of_def)
qed

text \<open>\<^verbatim>\<open>list_max\<close> and \<^verbatim>\<open>list_min\<close> return the earliest maximum and the earliest minimum of a
  non-empty list.\<close>

theorem list_extrema_correct:
  assumes "list_rep h l xs" "xs \<noteq> []" "strict_weak lt"
  shows "(\<exists>us m vs. xs = us @ m # vs \<and> list_max h l lt = Some m \<and>
      (\<forall>u \<in> set us. lt u m) \<and> (\<forall>v \<in> set vs. \<not> lt m v)) \<and>
    (\<exists>us m vs. xs = us @ m # vs \<and> list_min h l lt = Some m \<and>
      (\<forall>u \<in> set us. lt m u) \<and> (\<forall>v \<in> set vs. \<not> lt v m))"
proof -
  obtain x zs where xs: "xs = x # zs" using assms(2) by (cases xs) auto
  have mx: "list_max h l lt = Some (foldl (\<lambda>m e. if lt m e then e else m) x zs)"
    and mn: "list_min h l lt = Some (foldl (\<lambda>m e. if lt e m then e else m) x zs)"
    using list_max_rep list_min_rep assms(1) xs by auto
  show ?thesis unfolding mx mn xs
    using weak_order.foldl_max [OF strict_weak_locales(1) [OF assms(3)], of x zs]
      weak_order.foldl_max [OF strict_weak_locales(1) [OF strict_weak_converse [OF assms(3)]], of x zs]
    by blast
qed

theorem list_extrema_correct_witness:
  "\<exists>us m vs. [40, 60, 52] = us @ m # vs \<and> list_max (heap_of 8 [40, 60, 52]) 8 (<) = Some m \<and>
      (\<forall>u \<in> set us. u < m) \<and> (\<forall>v \<in> set vs. \<not> m < v)"
proof -
  have "list_rep (heap_of 8 [40, 60, 52]) 8 [40, 60, 52]"
    by (rule heap_of_rep) (simp_all add: nodes_def head_of_def tail_of_def)
  moreover have "strict_weak ((<) :: addr \<Rightarrow> addr \<Rightarrow> bool)" by (auto simp: strict_weak_def)
  ultimately show ?thesis using list_extrema_correct by blast
qed

end
