(* ===== verification/Arith.thy ===== *)
theory Arith
  imports Prelude "HOL-Library.Signed_Division"
begin

text \<open>
  The 64-bit division routines of \<^verbatim>\<open>lib/arithmetic.c\<close>, which the compiler calls for \<^verbatim>\<open>/\<close> and
  \<^verbatim>\<open>%\<close> on \<^verbatim>\<open>long long\<close>. Unsigned values are naturals, with the wrap-around of each C type
  written out; signed 64-bit values are integers. \<open>None\<close> is the divide error trap.
\<close>

section \<open>Operations\<close>

definition divl :: "nat \<Rightarrow> nat \<Rightarrow> nat option" where
  "divl n d = (if d = 0 \<or> n div d \<ge> 2 ^ 32 then None else Some (n div d))"

text \<open>One test of \<open>nlz\<close>: shift the 32-bit \<open>x\<close> left by \<open>k\<close> when its top \<open>k\<close> bits are clear.\<close>

definition nlz_step :: "nat \<Rightarrow> nat \<Rightarrow> nat \<times> nat \<Rightarrow> nat \<times> nat" where
  "nlz_step bound k = (\<lambda>(n, x). if x \<le> bound then (n + k, x * 2 ^ k mod 2 ^ 32) else (n, x))"

definition nlz :: "nat \<Rightarrow> nat" where
  "nlz x =
     (let s = nlz_step 0x0000FFFF 16 (0, x);
          s = nlz_step 0x00FFFFFF 8 s;
          s = nlz_step 0x0FFFFFFF 4 s;
          s = nlz_step 0x3FFFFFFF 2 s;
          (n, x) = s
      in if x \<le> 0x7FFFFFFF then n + 1 else n)"

definition udiv64 :: "nat \<Rightarrow> nat \<Rightarrow> nat option" where
  "udiv64 n d =
     (if d div 2 ^ 32 = 0 then
        (let b = 2 ^ 32;
             n1 = n div 2 ^ 32 mod 2 ^ 32;
             n0 = n mod 2 ^ 32;
             d0 = d mod 2 ^ 32
         in do {
           q \<leftarrow> (if d0 = 0 then None else divl ((b * (n1 mod d0) + n0) mod 2 ^ 64) d0);
           Some ((q + b * (n1 div d0)) mod 2 ^ 64)
         })
      else if n < d then Some 0
      else
        (let d1 = d div 2 ^ 32 mod 2 ^ 32; s = nlz d1
         in do {
           q0 \<leftarrow> divl (n div 2) (d * 2 ^ s mod 2 ^ 64 div 2 ^ 32 mod 2 ^ 32);
           let q = q0 div 2 ^ (31 - s);
           let q' = (q + 2 ^ 64 - 1) mod 2 ^ 64;
           Some (if (n + 2 ^ 64 - q' * d mod 2 ^ 64) mod 2 ^ 64 < d then q' else q)
         }))"

definition umod64 :: "nat \<Rightarrow> nat \<Rightarrow> nat option" where
  "umod64 n d = do {
     q \<leftarrow> udiv64 n d;
     Some ((n + 2 ^ 64 - d * q mod 2 ^ 64) mod 2 ^ 64 mod 2 ^ 32)
   }"

text \<open>Conversions to \<^verbatim>\<open>uint64_t\<close>, \<^verbatim>\<open>int64_t\<close> and \<^verbatim>\<open>int32_t\<close>.\<close>

definition to_uint64 :: "int \<Rightarrow> nat" where
  "to_uint64 x = nat (x mod 2 ^ 64)"

definition to_int64 :: "int \<Rightarrow> int" where
  "to_int64 x = (x + 2 ^ 63) mod 2 ^ 64 - 2 ^ 63"

definition to_int32 :: "int \<Rightarrow> int" where
  "to_int32 x = (x + 2 ^ 31) mod 2 ^ 32 - 2 ^ 31"

definition sdiv64 :: "int \<Rightarrow> int \<Rightarrow> int option" where
  "sdiv64 n d =
     (let n_abs = (if n \<ge> 0 then to_uint64 n else to_uint64 (- n));
          d_abs = (if d \<ge> 0 then to_uint64 d else to_uint64 (- d))
      in do {
        q_abs \<leftarrow> udiv64 n_abs d_abs;
        Some (if (n < 0) = (d < 0) then to_int64 (int q_abs) else to_int64 (- to_int64 (int q_abs)))
      })"

definition smod64 :: "int \<Rightarrow> int \<Rightarrow> int option" where
  "smod64 n d = do { q \<leftarrow> sdiv64 n d; Some (to_int32 (to_int64 (n - d * q))) }"

definition udivdi3 :: "nat \<Rightarrow> nat \<Rightarrow> nat option" where
  "udivdi3 n d = udiv64 n d"

definition umoddi3 :: "nat \<Rightarrow> nat \<Rightarrow> nat option" where
  "umoddi3 n d = umod64 n d"

definition divdi3 :: "int \<Rightarrow> int \<Rightarrow> int option" where
  "divdi3 n d = sdiv64 n d"

definition moddi3 :: "int \<Rightarrow> int \<Rightarrow> int option" where
  "moddi3 n d = smod64 n d"

section \<open>Normalisation\<close>

lemma nlz_step_inv:
  assumes "bound + 1 = (2 :: nat) ^ (32 - k)" "2 * k \<le> 32" "x * 2 ^ n < 2 ^ 32" "2 ^ (32 - 2 * k) \<le> x * 2 ^ n"
  obtains n' where "nlz_step bound k (n, x * 2 ^ n) = (n', x * 2 ^ n')" "x * 2 ^ n' < 2 ^ 32"
    "2 ^ (32 - k) \<le> x * 2 ^ n'" "n' \<le> n + k"
proof (cases "x * 2 ^ n \<le> bound")
  case True
  have "x * 2 ^ n * 2 ^ k < 2 ^ (32 - k) * 2 ^ k" using True assms(1) by simp
  also have "\<dots> = (2 :: nat) ^ 32" using assms(2) by (simp flip: power_add)
  finally have up: "x * 2 ^ (n + k) < 2 ^ 32" by (simp add: power_add mult.assoc)
  have "(2 :: nat) ^ (32 - k) = 2 ^ (32 - 2 * k) * 2 ^ k" using assms(2) by (simp flip: power_add)
  also have "\<dots> \<le> x * 2 ^ n * 2 ^ k" using assms(4) by simp
  finally have "2 ^ (32 - k) \<le> x * 2 ^ (n + k)" by (simp add: power_add mult.assoc)
  then show ?thesis
    using that [of "n + k"] True up by (simp add: nlz_step_def power_add mult.assoc)
next
  case False
  then show ?thesis using that [of n] assms(1,3) by (simp add: nlz_step_def)
qed

lemma nlz_normalises:
  assumes "0 < x" "x < 2 ^ 32"
  shows "2 ^ 31 \<le> x * 2 ^ nlz x \<and> x * 2 ^ nlz x < 2 ^ 32 \<and> nlz x \<le> 31"
proof -
  obtain n1 where 1: "nlz_step 0x0000FFFF 16 (0, x * 2 ^ 0) = (n1, x * 2 ^ n1)" "x * 2 ^ n1 < 2 ^ 32"
      "2 ^ (32 - 16) \<le> x * 2 ^ n1" "n1 \<le> 0 + 16"
    by (rule nlz_step_inv [of "0x0000FFFF" 16 x 0]) (use assms in simp_all)
  obtain n2 where 2: "nlz_step 0x00FFFFFF 8 (n1, x * 2 ^ n1) = (n2, x * 2 ^ n2)" "x * 2 ^ n2 < 2 ^ 32"
      "2 ^ (32 - 8) \<le> x * 2 ^ n2" "n2 \<le> n1 + 8"
    by (rule nlz_step_inv [of "0x00FFFFFF" 8 x n1]) (use 1 in simp_all)
  obtain n3 where 3: "nlz_step 0x0FFFFFFF 4 (n2, x * 2 ^ n2) = (n3, x * 2 ^ n3)" "x * 2 ^ n3 < 2 ^ 32"
      "2 ^ (32 - 4) \<le> x * 2 ^ n3" "n3 \<le> n2 + 4"
    by (rule nlz_step_inv [of "0x0FFFFFFF" 4 x n2]) (use 2 in simp_all)
  obtain n4 where 4: "nlz_step 0x3FFFFFFF 2 (n3, x * 2 ^ n3) = (n4, x * 2 ^ n4)" "x * 2 ^ n4 < 2 ^ 32"
      "2 ^ (32 - 2) \<le> x * 2 ^ n4" "n4 \<le> n3 + 2"
    by (rule nlz_step_inv [of "0x3FFFFFFF" 2 x n3]) (use 3 in simp_all)
  have "nlz x = (if x * 2 ^ n4 \<le> 0x7FFFFFFF then n4 + 1 else n4)"
    using 1(1) 2(1) 3(1) 4(1) by (simp add: nlz_def)
  then show ?thesis using 1(4) 2(4) 3(4) 4(2-4) by auto
qed

section \<open>Unsigned division\<close>

text \<open>Dividing by the leading 32 bits of the normalised divisor overestimates by at most one.\<close>

lemma quotient_estimate:
  assumes t: "1 \<le> t" "t \<le> 32" and n: "n < 2 ^ 64" and d: "d = v * 2 ^ t + r" "r < 2 ^ t" "2 ^ 31 \<le> v"
  shows "n div d \<le> n div (v * 2 ^ t)" "n div (v * 2 ^ t) \<le> n div d + (1 :: nat)"
proof -
  let ?e = "v * 2 ^ t" and ?k = "n div d"
  have "(2 :: nat) ^ (31 + t) = 2 ^ 31 * 2 ^ t" by (simp add: power_add)
  also have "\<dots> \<le> ?e" by (rule mult_le_mono1 [OF d(3)])
  finally have e: "2 ^ (31 + t) \<le> ?e" .
  have epos: "0 < ?e" using d(3) by (cases v) auto
  show "?k \<le> n div ?e" using d(1) epos by (simp add: div_le_mono2)
  have "?k * 2 ^ (31 + t) \<le> ?k * d" using e d(1) by (intro mult_le_mono) auto
  also have "\<dots> \<le> n" by simp
  also have "\<dots> < 2 ^ (33 - t) * 2 ^ (31 + t)" using n t by (simp flip: power_add)
  finally have k: "?k + 1 \<le> 2 ^ (33 - t)" by simp
  have "(?k + 1) * r \<le> 2 ^ (33 - t) * (2 ^ t - 1)" using k d(2) by (intro mult_le_mono) auto
  also have "\<dots> = (2 :: nat) ^ 33 - 2 ^ (33 - t)" using t by (simp add: diff_mult_distrib2 flip: power_add)
  also have "\<dots> \<le> 2 ^ (31 + t)"
  proof (cases "t = 1")
    case False
    then have "(2 :: nat) ^ 33 \<le> 2 ^ (31 + t)" using t by (intro power_increasing) auto
    then show ?thesis by linarith
  qed simp
  also note e
  finally have r: "(?k + 1) * r \<le> ?e" .
  have "n < (?k + 1) * d" using d(1) epos by (metis add_gr_0 dividend_less_times_div mult.commute mult_Suc_right Suc_eq_plus1)
  also have "\<dots> = (?k + 1) * ?e + (?k + 1) * r" unfolding d(1) by (simp add: distrib_left)
  also have "\<dots> \<le> (?k + 2) * ?e" using r by simp
  finally have "n < (?k + 2) * ?e" .
  then have "n div ?e < ?k + 2" using epos by (simp add: div_less_iff_less_mult)
  then show "n div ?e \<le> ?k + 1" by simp
qed

lemma udiv64_small:
  assumes "n < 2 ^ 64" "0 < d" "d < 2 ^ 32"
  shows "udiv64 n d = Some (n div d)"
proof -
  define n1 where "n1 = n div 2 ^ 32"
  define n0 where "n0 = n mod 2 ^ 32"
  have n: "n = 2 ^ 32 * n1 + n0" by (simp add: n1_def n0_def)
  have b: "n0 < 2 ^ 32" "n1 < 2 ^ 32" using assms(1) by (simp_all add: n0_def n1_def less_mult_imp_div_less)
  have split: "2 ^ 32 * n1 + n0 = d * (2 ^ 32 * (n1 div d)) + (2 ^ 32 * (n1 mod d) + n0)"
  proof -
    have "2 ^ 32 * n1 = 2 ^ 32 * (d * (n1 div d) + n1 mod d)" by simp
    then show ?thesis by (simp only: distrib_left mult.left_commute add.assoc)
  qed
  then have q: "n div d = 2 ^ 32 * (n1 div d) + (2 ^ 32 * (n1 mod d) + n0) div d"
    unfolding n split using assms(2) by simp
  have "n1 mod d + 1 \<le> d" using assms(2) by (simp add: Suc_leI)
  then have "2 ^ 32 * (n1 mod d + 1) \<le> 2 ^ 32 * d" by (rule mult_le_mono2)
  then have lt: "2 ^ 32 * (n1 mod d) + n0 < 2 ^ 32 * d" using b by simp
  then have fits: "(2 ^ 32 * (n1 mod d) + n0) div d < 2 ^ 32" using assms(2) by (simp add: div_less_iff_less_mult)
  have w: "2 ^ 32 * (n1 mod d) + n0 < 2 ^ 64" using lt assms(3) by simp
  have "n div d < 2 ^ 64" using assms(1) by (meson div_le_dividend le_less_trans)
  moreover have "(2 ^ 32 * (n1 mod d) + n0) div d + 2 ^ 32 * (n1 div d) = n div d"
    unfolding q by (rule add.commute)
  ultimately have s: "((2 ^ 32 * (n1 mod d) + n0) div d + 2 ^ 32 * (n1 div d)) mod 2 ^ 64 = n div d"
    by (simp only: mod_less)
  have l: "divl ((2 ^ 32 * (n1 mod d) + n0) mod 2 ^ 64) d = Some ((2 ^ 32 * (n1 mod d) + n0) div d)"
    using fits w assms(2) by (simp only: divl_def mod_less not_le simp_thms if_False) simp
  have eqs: "n div 2 ^ 32 mod 2 ^ 32 = n1" "n mod 2 ^ 32 = n0" "d mod 2 ^ 32 = d" "d div 2 ^ 32 = 0"
    using b assms(3) by (simp_all add: n1_def n0_def)
  show ?thesis
    unfolding udiv64_def Let_def eqs using assms(2) s by (simp only: l bind.bind_lunit if_True if_False) simp
qed

lemma udiv64_correction:
  assumes n: "n < 2 ^ 64" "d \<le> n" "0 < d" "q < 2 ^ 64" and q: "n div d \<le> q" "q \<le> n div d + (1 :: nat)"
  shows "(let q' = (q + 2 ^ 64 - 1) mod 2 ^ 64
          in if (n + 2 ^ 64 - q' * d mod 2 ^ 64) mod 2 ^ 64 < d then q' else q) = n div d"
proof -
  have k: "1 \<le> n div d" using n by (simp add: Suc_leI div_greater_zero_iff)
  have kn: "n div d \<le> n" by simp
  have "(q + 2 ^ 64 - 1) mod 2 ^ 64 = q - 1" using q k n(4) by (intro mod_sub_le) linarith+
  moreover have dn: "d * (n div d) + n mod d = n" by simp
  have "(q - 1) * d \<le> n"
  proof -
    have "(q - 1) * d \<le> n div d * d" using q by (intro mult_le_mono1) linarith
    then show ?thesis by (meson div_times_less_eq_dividend le_trans)
  qed
  then have "(n + 2 ^ 64 - (q - 1) * d mod 2 ^ 64) mod 2 ^ 64 = n - (q - 1) * d"
    using n(1) by (simp add: mod_sub_le)
  moreover have "n - (q - 1) * d < d \<longleftrightarrow> q = n div d + 1"
  proof (cases "q = n div d + 1")
    case True
    then show ?thesis using n(3) by (simp add: minus_div_mult_eq_mod)
  next
    case False
    then have e: "q = n div d" using q by simp
    have "(n div d - 1) * d + d = n div d * d" using k by (cases "n div d") simp_all
    moreover have "n div d * d \<le> n" by simp
    ultimately have "\<not> n - (q - 1) * d < d" unfolding e by linarith
    then show ?thesis using False by simp
  qed
  ultimately show ?thesis using q by (auto simp: Let_def)
qed

lemma udiv64_large:
  assumes "n < 2 ^ 64" "2 ^ 32 \<le> d" "d < 2 ^ 64" "d \<le> n"
  shows "udiv64 n d = Some (n div d)"
proof -
  define d1 where "d1 = d div 2 ^ 32"
  define s where "s = nlz d1"
  define v where "v = d * 2 ^ s div 2 ^ 32"
  have d1: "0 < d1" "d1 < 2 ^ 32" using assms(2,3) by (simp_all add: d1_def div_greater_zero_iff less_mult_imp_div_less)
  have s: "2 ^ 31 \<le> d1 * 2 ^ s" "d1 * 2 ^ s < 2 ^ 32" "s \<le> 31" using nlz_normalises [OF d1] by (simp_all add: s_def)
  have dsplit: "d = d1 * 2 ^ 32 + d mod 2 ^ 32" by (simp add: d1_def)
  have pow: "(2 :: nat) ^ 32 = 2 ^ (32 - s) * 2 ^ s" using s(3) by (simp flip: power_add)
  have v_eq: "v = d div 2 ^ (32 - s)" unfolding v_def pow by simp
  have "d * 2 ^ s < 2 ^ 64"
  proof -
    have "(d1 + 1) * 2 ^ s \<le> 2 ^ 32"
    proof -
      have "d1 < 2 ^ (32 - s)" using s(2) unfolding pow by simp
      then show ?thesis unfolding pow by (intro mult_le_mono1) simp
    qed
    then have "(d1 + 1) * 2 ^ s * 2 ^ 32 \<le> 2 ^ 32 * 2 ^ 32" by (rule mult_le_mono1)
    moreover have "d < (d1 + 1) * 2 ^ 32" using dsplit mod_less_divisor [of "2 ^ 32" d] by simp
    then have "d * 2 ^ s < (d1 + 1) * 2 ^ 32 * 2 ^ s" by simp
    moreover have "(d1 + 1) * 2 ^ 32 * 2 ^ s = (d1 + 1) * 2 ^ s * 2 ^ 32" by algebra
    moreover have "(2 :: nat) ^ 32 * 2 ^ 32 = 2 ^ 64" by simp
    ultimately show ?thesis by linarith
  qed
  moreover from this have "v < 2 ^ 32" by (simp add: v_def less_mult_imp_div_less)
  ultimately have veq: "d * 2 ^ s mod 2 ^ 64 div 2 ^ 32 mod 2 ^ 32 = v" by (simp add: v_def)
  have v31: "2 ^ 31 \<le> v"
  proof -
    have "d1 * 2 ^ s * 2 ^ 32 \<le> d * 2 ^ s" using dsplit by (simp add: mult.commute mult.left_commute)
    then have "d1 * 2 ^ s \<le> v" unfolding v_def by (simp add: less_eq_div_iff_mult_less_eq)
    with s(1) show ?thesis by simp
  qed
  have q0: "n div 2 div v < 2 ^ 32"
  proof -
    have "n div 2 < 2 ^ 31 * 2 ^ 32" using assms(1) by simp
    also have "\<dots> \<le> v * 2 ^ 32" using v31 by (rule mult_le_mono1)
    finally show ?thesis using v31 by (simp add: div_less_iff_less_mult mult.commute)
  qed
  define q where "q = n div 2 div v div 2 ^ (31 - s)"
  have "q = n div (v * 2 ^ (32 - s))"
  proof -
    have "q = n div (2 * v * 2 ^ (31 - s))" by (simp add: q_def div_mult2_eq)
    moreover have "32 - s = Suc (31 - s)" using s(3) by simp
    then have "v * 2 ^ (32 - s) = 2 * v * 2 ^ (31 - s)" by simp
    ultimately show ?thesis by (simp only:)
  qed
  moreover have "d = v * 2 ^ (32 - s) + d mod 2 ^ (32 - s)" unfolding v_eq by (rule div_mult_mod_eq [symmetric])
  ultimately have q: "n div d \<le> q" "q \<le> n div d + 1"
    using quotient_estimate [of "32 - s" n d v "d mod 2 ^ (32 - s)"] assms(1) s(3) v31 by simp_all
  have "q < 2 ^ 64" using q0 le_less_trans [OF div_le_dividend q0, of "2 ^ (31 - s)"] by (simp add: q_def)
  then have "(let q' = (q + 2 ^ 64 - 1) mod 2 ^ 64
          in if (n + 2 ^ 64 - q' * d mod 2 ^ 64) mod 2 ^ 64 < d then q' else q) = n div d"
    using assms q by (intro udiv64_correction) auto
  moreover have "d div 2 ^ 32 mod 2 ^ 32 = d1" "d1 \<noteq> 0" "\<not> n < d" "d div 2 ^ 32 = d1"
    using d1 assms(4) by (simp_all add: d1_def)
  moreover have "divl (n div 2) v = Some (n div 2 div v)" using q0 v31 by (simp add: divl_def)
  ultimately show ?thesis
    unfolding udiv64_def Let_def by (simp only: veq s_def [symmetric] q_def [symmetric] if_False bind.bind_lunit)
qed

lemma udiv64_eq: "n < 2 ^ 64 \<Longrightarrow> d < 2 ^ 64 \<Longrightarrow> 0 < d \<Longrightarrow> udiv64 n d = Some (n div d)"
proof (cases "d < 2 ^ 32")
  case False
  assume "n < 2 ^ 64" "d < 2 ^ 64" "0 < d"
  then show ?thesis
  proof (cases "n < d")
    case True
    then show ?thesis using False by (simp add: udiv64_def)
  qed (use False udiv64_large in simp)
qed (simp add: udiv64_small)

lemma udiv64_zero: "udiv64 n 0 = None"
  by (simp add: udiv64_def)

section \<open>Signed division\<close>

lemma to_int64_id: "- (2 ^ 63) \<le> x \<Longrightarrow> x < 2 ^ 63 \<Longrightarrow> to_int64 x = x"
  by (simp add: to_int64_def)

lemma to_uint64_abs: "- (2 ^ 63) \<le> x \<Longrightarrow> x < 2 ^ 63 \<Longrightarrow>
    (if x \<ge> 0 then to_uint64 x else to_uint64 (- x)) = nat \<bar>x\<bar> \<and> nat \<bar>x\<bar> \<le> 2 ^ 63"
  by (auto simp: to_uint64_def nat_le_iff)

lemma div_max: "(a :: nat) \<le> M \<Longrightarrow> 0 < b \<Longrightarrow> 0 < M \<Longrightarrow> a div b = M \<Longrightarrow> a = M \<and> b = 1"
  by (metis div_by_1 div_le_dividend div_less_dividend le_antisym le_less_trans less_irrefl
      less_one nat_neq_iff)

lemma abs_div_bound:
  assumes "\<bar>n\<bar> \<le> (2 :: int) ^ 63" "d \<noteq> 0"
  shows "0 \<le> \<bar>n\<bar> div \<bar>d\<bar>" "\<bar>n\<bar> div \<bar>d\<bar> \<le> 2 ^ 63"
    "\<bar>n\<bar> div \<bar>d\<bar> = 2 ^ 63 \<Longrightarrow> \<bar>n\<bar> = 2 ^ 63 \<and> \<bar>d\<bar> = 1"
proof -
  define a b where "a = nat \<bar>n\<bar>" and "b = nat \<bar>d\<bar>"
  have ab: "\<bar>n\<bar> = int a" "\<bar>d\<bar> = int b" "a \<le> 2 ^ 63" "0 < b" using assms by (simp_all add: a_def b_def nat_le_iff)
  have q: "\<bar>n\<bar> div \<bar>d\<bar> = int (a div b)" by (simp add: ab zdiv_int)
  show "0 \<le> \<bar>n\<bar> div \<bar>d\<bar>" by (simp add: q)
  have "a div b \<le> 2 ^ 63" using ab(3) by (meson div_le_dividend le_trans)
  then show "\<bar>n\<bar> div \<bar>d\<bar> \<le> 2 ^ 63" unfolding q by simp
  assume "\<bar>n\<bar> div \<bar>d\<bar> = 2 ^ 63"
  then have "a div b = 2 ^ 63" unfolding q by (metis of_nat_eq_iff of_nat_numeral of_nat_power)
  then show "\<bar>n\<bar> = 2 ^ 63 \<and> \<bar>d\<bar> = 1" using div_max [of a "2 ^ 63" b] ab by simp
qed

lemma sdiv64_eq:
  assumes "- (2 ^ 63) \<le> n" "n < 2 ^ 63" "- (2 ^ 63) \<le> d" "d < 2 ^ 63" "d \<noteq> 0" "\<not> (n = - (2 ^ 63) \<and> d = - 1)"
  shows "sdiv64 n d = Some (n sdiv d)"
proof -
  have q: "udiv64 (nat \<bar>n\<bar>) (nat \<bar>d\<bar>) = Some (nat \<bar>n\<bar> div nat \<bar>d\<bar>)"
    using to_uint64_abs [of n] to_uint64_abs [of d] assms by (intro udiv64_eq) auto
  have i: "int (nat \<bar>n\<bar> div nat \<bar>d\<bar>) = \<bar>n\<bar> div \<bar>d\<bar>" by (simp add: zdiv_int)
  have b: "\<bar>n\<bar> \<le> 2 ^ 63" using assms by linarith
  note ab = abs_div_bound [OF b assms(5)]
  have s: "sdiv64 n d = Some (if (n < 0) = (d < 0) then to_int64 (\<bar>n\<bar> div \<bar>d\<bar>)
      else to_int64 (- to_int64 (\<bar>n\<bar> div \<bar>d\<bar>)))"
    using to_uint64_abs [of n] to_uint64_abs [of d] assms(1-4) q i by (simp add: sdiv64_def)
  show ?thesis
  proof (cases "\<bar>n\<bar> div \<bar>d\<bar> = 2 ^ 63")
    case True
    then have "n = - (2 ^ 63)" "d = 1" using ab(3) assms by auto
    then show ?thesis unfolding s by (simp add: to_int64_def signed_divide_int_def)
  next
    case False
    then have "to_int64 (\<bar>n\<bar> div \<bar>d\<bar>) = \<bar>n\<bar> div \<bar>d\<bar>" "to_int64 (- (\<bar>n\<bar> div \<bar>d\<bar>)) = - (\<bar>n\<bar> div \<bar>d\<bar>)"
      using ab(1,2) by (auto intro!: to_int64_id)
    then show ?thesis unfolding s using assms(5)
      by (auto simp: signed_divide_int_def sgn_if)
  qed
qed

section \<open>Correctness of the division routines\<close>

text \<open>C4: \<^verbatim>\<open>__udivdi3\<close> computes the quotient of every pair of 64-bit operands, and the hardware
  division inside it never traps unless the divisor is zero.\<close>

theorem udivdi3_correct:
  assumes "n < 2 ^ 64" "d < 2 ^ 64"
  shows "udivdi3 n d = (if d = 0 then None else Some (n div d))"
  using assms by (simp add: udivdi3_def udiv64_eq udiv64_zero)

theorem udivdi3_correct_witness:
  "udivdi3 18446744073709551615 4294967297 = Some 4294967295"
  using udivdi3_correct [of 18446744073709551615 4294967297] by simp

text \<open>C5: \<^verbatim>\<open>__divdi3\<close> computes the quotient truncated toward zero for all 64-bit operands except
  the one pair whose quotient is not representable.\<close>

theorem divdi3_correct:
  assumes "- (2 ^ 63) \<le> n" "n < 2 ^ 63" "- (2 ^ 63) \<le> d" "d < 2 ^ 63" "d \<noteq> 0" "\<not> (n = - (2 ^ 63) \<and> d = - 1)"
  shows "divdi3 n d = Some (n sdiv d)"
  using sdiv64_eq [OF assms] by (simp add: divdi3_def)

theorem divdi3_correct_witness: "divdi3 (- 7) 2 = Some (- 3)"
  using divdi3_correct [of "- 7" 2] by (simp add: signed_divide_int_def)

text \<open>C6: \<^verbatim>\<open>__umoddi3\<close> returns the remainder only when the remainder fits in 32 bits: the helper
  \<^verbatim>\<open>umod64\<close> has a 32-bit return type and drops the upper half.\<close>

theorem umoddi3_truncates:
  assumes "n < 2 ^ 64" "0 < d" "d < 2 ^ 64"
  shows "umoddi3 n d = Some (n mod d mod 2 ^ 32) \<and>
    (umoddi3 n d = Some (n mod d) \<longleftrightarrow> n mod d < 2 ^ 32)"
proof -
  have le: "d * (n div d) \<le> n" by simp
  then have "d * (n div d) mod 2 ^ 64 = d * (n div d)" using assms(1) by (intro mod_less) linarith
  then have "(n + 2 ^ 64 - d * (n div d) mod 2 ^ 64) mod 2 ^ 64 = n mod d"
    using mod_sub_le [OF le assms(1)] by (simp add: minus_mult_div_eq_mod)
  then have "umoddi3 n d = Some (n mod d mod 2 ^ 32)"
    using udiv64_eq [OF assms(1,3,2)] by (simp add: umoddi3_def umod64_def)
  then show ?thesis by (metis mod_less mod_less_divisor option.inject zero_less_numeral zero_less_power)
qed

theorem umoddi3_truncates_witness:
  "umoddi3 (2 ^ 40) (2 ^ 41) = Some 0 \<and> umoddi3 (2 ^ 40) (2 ^ 41) \<noteq> Some (2 ^ 40 mod 2 ^ 41)"
  using umoddi3_truncates [of "2 ^ 40" "2 ^ 41"] by simp

end
