(* ===== verification/Bitmap.thy ===== *)
theory Bitmap
  imports Prelude
begin

text \<open>
  The bitmaps of \<^verbatim>\<open>lib/kernel/bitmap.c\<close>: an array of 32-bit elements with the masks and the
  index arithmetic of the source, \<^verbatim>\<open>size_t\<close> sums reduced modulo \<open>2 ^ 32\<close>. \<open>bm b\<close> is the list
  of bits a bitmap stands for; every operation is shown to act on that list. The locale
  \<open>bit_array\<close> is what the page allocator and the free map rely on.
\<close>

section \<open>Data and operations\<close>

record bitmap =
  bit_cnt :: nat
  bits :: "32 word list"

abbreviation (input) ELEM_BITS :: nat where
  "ELEM_BITS \<equiv> 32"

abbreviation (input) BITMAP_ERROR :: nat where
  "BITMAP_ERROR \<equiv> 2 ^ 32 - 1"

definition elem_idx :: "nat \<Rightarrow> nat" where
  "elem_idx bit_idx = bit_idx div ELEM_BITS"

definition bit_mask :: "nat \<Rightarrow> 32 word" where
  "bit_mask bit_idx = push_bit (bit_idx mod ELEM_BITS) 1"

definition elem_cnt :: "nat \<Rightarrow> nat" where
  "elem_cnt cnt = (cnt + ELEM_BITS - 1) mod 2 ^ 32 div ELEM_BITS"

definition byte_cnt :: "nat \<Rightarrow> nat" where
  "byte_cnt cnt = 4 * elem_cnt cnt"

definition last_mask :: "bitmap \<Rightarrow> 32 word" where
  "last_mask b =
     (let last_bits = bit_cnt b mod ELEM_BITS
      in if last_bits \<noteq> 0 then push_bit last_bits 1 - 1 else - 1)"

definition bitmap_buf_size :: "nat \<Rightarrow> nat" where
  "bitmap_buf_size cnt = 8 + byte_cnt cnt"

definition bitmap_size :: "bitmap \<Rightarrow> nat" where
  "bitmap_size b = bit_cnt b"

text \<open>The read-modify-write instructions on one element; outside the array they would touch other
  memory.\<close>

definition update_elem :: "bitmap \<Rightarrow> nat \<Rightarrow> (32 word \<Rightarrow> 32 word) \<Rightarrow> bitmap option" where
  "update_elem b idx f =
     (if idx < length (bits b) then Some (b\<lparr>bits := (bits b)[idx := f (bits b ! idx)]\<rparr>) else None)"

definition bitmap_mark :: "bitmap \<Rightarrow> nat \<Rightarrow> bitmap option" where
  "bitmap_mark b bit_idx = update_elem b (elem_idx bit_idx) (\<lambda>e. e OR bit_mask bit_idx)"

definition bitmap_reset :: "bitmap \<Rightarrow> nat \<Rightarrow> bitmap option" where
  "bitmap_reset b bit_idx = update_elem b (elem_idx bit_idx) (\<lambda>e. e AND NOT (bit_mask bit_idx))"

definition bitmap_flip :: "bitmap \<Rightarrow> nat \<Rightarrow> bitmap option" where
  "bitmap_flip b bit_idx = update_elem b (elem_idx bit_idx) (\<lambda>e. e XOR bit_mask bit_idx)"

definition bitmap_set :: "bitmap \<Rightarrow> nat \<Rightarrow> bool \<Rightarrow> bitmap option" where
  "bitmap_set b idx value = do {
     ASSERT (idx < bit_cnt b);
     if value then bitmap_mark b idx else bitmap_reset b idx
   }"

definition bitmap_test :: "bitmap \<Rightarrow> nat \<Rightarrow> bool option" where
  "bitmap_test b idx = do {
     ASSERT (idx < bit_cnt b);
     if elem_idx idx < length (bits b) then Some (bits b ! elem_idx idx AND bit_mask idx \<noteq> 0) else None
   }"

definition bitmap_set_multiple :: "bitmap \<Rightarrow> nat \<Rightarrow> nat \<Rightarrow> bool \<Rightarrow> bitmap option" where
  "bitmap_set_multiple b start cnt value = do {
     ASSERT (start \<le> bit_cnt b);
     ASSERT ((start + cnt) mod 2 ^ 32 \<le> bit_cnt b);
     for_each [0..<cnt] (\<lambda>i b. bitmap_set b ((start + i) mod 2 ^ 32) value) b
   }"

definition bitmap_set_all :: "bitmap \<Rightarrow> bool \<Rightarrow> bitmap option" where
  "bitmap_set_all b value = bitmap_set_multiple b 0 (bitmap_size b) value"

text \<open>\<open>mb\<close> is whether the first \<^verbatim>\<open>malloc\<close> succeeds, \<open>mem\<close> the memory the second one returns, with
  whatever it held before.\<close>

definition bitmap_create :: "nat \<Rightarrow> bool \<Rightarrow> 32 word list option \<Rightarrow> bitmap option option" where
  "bitmap_create cnt mb mem =
     (if \<not> mb then Some None
      else case mem of
        Some ws \<Rightarrow> map_option Some (bitmap_set_all \<lparr>bit_cnt = cnt, bits = ws\<rparr> False)
      | None \<Rightarrow>
          if cnt = 0 then map_option Some (bitmap_set_all \<lparr>bit_cnt = cnt, bits = []\<rparr> False)
          else Some None)"

definition bitmap_create_in_buf :: "nat \<Rightarrow> 32 word list \<Rightarrow> nat \<Rightarrow> bitmap option" where
  "bitmap_create_in_buf cnt ws block_size = do {
     ASSERT (block_size \<ge> bitmap_buf_size cnt);
     bitmap_set_all \<lparr>bit_cnt = cnt, bits = ws\<rparr> False
   }"

definition bitmap_count :: "bitmap \<Rightarrow> nat \<Rightarrow> nat \<Rightarrow> bool \<Rightarrow> nat option" where
  "bitmap_count b start cnt value = do {
     ASSERT (start \<le> bit_cnt b);
     ASSERT ((start + cnt) mod 2 ^ 32 \<le> bit_cnt b);
     for_each [0..<cnt] (\<lambda>i value_cnt. do {
       t \<leftarrow> bitmap_test b ((start + i) mod 2 ^ 32);
       Some (if t = value then value_cnt + 1 else value_cnt)
     }) 0
   }"

primrec bitmap_contains_loop :: "nat list \<Rightarrow> bitmap \<Rightarrow> nat \<Rightarrow> bool \<Rightarrow> bool option" where
  "bitmap_contains_loop [] b start value = Some False"
| "bitmap_contains_loop (i # is) b start value = do {
     t \<leftarrow> bitmap_test b ((start + i) mod 2 ^ 32);
     if t = value then Some True else bitmap_contains_loop is b start value
   }"

definition bitmap_contains :: "bitmap \<Rightarrow> nat \<Rightarrow> nat \<Rightarrow> bool \<Rightarrow> bool option" where
  "bitmap_contains b start cnt value = do {
     ASSERT (start \<le> bit_cnt b);
     ASSERT ((start + cnt) mod 2 ^ 32 \<le> bit_cnt b);
     bitmap_contains_loop [0..<cnt] b start value
   }"

definition bitmap_any :: "bitmap \<Rightarrow> nat \<Rightarrow> nat \<Rightarrow> bool option" where
  "bitmap_any b start cnt = bitmap_contains b start cnt True"

definition bitmap_none :: "bitmap \<Rightarrow> nat \<Rightarrow> nat \<Rightarrow> bool option" where
  "bitmap_none b start cnt = map_option Not (bitmap_contains b start cnt True)"

definition bitmap_all :: "bitmap \<Rightarrow> nat \<Rightarrow> nat \<Rightarrow> bool option" where
  "bitmap_all b start cnt = map_option Not (bitmap_contains b start cnt False)"

primrec bitmap_scan_loop :: "nat list \<Rightarrow> bitmap \<Rightarrow> nat \<Rightarrow> bool \<Rightarrow> nat option" where
  "bitmap_scan_loop [] b cnt value = Some BITMAP_ERROR"
| "bitmap_scan_loop (i # is) b cnt value = do {
     c \<leftarrow> bitmap_contains b i cnt (\<not> value);
     if \<not> c then Some i else bitmap_scan_loop is b cnt value
   }"

definition bitmap_scan :: "bitmap \<Rightarrow> nat \<Rightarrow> nat \<Rightarrow> bool \<Rightarrow> nat option" where
  "bitmap_scan b start cnt value = do {
     ASSERT (start \<le> bit_cnt b);
     if cnt \<le> bit_cnt b then bitmap_scan_loop [start..<bit_cnt b - cnt + 1] b cnt value
     else Some BITMAP_ERROR
   }"

definition bitmap_scan_and_flip :: "bitmap \<Rightarrow> nat \<Rightarrow> nat \<Rightarrow> bool \<Rightarrow> (nat \<times> bitmap) option" where
  "bitmap_scan_and_flip b start cnt value = do {
     idx \<leftarrow> bitmap_scan b start cnt value;
     b \<leftarrow> (if idx \<noteq> BITMAP_ERROR then bitmap_set_multiple b idx cnt (\<not> value) else Some b);
     Some (idx, b)
   }"

definition bitmap_file_size :: "bitmap \<Rightarrow> nat" where
  "bitmap_file_size b = byte_cnt (bit_cnt b)"

text \<open>\<open>rd size\<close> is \<^verbatim>\<open>file_read_at (file, b->bits, size, 0)\<close>: the count it returns and the array
  afterwards; \<open>wr ws size\<close> is \<^verbatim>\<open>file_write_at\<close>: the count and the file afterwards.\<close>

definition bitmap_read :: "bitmap \<Rightarrow> (nat \<Rightarrow> 32 word list \<Rightarrow> nat \<times> 32 word list) \<Rightarrow> (bool \<times> bitmap) option" where
  "bitmap_read b rd =
     (if bit_cnt b > 0 then
        (let size = byte_cnt (bit_cnt b); (n, ws) = rd size (bits b); b = b\<lparr>bits := ws\<rparr>
         in do {
           b \<leftarrow> update_elem b (elem_cnt (bit_cnt b) - 1) (\<lambda>e. e AND last_mask b);
           Some (n = size, b)
         })
      else Some (True, b))"

definition bitmap_write :: "bitmap \<Rightarrow> (32 word list \<Rightarrow> nat \<Rightarrow> nat \<times> 'f) \<Rightarrow> bool \<times> 'f" where
  "bitmap_write b wr =
     (let size = byte_cnt (bit_cnt b); (n, f) = wr (bits b) size in (n = size, f))"

section \<open>The bits a bitmap stands for\<close>

definition bm :: "bitmap \<Rightarrow> bool list" where
  "bm b = map (\<lambda>i. bit (bits b ! elem_idx i) (i mod ELEM_BITS)) [0..<bit_cnt b]"

definition bitmap_wf :: "bitmap \<Rightarrow> bool" where
  "bitmap_wf b \<longleftrightarrow> bit_cnt b + ELEM_BITS \<le> 2 ^ 32 \<and> length (bits b) = elem_cnt (bit_cnt b)"

text \<open>A run of \<open>cnt\<close> equal bits, and the first one at or after a position.\<close>

definition run_of :: "bool list \<Rightarrow> nat \<Rightarrow> nat \<Rightarrow> bool \<Rightarrow> bool" where
  "run_of bs i cnt v \<longleftrightarrow> i + cnt \<le> length bs \<and> (\<forall>j < cnt. bs ! (i + j) = v)"

definition first_run_of :: "bool list \<Rightarrow> nat \<Rightarrow> nat \<Rightarrow> bool \<Rightarrow> nat option" where
  "first_run_of bs start cnt v =
     (if cnt \<le> length bs then find (\<lambda>i. run_of bs i cnt v) [start..<length bs - cnt + 1] else None)"

lemma length_bm [simp]: "length (bm b) = bit_cnt b"
  by (simp add: bm_def)

lemma nth_bm: "i < bit_cnt b \<Longrightarrow> bm b ! i = bit (bits b ! elem_idx i) (i mod ELEM_BITS)"
  by (simp add: bm_def)

lemma elem_idx_bound: "bitmap_wf b \<Longrightarrow> i < bit_cnt b \<Longrightarrow> elem_idx i < length (bits b)"
  by (auto simp: bitmap_wf_def elem_cnt_def elem_idx_def)

lemma bit_bit_mask: "n < 32 \<Longrightarrow> bit (bit_mask i) n \<longleftrightarrow> n = i mod ELEM_BITS"
  by (auto simp: bit_mask_def bit_simps)

lemma and_bit_mask: "w AND bit_mask i \<noteq> 0 \<longleftrightarrow> bit w (i mod ELEM_BITS)"
proof -
  have "w AND bit_mask i = 0 \<longleftrightarrow> (\<forall>n < 32. \<not> (bit w n \<and> n = i mod ELEM_BITS))"
    by (auto simp: bit_eq_iff bit_and_iff bit_bit_mask dest: bit_imp_le_length)
  then show ?thesis by auto
qed

lemma same_elem_bit: "elem_idx i = elem_idx j \<Longrightarrow> i mod ELEM_BITS = j mod ELEM_BITS \<Longrightarrow> i = j"
  unfolding elem_idx_def by (metis div_mult_mod_eq)

lemma update_elem_bm:
  assumes "bitmap_wf b" "i < bit_cnt b"
    and f: "\<And>w n. n < 32 \<Longrightarrow> bit (f w) n = (if n = i mod ELEM_BITS then g (bit w n) else bit w n)"
  obtains b' where "update_elem b (elem_idx i) f = Some b'" "bitmap_wf b'" "bit_cnt b' = bit_cnt b"
    "bm b' = (bm b)[i := g (bm b ! i)]"
proof
  let ?b = "b\<lparr>bits := (bits b)[elem_idx i := f (bits b ! elem_idx i)]\<rparr>"
  have e: "elem_idx i < length (bits b)" using assms by (simp add: elem_idx_bound)
  then show "update_elem b (elem_idx i) f = Some ?b" by (simp add: update_elem_def)
  show "bitmap_wf ?b" "bit_cnt ?b = bit_cnt b" using assms(1) by (simp_all add: bitmap_wf_def)
  show "bm ?b = (bm b)[i := g (bm b ! i)]"
  proof (rule nth_equalityI)
    fix k assume "k < length (bm ?b)"
    then have k: "k < bit_cnt b" by simp
    consider (same) "k = i" | (elem) "k \<noteq> i" "elem_idx k = elem_idx i" "k mod ELEM_BITS \<noteq> i mod ELEM_BITS"
      | (other) "k \<noteq> i" "elem_idx k \<noteq> elem_idx i" using same_elem_bit by metis
    then show "bm ?b ! k = (bm b)[i := g (bm b ! i)] ! k"
      by cases (use k e assms(2) f in \<open>simp_all add: nth_bm\<close>)
  qed simp
qed

lemma bitmap_mark_bm:
  assumes "bitmap_wf b" "i < bit_cnt b"
  obtains b' where "bitmap_mark b i = Some b'" "bitmap_wf b'" "bit_cnt b' = bit_cnt b" "bm b' = (bm b)[i := True]"
  unfolding bitmap_mark_def
  by (rule update_elem_bm [OF assms, of "\<lambda>e. e OR bit_mask i" "\<lambda>_. True"])
    (auto simp: bit_or_iff bit_bit_mask)

lemma bitmap_reset_bm:
  assumes "bitmap_wf b" "i < bit_cnt b"
  obtains b' where "bitmap_reset b i = Some b'" "bitmap_wf b'" "bit_cnt b' = bit_cnt b" "bm b' = (bm b)[i := False]"
  unfolding bitmap_reset_def
  by (rule update_elem_bm [OF assms, of "\<lambda>e. e AND NOT (bit_mask i)" "\<lambda>_. False"])
    (auto simp: bit_and_iff bit_not_iff bit_bit_mask)

lemma bitmap_flip_bm:
  assumes "bitmap_wf b" "i < bit_cnt b"
  obtains b' where "bitmap_flip b i = Some b'" "bitmap_wf b'" "bit_cnt b' = bit_cnt b" "bm b' = (bm b)[i := \<not> bm b ! i]"
  unfolding bitmap_flip_def
  by (rule update_elem_bm [OF assms, of "\<lambda>e. e XOR bit_mask i" Not])
    (auto simp: bit_xor_iff bit_bit_mask)

lemma bitmap_set_bm:
  assumes "bitmap_wf b" "i < bit_cnt b"
  obtains b' where "bitmap_set b i v = Some b'" "bitmap_wf b'" "bit_cnt b' = bit_cnt b" "bm b' = (bm b)[i := v]"
  using assms by (cases v) (auto simp: bitmap_set_def elim: bitmap_mark_bm bitmap_reset_bm)

lemma bitmap_test_bm: "bitmap_wf b \<Longrightarrow> i < bit_cnt b \<Longrightarrow> bitmap_test b i = Some (bm b ! i)"
  by (simp add: bitmap_test_def elem_idx_bound and_bit_mask nth_bm)

lemma bitmap_test_out: "bit_cnt b \<le> i \<Longrightarrow> bitmap_test b i = None \<and> bitmap_set b i v = None"
  by (simp add: bitmap_test_def bitmap_set_def)

section \<open>Ranges of bits\<close>

text \<open>Setting a range, on the list of bits.\<close>

definition set_range :: "bool list \<Rightarrow> nat \<Rightarrow> nat \<Rightarrow> bool \<Rightarrow> bool list" where
  "set_range bs start cnt v = map (\<lambda>i. if start \<le> i \<and> i < start + cnt then v else bs ! i) [0..<length bs]"

lemma length_set_range [simp]: "length (set_range bs start cnt v) = length bs"
  by (simp add: set_range_def)

lemma nth_set_range [simp]:
  "i < length bs \<Longrightarrow> set_range bs start cnt v ! i = (if start \<le> i \<and> i < start + cnt then v else bs ! i)"
  by (simp add: set_range_def)

lemma set_range_0 [simp]: "set_range bs start 0 v = bs"
  by (rule nth_equalityI) auto

lemma set_range_Suc: "set_range bs start (Suc n) v = (set_range bs start n v)[start + n := v]"
  by (cases "start + n < length bs"; rule nth_equalityI)
    (auto simp: nth_list_update list_update_beyond less_Suc_eq)

lemma wrap_small: "bitmap_wf b \<Longrightarrow> i \<le> bit_cnt b \<Longrightarrow> i mod 2 ^ 32 = i"
  by (simp add: bitmap_wf_def)

lemma bitmap_set_multiple_bm:
  assumes wf: "bitmap_wf b" and le: "start + cnt \<le> bit_cnt b"
  obtains b' where "bitmap_set_multiple b start cnt v = Some b'" "bitmap_wf b'" "bit_cnt b' = bit_cnt b"
    "bm b' = set_range (bm b) start cnt v"
proof -
  let ?P = "\<lambda>s. bitmap_wf s \<and> bit_cnt s = bit_cnt b"
  have "\<exists>s'. for_each [0..<cnt] (\<lambda>i b. bitmap_set b ((start + i) mod 2 ^ 32) v) b = Some s' \<and> ?P s' \<and>
      bm s' = fold (\<lambda>i bs. bs[start + i := v]) [0..<cnt] (bm b)"
  proof (rule for_each_refine [where P = ?P and absf = bm])
    fix i s assume i: "i \<in> set [0..<cnt]" and s: "?P s"
    then have "(start + i) mod 2 ^ 32 = start + i" using wrap_small [of s "start + i"] le by auto
    then show "\<exists>s'. bitmap_set s ((start + i) mod 2 ^ 32) v = Some s' \<and> ?P s' \<and> bm s' = (bm s)[start + i := v]"
      using bitmap_set_bm [of s "start + i" v] i s le by auto
  qed (use wf in simp)
  moreover have "fold (\<lambda>i bs. bs[start + i := v]) [0..<n] (bm b) = set_range (bm b) start n v" for n
    by (induction n) (simp_all add: set_range_Suc)
  ultimately show ?thesis
    using that le wrap_small [OF wf le] by (auto simp: bitmap_set_multiple_def)
qed

lemma bitmap_set_all_bm:
  assumes "bitmap_wf b"
  obtains b' where "bitmap_set_all b v = Some b'" "bitmap_wf b'" "bit_cnt b' = bit_cnt b"
    "bm b' = replicate (bit_cnt b) v"
proof -
  have "set_range (bm b) 0 (bit_cnt b) v = replicate (bit_cnt b) v"
    by (rule nth_equalityI) auto
  then show ?thesis
    using bitmap_set_multiple_bm [OF assms, of 0 "bit_cnt b" v] that
    by (auto simp: bitmap_set_all_def bitmap_size_def)
qed

lemma bitmap_contains_loop_bm:
  assumes "bitmap_wf b" "\<forall>i \<in> set is. start + i < bit_cnt b"
  shows "bitmap_contains_loop is b start v = Some (\<exists>i \<in> set is. bm b ! (start + i) = v)"
  using assms
proof (induction "is")
  case (Cons i "is")
  then have "(start + i) mod 2 ^ 32 = start + i" using wrap_small [of b "start + i"] by simp
  then show ?case using Cons by (auto simp: bitmap_test_bm)
qed simp

lemma bitmap_contains_bm:
  assumes "bitmap_wf b" "start + cnt \<le> bit_cnt b"
  shows "bitmap_contains b start cnt v = Some (\<exists>i < cnt. bm b ! (start + i) = v)"
  using assms wrap_small [OF assms] by (auto simp: bitmap_contains_def bitmap_contains_loop_bm)

lemma bitmap_contains_run:
  assumes "bitmap_wf b" "start + cnt \<le> bit_cnt b"
  shows "bitmap_contains b start cnt (\<not> v) = Some (\<not> run_of (bm b) start cnt v)"
  using assms by (auto simp: bitmap_contains_bm run_of_def)

lemma bitmap_count_bm:
  assumes "bitmap_wf b" "start + cnt \<le> bit_cnt b"
  shows "bitmap_count b start cnt v = Some (card {i. i < cnt \<and> bm b ! (start + i) = v})"
proof -
  let ?body = "\<lambda>i value_cnt. do { t \<leftarrow> bitmap_test b ((start + i) mod 2 ^ 32); Some (if t = v then value_cnt + 1 else value_cnt) }"
  have "n \<le> cnt \<Longrightarrow> for_each [0..<n] ?body 0 = Some (card {i. i < n \<and> bm b ! (start + i) = v})" for n
  proof (induction n)
    case (Suc n)
    have "(start + n) mod 2 ^ 32 = start + n" using wrap_small [OF assms(1), of "start + n"] Suc.prems assms(2) by simp
    moreover have "{i. i < Suc n \<and> bm b ! (start + i) = v} =
        (if bm b ! (start + n) = v then insert n {i. i < n \<and> bm b ! (start + i) = v}
         else {i. i < n \<and> bm b ! (start + i) = v})" by (auto simp: less_Suc_eq)
    ultimately show ?case using Suc assms by (simp add: bitmap_test_bm)
  qed simp
  then show ?thesis using assms wrap_small [OF assms] by (simp add: bitmap_count_def)
qed

section \<open>Scanning\<close>

lemma first_run_of_Some:
  assumes "first_run_of bs start cnt v = Some i"
  shows "start \<le> i" "run_of bs i cnt v" "\<And>k. start \<le> k \<Longrightarrow> k < i \<Longrightarrow> \<not> run_of bs k cnt v"
proof -
  have "find (\<lambda>i. run_of bs i cnt v) [start..<length bs - cnt + 1] = Some i"
    using assms unfolding first_run_of_def by (metis option.distinct(1))
  note find_upt_Some [OF this]
  then show "start \<le> i" "run_of bs i cnt v" "\<And>k. start \<le> k \<Longrightarrow> k < i \<Longrightarrow> \<not> run_of bs k cnt v" by blast+
qed

lemma first_run_of_None:
  "first_run_of bs start cnt v = None \<longleftrightarrow> (\<forall>k \<ge> start. \<not> run_of bs k cnt v)"
proof
  assume "first_run_of bs start cnt v = None"
  then show "\<forall>k \<ge> start. \<not> run_of bs k cnt v"
    by (auto simp: first_run_of_def find_None_iff run_of_def split: if_splits)
next
  assume "\<forall>k \<ge> start. \<not> run_of bs k cnt v"
  then show "first_run_of bs start cnt v = None"
    by (auto simp: first_run_of_def find_None_iff)
qed

lemma bitmap_scan_loop_bm:
  assumes "bitmap_wf b" "\<forall>i \<in> set is. i + cnt \<le> bit_cnt b"
  shows "bitmap_scan_loop is b cnt v =
    Some (case find (\<lambda>i. run_of (bm b) i cnt v) is of None \<Rightarrow> BITMAP_ERROR | Some i \<Rightarrow> i)"
  using assms by (induction "is") (auto simp: bitmap_contains_run)

lemma bitmap_scan_bm:
  assumes "bitmap_wf b" "start \<le> bit_cnt b"
  shows "bitmap_scan b start cnt v =
    Some (case first_run_of (bm b) start cnt v of None \<Rightarrow> BITMAP_ERROR | Some i \<Rightarrow> i)"
proof (cases "cnt \<le> bit_cnt b")
  case True
  then have "\<forall>i \<in> set [start..<bit_cnt b - cnt + 1]. i + cnt \<le> bit_cnt b" by auto
  from bitmap_scan_loop_bm [OF assms(1) this, of v] True assms(2) show ?thesis
    by (simp add: bitmap_scan_def first_run_of_def)
qed (use assms in \<open>simp add: bitmap_scan_def first_run_of_def\<close>)

lemma bitmap_scan_and_flip_bm:
  assumes wf: "bitmap_wf b" and s: "start \<le> bit_cnt b"
  shows "first_run_of (bm b) start cnt v = None \<Longrightarrow> bitmap_scan_and_flip b start cnt v = Some (BITMAP_ERROR, b)"
    and "first_run_of (bm b) start cnt v = Some i \<Longrightarrow>
      \<exists>b'. bitmap_scan_and_flip b start cnt v = Some (i, b') \<and> bitmap_wf b' \<and> bit_cnt b' = bit_cnt b \<and>
        bm b' = set_range (bm b) i cnt (\<not> v)"
proof -
  show "bitmap_scan_and_flip b start cnt v = Some (BITMAP_ERROR, b)"
    if "first_run_of (bm b) start cnt v = None"
    using that bitmap_scan_bm [OF assms] by (simp add: bitmap_scan_and_flip_def)
  assume i: "first_run_of (bm b) start cnt v = Some i"
  then have le: "i + cnt \<le> bit_cnt b" using first_run_of_Some(2) [OF i] by (simp add: run_of_def)
  then have "i \<noteq> BITMAP_ERROR" using wf by (auto simp: bitmap_wf_def)
  moreover obtain b' where "bitmap_set_multiple b i cnt (\<not> v) = Some b'" "bitmap_wf b'"
      "bit_cnt b' = bit_cnt b" "bm b' = set_range (bm b) i cnt (\<not> v)"
    using bitmap_set_multiple_bm [OF wf le, of "\<not> v"] .
  ultimately show "\<exists>b'. bitmap_scan_and_flip b start cnt v = Some (i, b') \<and> bitmap_wf b' \<and>
      bit_cnt b' = bit_cnt b \<and> bm b' = set_range (bm b) i cnt (\<not> v)"
    using bitmap_scan_bm [OF assms, of cnt v] i by (simp add: bitmap_scan_and_flip_def)
qed

lemma bitmap_all_bm:
  "bitmap_wf b \<Longrightarrow> i + cnt \<le> bit_cnt b \<Longrightarrow> bitmap_all b i cnt = Some (run_of (bm b) i cnt True)"
  using bitmap_contains_run [of b i cnt True] by (simp add: bitmap_all_def)

lemma bitmap_create_bm:
  assumes "cnt + ELEM_BITS \<le> 2 ^ 32"
  shows "bitmap_create cnt False mem = Some None"
    "0 < cnt \<Longrightarrow> bitmap_create cnt True None = Some None"
    "length ws = elem_cnt cnt \<Longrightarrow>
      \<exists>b. bitmap_create cnt True (Some ws) = Some (Some b) \<and> bitmap_wf b \<and> bm b = replicate cnt False"
proof -
  show "\<exists>b. bitmap_create cnt True (Some ws) = Some (Some b) \<and> bitmap_wf b \<and> bm b = replicate cnt False"
    if "length ws = elem_cnt cnt"
    using bitmap_set_all_bm [of "\<lparr>bit_cnt = cnt, bits = ws\<rparr>" False] that assms
    by (auto simp: bitmap_create_def bitmap_wf_def)
qed (simp_all add: bitmap_create_def)

section \<open>The contract the allocators rely on\<close>

text \<open>A bit array from which regions are taken by \<open>scan_flip\<close> and to which they are given back by
  \<open>set_many\<close>: a region is taken only if it was free, nothing else changes, and giving it back
  restores the array.\<close>

locale bit_array =
  fixes inv :: "'b \<Rightarrow> bool" and bits_of :: "'b \<Rightarrow> bool list"
    and scan_flip :: "'b \<Rightarrow> nat \<Rightarrow> nat \<Rightarrow> bool \<Rightarrow> (nat \<times> 'b) option"
    and set_many :: "'b \<Rightarrow> nat \<Rightarrow> nat \<Rightarrow> bool \<Rightarrow> 'b option"
    and all_set :: "'b \<Rightarrow> nat \<Rightarrow> nat \<Rightarrow> bool option"
  assumes scan_none: "inv b \<Longrightarrow> s \<le> length (bits_of b) \<Longrightarrow> first_run_of (bits_of b) s c v = None \<Longrightarrow>
      scan_flip b s c v = Some (BITMAP_ERROR, b)"
    and scan_some: "inv b \<Longrightarrow> s \<le> length (bits_of b) \<Longrightarrow> first_run_of (bits_of b) s c v = Some i \<Longrightarrow>
      \<exists>b'. scan_flip b s c v = Some (i, b') \<and> inv b' \<and> bits_of b' = set_range (bits_of b) i c (\<not> v)"
    and set_many: "inv b \<Longrightarrow> i + c \<le> length (bits_of b) \<Longrightarrow>
      \<exists>b'. set_many b i c v = Some b' \<and> inv b' \<and> bits_of b' = set_range (bits_of b) i c v"
    and all_set: "inv b \<Longrightarrow> i + c \<le> length (bits_of b) \<Longrightarrow> all_set b i c = Some (run_of (bits_of b) i c True)"
    and small: "inv b \<Longrightarrow> length (bits_of b) < BITMAP_ERROR"
begin

lemma scan_result:
  assumes "inv b" "s \<le> length (bits_of b)"
  obtains (none) "scan_flip b s c False = Some (BITMAP_ERROR, b)" "\<forall>k \<ge> s. \<not> run_of (bits_of b) k c False"
  | (some) i b' where "scan_flip b s c False = Some (i, b')" "i \<noteq> BITMAP_ERROR" "inv b'" "s \<le> i"
      "run_of (bits_of b) i c False" "bits_of b' = set_range (bits_of b) i c True"
proof (cases "first_run_of (bits_of b) s c False")
  case None
  then show ?thesis using scan_none [OF assms None] none by (simp add: first_run_of_None)
next
  case (Some i)
  then obtain b' where b': "scan_flip b s c False = Some (i, b')" "inv b'"
      "bits_of b' = set_range (bits_of b) i c True"
    using scan_some [OF assms Some] by auto
  have r: "run_of (bits_of b) i c False" "s \<le> i" using first_run_of_Some [OF Some] by auto
  then have "i \<noteq> BITMAP_ERROR" using small [OF assms(1)] by (auto simp: run_of_def)
  then show ?thesis using some b' r by blast
qed

lemma release_restores:
  assumes "inv b" "run_of (bits_of b) i c False" "inv b'" "bits_of b' = set_range (bits_of b) i c True"
  obtains b'' where "all_set b' i c = Some True" "set_many b' i c False = Some b''" "inv b''"
    "bits_of b'' = bits_of b"
proof -
  have le: "i + c \<le> length (bits_of b')" using assms by (simp add: run_of_def)
  have "run_of (bits_of b') i c True" using assms(2,4) by (simp add: run_of_def)
  then have all: "all_set b' i c = Some True" using all_set [OF assms(3) le] by simp
  obtain b'' where b'': "set_many b' i c False = Some b''" "inv b''"
      "bits_of b'' = set_range (bits_of b') i c False"
    using set_many [OF assms(3) le] by blast
  have "bits_of b'' = bits_of b"
  proof (rule nth_equalityI)
    fix k assume "k < length (bits_of b'')"
    then have k: "k < length (bits_of b)" using b''(3) assms(4) by simp
    have "i \<le> k \<Longrightarrow> k < i + c \<Longrightarrow> \<not> bits_of b ! k"
      using assms(2) by (metis add_diff_inverse_nat less_diff_conv2 not_le run_of_def add.commute)
    then show "bits_of b'' ! k = bits_of b ! k" using k b''(3) assms(4) by auto
  qed (use b''(3) assms(4) in simp)
  then show ?thesis using that all b'' by blast
qed

end

interpretation bitmap_array: bit_array bitmap_wf bm bitmap_scan_and_flip bitmap_set_multiple bitmap_all
proof
  show "\<exists>b'. bitmap_set_multiple b i c v = Some b' \<and> bitmap_wf b' \<and> bm b' = set_range (bm b) i c v"
    if "bitmap_wf b" "i + c \<le> length (bm b)" for b i c v
    using bitmap_set_multiple_bm [of b i c v] that by auto
qed (auto simp: bitmap_scan_and_flip_bm bitmap_all_bm dest: bitmap_scan_and_flip_bm(2), simp add: bitmap_wf_def)

section \<open>Correctness of the bitmap operations\<close>

text \<open>C7: writing a bit and reading it back gives the value written and leaves every other bit
  alone; an index past the end fails the assertion.\<close>

theorem bitmap_set_test:
  assumes "bitmap_wf b"
  shows "(if i < bit_cnt b then \<exists>b'. bitmap_set b i v = Some b' \<and> bitmap_wf b' \<and> bit_cnt b' = bit_cnt b \<and>
      (\<forall>k < bit_cnt b. bitmap_test b' k = (if k = i then Some v else bitmap_test b k))
    else bitmap_set b i v = None \<and> bitmap_test b i = None)"
proof (cases "i < bit_cnt b")
  case True
  then obtain b' where "bitmap_set b i v = Some b'" "bitmap_wf b'" "bit_cnt b' = bit_cnt b" "bm b' = (bm b)[i := v]"
    using bitmap_set_bm [OF assms] by metis
  then show ?thesis using True assms by (auto simp: bitmap_test_bm nth_list_update)
qed (simp add: bitmap_test_out)

theorem bitmap_set_test_witness:
  "\<exists>b'. bitmap_set \<lparr>bit_cnt = 40, bits = [0, 0]\<rparr> 35 True = Some b' \<and> bitmap_test b' 35 = Some True"
  using bitmap_set_test [of "\<lparr>bit_cnt = 40, bits = [0, 0]\<rparr>" 35 True]
  by (auto simp: bitmap_wf_def elem_cnt_def)

text \<open>C8: \<^verbatim>\<open>bitmap_scan_and_flip\<close> finds the first run of \<open>cnt\<close> bits equal to \<open>v\<close> at or after
  \<open>start\<close> and flips exactly that run, or reports that there is none and changes nothing. An empty run is
  found where the scan starts: for \<open>cnt = 0\<close> the result is \<open>start\<close> and no bit changes, where the comment
  in the source says that the result is 0.\<close>

theorem bitmap_scan_and_flip_correct:
  assumes "bitmap_wf b" "start \<le> bit_cnt b"
  shows "(\<exists>r b'. bitmap_scan_and_flip b start cnt v = Some (r, b') \<and> bitmap_wf b' \<and>
    (if r = BITMAP_ERROR then b' = b \<and> (\<forall>k \<ge> start. \<not> run_of (bm b) k cnt v)
     else start \<le> r \<and> run_of (bm b) r cnt v \<and> (\<forall>k. start \<le> k \<and> k < r \<longrightarrow> \<not> run_of (bm b) k cnt v) \<and>
       bm b' = set_range (bm b) r cnt (\<not> v))) \<and>
    (cnt = 0 \<longrightarrow> (\<exists>b'. bitmap_scan_and_flip b start cnt v = Some (start, b') \<and> bm b' = bm b))"
proof (cases "first_run_of (bm b) start cnt v")
  case None
  then have "cnt \<noteq> 0" using assms(2) by (auto simp: first_run_of_None run_of_def)
  then show ?thesis
    using bitmap_scan_and_flip_bm(1) [OF assms None] assms(1) None by (simp add: first_run_of_None)
next
  case (Some i)
  have "i \<noteq> BITMAP_ERROR" using first_run_of_Some(2) [OF Some] assms(1) by (auto simp: run_of_def bitmap_wf_def)
  moreover have "i = start" if "cnt = 0"
    using first_run_of_Some(1) [OF Some] first_run_of_Some(3) [OF Some, of start] that assms(2) by (fastforce simp: run_of_def)
  moreover have "set_range (bm b) i 0 w = bm b" for w by (rule nth_equalityI) (auto simp: set_range_def)
  ultimately show ?thesis
    using bitmap_scan_and_flip_bm(2) [OF assms Some] first_run_of_Some [OF Some] by auto
qed

theorem bitmap_scan_and_flip_correct_witness:
  "(\<exists>r b'. bitmap_scan_and_flip \<lparr>bit_cnt = 40, bits = [7, 0]\<rparr> 0 5 False = Some (r, b') \<and> bitmap_wf b') \<and>
   (\<exists>b'. bitmap_scan_and_flip \<lparr>bit_cnt = 40, bits = [7, 0]\<rparr> 9 0 False = Some (9, b'))"
  using bitmap_scan_and_flip_correct [of "\<lparr>bit_cnt = 40, bits = [7, 0]\<rparr>" 0 5 False]
    bitmap_scan_and_flip_correct [of "\<lparr>bit_cnt = 40, bits = [7, 0]\<rparr>" 9 0 False]
  by (auto simp: bitmap_wf_def elem_cnt_def)

end
