(* ===== verification/Vaddr.thy ===== *)
theory Vaddr
  imports Prelude
begin

text \<open>
  Virtual addresses and page table entries: \<^verbatim>\<open>threads/vaddr.h\<close> and \<^verbatim>\<open>threads/pte.h\<close>. An address
  or an entry is a natural below \<open>2 ^ 32\<close>; masks and shifts are those of the source. The lemmas
  turn them into division and remainder.
\<close>

section \<open>Addresses\<close>

abbreviation (input) PGBITS :: nat where "PGBITS \<equiv> 12"
abbreviation (input) PGSIZE :: nat where "PGSIZE \<equiv> 4096"
abbreviation (input) PTSHIFT :: nat where "PTSHIFT \<equiv> 12"
abbreviation (input) PDSHIFT :: nat where "PDSHIFT \<equiv> 22"
abbreviation (input) PHYS_BASE :: nat where "PHYS_BASE \<equiv> 0xc0000000"

definition BITMASK :: "nat \<Rightarrow> nat \<Rightarrow> nat" where
  "BITMASK shft cnt = push_bit shft (2 ^ cnt - 1)"

definition PGMASK :: nat where
  "PGMASK = BITMASK 0 12"

definition pg_ofs :: "nat \<Rightarrow> nat" where
  "pg_ofs va = va AND PGMASK"

definition pg_no :: "nat \<Rightarrow> nat" where
  "pg_no va = drop_bit PGBITS va"

text \<open>\<open>x AND (0xffffffff - PGMASK)\<close> is \<^verbatim>\<open>x & ~PGMASK\<close>.\<close>

definition pg_round_up :: "nat \<Rightarrow> nat" where
  "pg_round_up va = (va + PGSIZE - 1) mod 2 ^ 32 AND (0xffffffff - PGMASK)"

definition pg_round_down :: "nat \<Rightarrow> nat" where
  "pg_round_down va = va AND (0xffffffff - PGMASK)"

definition is_user_vaddr :: "nat \<Rightarrow> bool" where
  "is_user_vaddr vaddr \<longleftrightarrow> vaddr < PHYS_BASE"

definition is_kernel_vaddr :: "nat \<Rightarrow> bool" where
  "is_kernel_vaddr vaddr \<longleftrightarrow> vaddr \<ge> PHYS_BASE"

definition ptov :: "nat \<Rightarrow> nat option" where
  "ptov paddr = do { ASSERT (paddr < PHYS_BASE); Some ((paddr + PHYS_BASE) mod 2 ^ 32) }"

definition vtop :: "nat \<Rightarrow> nat option" where
  "vtop vaddr = do { ASSERT (is_kernel_vaddr vaddr); Some (vaddr - PHYS_BASE) }"

section \<open>Page table entries\<close>

definition PTMASK :: nat where
  "PTMASK = BITMASK PTSHIFT 10"

abbreviation (input) PTE_FLAGS :: nat where "PTE_FLAGS \<equiv> 0x00000fff"
abbreviation (input) PTE_ADDR :: nat where "PTE_ADDR \<equiv> 0xfffff000"
abbreviation (input) PTE_P :: nat where "PTE_P \<equiv> 0x1"
abbreviation (input) PTE_W :: nat where "PTE_W \<equiv> 0x2"
abbreviation (input) PTE_U :: nat where "PTE_U \<equiv> 0x4"
abbreviation (input) PTE_A :: nat where "PTE_A \<equiv> 0x20"
abbreviation (input) PTE_D :: nat where "PTE_D \<equiv> 0x40"

definition pt_no :: "nat \<Rightarrow> nat" where
  "pt_no va = drop_bit PTSHIFT (va AND PTMASK)"

definition pd_no :: "nat \<Rightarrow> nat" where
  "pd_no va = drop_bit PDSHIFT va"

definition pde_create :: "nat \<Rightarrow> nat option" where
  "pde_create pt = do {
     ASSERT (pg_ofs pt = 0);
     p \<leftarrow> vtop pt;
     Some (p OR PTE_U OR PTE_P OR PTE_W)
   }"

definition pde_get_pt :: "nat \<Rightarrow> nat option" where
  "pde_get_pt pde = do { ASSERT (pde AND PTE_P \<noteq> 0); ptov (pde AND PTE_ADDR) }"

definition pte_create_kernel :: "nat \<Rightarrow> bool \<Rightarrow> nat option" where
  "pte_create_kernel page writable = do {
     ASSERT (pg_ofs page = 0);
     p \<leftarrow> vtop page;
     Some (p OR PTE_P OR (if writable then PTE_W else 0))
   }"

definition pte_create_user :: "nat \<Rightarrow> bool \<Rightarrow> nat option" where
  "pte_create_user page writable = do {
     e \<leftarrow> pte_create_kernel page writable;
     Some (e OR PTE_U)
   }"

definition pte_get_page :: "nat \<Rightarrow> nat option" where
  "pte_get_page pte = ptov (pte AND PTE_ADDR)"

section \<open>Masks as arithmetic\<close>

lemma bit_nat_less: "(x :: nat) < 2 ^ n \<Longrightarrow> bit x k \<Longrightarrow> k < n"
  by (metis bit_take_bit_iff take_bit_nat_eq_self)

lemma bit_PTE_ADDR: "bit (0xfffff000 :: nat) k \<longleftrightarrow> 12 \<le> k \<and> k < 32"
proof -
  have "(0xfffff000 :: nat) = push_bit 12 (mask 20)" by (simp add: mask_eq_exp_minus_1 push_bit_eq_mult)
  then have "bit (0xfffff000 :: nat) k = bit (push_bit 12 (mask 20) :: nat) k" by (rule arg_cong)
  also have "\<dots> \<longleftrightarrow> 12 \<le> k \<and> k < 32" unfolding bit_push_bit_iff bit_mask_iff by auto
  finally show ?thesis .
qed

lemma and_PTE_ADDR: "(x :: nat) < 2 ^ 32 \<Longrightarrow> x AND PTE_ADDR = x div PGSIZE * PGSIZE"
proof -
  assume x: "x < 2 ^ 32"
  have "x AND PTE_ADDR = push_bit 12 (drop_bit 12 x)"
    using bit_nat_less [OF x]
    by (intro bit_eqI) (auto simp: bit_and_iff bit_PTE_ADDR bit_push_bit_iff bit_drop_bit_eq)
  then show ?thesis by (simp add: push_bit_eq_mult drop_bit_eq_div)
qed

lemma or_aligned: "(p :: nat) mod PGSIZE = 0 \<Longrightarrow> f < PGSIZE \<Longrightarrow> p OR f = p + f"
proof -
  assume p: "p mod PGSIZE = 0" and f: "f < PGSIZE"
  have "take_bit 12 p = 0" using p by (simp add: take_bit_eq_mod)
  then have "k < 12 \<Longrightarrow> \<not> bit p k" for k by (metis bit_0_eq bit_take_bit_iff bot_apply bot_bool_def)
  moreover have "bit f k \<Longrightarrow> k < 12" for k using bit_nat_less [of f 12 k] f by simp
  ultimately have "p AND f = 0" by (intro bit_eqI) (auto simp: bit_and_iff)
  then show ?thesis by (simp add: disjunctive_add_eq_or)
qed

lemma PGMASK_eq: "PGMASK = 2 ^ 12 - 1" "0xffffffff - PGMASK = PTE_ADDR"
  by (simp_all add: PGMASK_def BITMASK_def push_bit_eq_mult)

lemma pg_ofs_eq: "pg_ofs va = va mod PGSIZE"
  using and_low_mask [of va 12] by (simp add: pg_ofs_def PGMASK_eq)

lemma pg_no_eq: "pg_no va = va div PGSIZE"
  by (simp add: pg_no_def drop_bit_eq_div)

lemma pg_round_down_eq: "va < 2 ^ 32 \<Longrightarrow> pg_round_down va = va div PGSIZE * PGSIZE"
  by (simp add: pg_round_down_def PGMASK_eq(2) and_PTE_ADDR)

lemma pg_round_up_eq: "va + PGSIZE \<le> 2 ^ 32 \<Longrightarrow> pg_round_up va = DIV_ROUND_UP va PGSIZE * PGSIZE"
  by (simp add: pg_round_up_def PGMASK_eq(2) and_PTE_ADDR DIV_ROUND_UP_def)

lemma pd_no_eq: "pd_no va = va div 2 ^ 22"
  by (simp add: pd_no_def drop_bit_eq_div)

lemma pt_no_eq: "pt_no va = va div PGSIZE mod 1024"
proof -
  have m: "PTMASK = push_bit 12 (mask 10)" by (simp add: PTMASK_def BITMASK_def mask_eq_exp_minus_1)
  have "drop_bit 12 (va AND push_bit 12 (mask 10)) = take_bit 10 (drop_bit 12 va)"
    by (intro bit_eqI) (auto simp: bit_simps)
  then show ?thesis by (simp add: pt_no_def m take_bit_eq_mod drop_bit_eq_div)
qed

lemma page_split:
  assumes "va < 2 ^ 32"
  shows "va = pd_no va * 2 ^ 22 + pt_no va * PGSIZE + pg_ofs va" "pd_no va < 1024" "pt_no va < 1024" "pg_ofs va < PGSIZE"
proof -
  have "va = va div PGSIZE * PGSIZE + va mod PGSIZE" by simp
  also have "va div PGSIZE = va div PGSIZE div 1024 * 1024 + va div PGSIZE mod 1024" by simp
  also have "va div PGSIZE div 1024 = va div 2 ^ 22" by (simp flip: div_mult2_eq)
  finally show "va = pd_no va * 2 ^ 22 + pt_no va * PGSIZE + pg_ofs va"
    by (simp add: pd_no_eq pt_no_eq pg_ofs_eq algebra_simps)
qed (use assms in \<open>simp_all add: pd_no_eq pt_no_eq pg_ofs_eq less_mult_imp_div_less\<close>)

text \<open>Entries built from a page give the page back, and carry exactly the flags asked for.\<close>

definition kernel_page :: "nat \<Rightarrow> bool" where
  "kernel_page page \<longleftrightarrow> PHYS_BASE \<le> page \<and> page < 2 ^ 32 \<and> page mod PGSIZE = 0"

lemma entry_addr:
  assumes "kernel_page page" "f < PGSIZE"
  shows "(page - PHYS_BASE + f) AND PTE_ADDR = page - PHYS_BASE" "ptov (page - PHYS_BASE) = Some page"
proof -
  have al: "(page - PHYS_BASE) mod PGSIZE = 0"
    using assms(1) by (simp add: kernel_page_def mod_eq_0_iff_dvd dvd_diff_nat)
  show "(page - PHYS_BASE + f) AND PTE_ADDR = page - PHYS_BASE"
    using assms al by (subst and_PTE_ADDR) (auto simp: kernel_page_def div_add1_eq)
  have "page - PHYS_BASE < PHYS_BASE" using assms(1) unfolding kernel_page_def by auto
  then show "ptov (page - PHYS_BASE) = Some page"
    using assms(1) by (simp add: ptov_def kernel_page_def)
qed

lemma vtop_kernel_page: "kernel_page page \<Longrightarrow> vtop page = Some (page - PHYS_BASE)"
  by (simp add: vtop_def kernel_page_def is_kernel_vaddr_def)

lemma entry_aligned: "kernel_page page \<Longrightarrow> (page - PHYS_BASE) mod PGSIZE = 0"
  by (simp add: kernel_page_def mod_eq_0_iff_dvd dvd_diff_nat)

lemma pde_create_eq: "kernel_page pt \<Longrightarrow> pde_create pt = Some (pt - PHYS_BASE + 7)"
  by (simp add: pde_create_def pg_ofs_eq vtop_kernel_page or_aligned entry_aligned or.assoc)
    (simp add: kernel_page_def)

lemma pte_create_user_eq:
  assumes "kernel_page page"
  shows "pte_create_user page w = Some (page - PHYS_BASE + (if w then 7 else 5))"
proof -
  define p where "p = page - PHYS_BASE"
  have "vtop page = Some p" "pg_ofs page = 0"
    using assms by (simp_all add: p_def vtop_kernel_page) (simp add: kernel_page_def pg_ofs_eq)
  then have "pte_create_user page w = Some (p OR (if w then 7 else 5))"
    by (simp add: pte_create_user_def pte_create_kernel_def or.assoc)
  moreover have "p OR (if w then 7 else 5) = p + (if w then 7 else 5)"
    using entry_aligned [OF assms] by (intro or_aligned) (simp_all add: p_def)
  ultimately show ?thesis by (simp only: p_def)
qed

lemma and_low: "(m :: nat) < 2 ^ n \<Longrightarrow> x AND m = (x mod 2 ^ n) AND m"
  by (intro bit_eqI) (auto simp: bit_and_iff bit_take_bit_iff dest: bit_nat_less simp flip: take_bit_eq_mod)

lemma entry_flags: "kernel_page page \<Longrightarrow> f < PGSIZE \<Longrightarrow> m < PGSIZE \<Longrightarrow> (page - PHYS_BASE + f) AND m = f AND m"
  using and_low [of m 12 "page - PHYS_BASE + f"] entry_aligned [of page] by (simp add: mod_add_eq [symmetric])

lemma pde_get_pt_eq: "kernel_page pt \<Longrightarrow> pde_get_pt (pt - PHYS_BASE + 7) = Some pt"
  using entry_flags [of pt 7 PTE_P] entry_addr [of pt 7] by (simp add: pde_get_pt_def)

section \<open>Correctness of page table entries\<close>

text \<open>C9: an address splits into directory index, table index and page offset without loss, and an
  entry built for a page gives back the page, its present bit and the permissions asked for.\<close>

theorem pte_roundtrip:
  assumes "kernel_page page" "va < 2 ^ 32"
  shows "va = pd_no va * 2 ^ 22 + pt_no va * PGSIZE + pg_ofs va \<and> (\<exists>e. pte_create_user page w = Some e \<and> pte_get_page e = Some page \<and>
    e AND PTE_P \<noteq> 0 \<and> e AND PTE_U \<noteq> 0 \<and> (e AND PTE_W \<noteq> 0 \<longleftrightarrow> w) \<and> e < 2 ^ 32)"
proof -
  let ?f = "if w then 7 else 5 :: nat" and ?p = "page - PHYS_BASE"
  have e: "pte_create_user page w = Some (?p + ?f)" by (rule pte_create_user_eq [OF assms(1)])
  have "pte_get_page (?p + ?f) = Some page"
    using entry_addr [OF assms(1), of ?f] by (simp add: pte_get_page_def split: if_splits)
  moreover have fl: "(?p + ?f) AND m = ?f AND m" if "m < PGSIZE" for m
    using that by (intro entry_flags [OF assms(1)]) simp_all
  have "(?p + ?f) AND PTE_P \<noteq> 0" "(?p + ?f) AND PTE_U \<noteq> 0" "(?p + ?f) AND PTE_W \<noteq> 0 \<longleftrightarrow> w"
    by (subst fl; simp)+
  moreover have "?p + ?f < 2 ^ 32" using assms(1) unfolding kernel_page_def by auto
  ultimately show ?thesis unfolding e using page_split(1) [OF assms(2)] by blast
qed

theorem pte_roundtrip_witness:
  "\<exists>e. pte_create_user 0xc0123000 True = Some e \<and> pte_get_page e = Some 0xc0123000"
  using pte_roundtrip [of "0xc0123000" "0x08048123" True] by (auto simp: kernel_page_def)

end
