(* ===== verification/Palloc.thy ===== *)
theory Palloc
  imports Bitmap Vaddr
begin

text \<open>
  The page allocator, \<^verbatim>\<open>threads/palloc.c\<close>: two pools, each a base address and a bitmap of the pages
  in use. Memory is a function from (4-byte aligned) addresses to 32-bit values, so that zeroing
  and poisoning of pages are visible. The pool lock makes the search and the marking of a free
  run one step; the free operation relies on atomic bit updates instead, as in the source.

  The allocator is shown to refine a set of pages in use: \<open>get\<close> adds a region that was free, \<open>free\<close>
  takes it out again, and over any sequence of calls no page is in two live regions.
\<close>

section \<open>Data and operations\<close>

record pool =
  used_map :: bitmap
  base :: nat

record pmem =
  kernel_pool :: pool
  user_pool :: pool
  ram :: "nat \<Rightarrow> nat"

datatype pool_id = KernelPool | UserPool

primrec pool_at :: "'a pmem_scheme \<Rightarrow> pool_id \<Rightarrow> pool" where
  "pool_at s KernelPool = kernel_pool s"
| "pool_at s UserPool = user_pool s"

primrec set_pool :: "'a pmem_scheme \<Rightarrow> pool_id \<Rightarrow> pool \<Rightarrow> 'a pmem_scheme" where
  "set_pool s KernelPool p = s\<lparr>kernel_pool := p\<rparr>"
| "set_pool s UserPool p = s\<lparr>user_pool := p\<rparr>"

abbreviation (input) PAL_ASSERT :: nat where "PAL_ASSERT \<equiv> 1"
abbreviation (input) PAL_ZERO :: nat where "PAL_ZERO \<equiv> 2"
abbreviation (input) PAL_USER :: nat where "PAL_USER \<equiv> 4"

text \<open>\<^verbatim>\<open>memset\<close> on whole words.\<close>

definition memset_words :: "(nat \<Rightarrow> nat) \<Rightarrow> nat \<Rightarrow> nat \<Rightarrow> nat \<Rightarrow> nat \<Rightarrow> nat" where
  "memset_words m a v n = (\<lambda>x. if a \<le> x \<and> x < a + n then v else m x)"

definition init_pool :: "(nat \<Rightarrow> nat) \<Rightarrow> nat \<Rightarrow> nat \<Rightarrow> pool option" where
  "init_pool m start page_cnt =
     (let bm_pages = DIV_ROUND_UP (bitmap_buf_size page_cnt) PGSIZE
      in if bm_pages > page_cnt then None
         else do {
           let page_cnt = page_cnt - bm_pages;
           b \<leftarrow> bitmap_create_in_buf page_cnt
             (map (\<lambda>i. of_nat (m (start + 8 + 4 * i))) [0..<elem_cnt page_cnt]) (bm_pages * PGSIZE);
           Some \<lparr>used_map = b, base = start + bm_pages * PGSIZE\<rparr>
         })"

text \<open>The start of free memory and the sizes of the kernel and user pools, as computed at the top of
  \<^verbatim>\<open>palloc_init\<close>.\<close>

definition pool_sizes :: "nat \<Rightarrow> nat \<Rightarrow> nat \<Rightarrow> (nat \<times> nat \<times> nat) option" where
  "pool_sizes init_ram_pages user_page_limit free_page_limit = do {
     free_start \<leftarrow> ptov (1024 * 1024);
     free_end \<leftarrow> ptov (init_ram_pages * PGSIZE mod 2 ^ 32);
     let bytes = i32 (int free_end - int free_start);
     let free_pages = nat ((if bytes < 0 then - (- bytes div int PGSIZE) else bytes div int PGSIZE) mod 2 ^ 32);
     let user_pages = free_pages div 2;
     let free_pages = (if free_pages > free_page_limit then free_page_limit else free_pages);
     let user_pages = (if user_pages > user_page_limit then user_page_limit else user_pages);
     let kernel_pages = (free_pages + 2 ^ 32 - user_pages) mod 2 ^ 32;
     Some (free_start, kernel_pages, user_pages)
   }"

definition palloc_init :: "nat \<Rightarrow> nat \<Rightarrow> nat \<Rightarrow> 'a pmem_scheme \<Rightarrow> 'a pmem_scheme option" where
  "palloc_init init_ram_pages user_page_limit free_page_limit s = do {
     (free_start, kernel_pages, user_pages) \<leftarrow> pool_sizes init_ram_pages user_page_limit free_page_limit;
     kp \<leftarrow> init_pool (ram s) free_start kernel_pages;
     up \<leftarrow> init_pool (ram s) ((free_start + kernel_pages * PGSIZE) mod 2 ^ 32) user_pages;
     Some (s\<lparr>kernel_pool := kp, user_pool := up\<rparr>)
   }"

definition pool_for :: "nat \<Rightarrow> pool_id" where
  "pool_for flags = (if flags AND PAL_USER \<noteq> 0 then UserPool else KernelPool)"

definition palloc_get_multiple :: "nat \<Rightarrow> nat \<Rightarrow> 'a pmem_scheme \<Rightarrow> (nat \<times> 'a pmem_scheme) option" where
  "palloc_get_multiple flags page_cnt s =
     (let pid = pool_for flags; p = pool_at s pid
      in if page_cnt = 0 then Some (0, s)
         else do {
           (page_idx, m) \<leftarrow> bitmap_scan_and_flip (used_map p) 0 page_cnt False;
           let s = set_pool s pid (p\<lparr>used_map := m\<rparr>);
           let pages = (if page_idx \<noteq> BITMAP_ERROR then (base p + PGSIZE * page_idx) mod 2 ^ 32 else 0);
           if pages \<noteq> 0 then
             Some (pages,
               if flags AND PAL_ZERO \<noteq> 0
               then s\<lparr>ram := memset_words (ram s) pages 0 (PGSIZE * page_cnt mod 2 ^ 32)\<rparr> else s)
           else if flags AND PAL_ASSERT \<noteq> 0 then None
           else Some (0, s)
         })"

definition palloc_get_page :: "nat \<Rightarrow> 'a pmem_scheme \<Rightarrow> (nat \<times> 'a pmem_scheme) option" where
  "palloc_get_page flags s = palloc_get_multiple flags 1 s"

definition page_from_pool :: "pool \<Rightarrow> nat \<Rightarrow> bool" where
  "page_from_pool p page =
     (let page_no = pg_no page; start_page = pg_no (base p);
          end_page = (start_page + bitmap_size (used_map p)) mod 2 ^ 32
      in page_no \<ge> start_page \<and> page_no < end_page)"

definition palloc_free_multiple :: "nat \<Rightarrow> nat \<Rightarrow> 'a pmem_scheme \<Rightarrow> 'a pmem_scheme option" where
  "palloc_free_multiple pages page_cnt s = do {
     ASSERT (pg_ofs pages = 0);
     if pages = 0 \<or> page_cnt = 0 then Some s
     else do {
       pid \<leftarrow> (if page_from_pool (kernel_pool s) pages then Some KernelPool
              else if page_from_pool (user_pool s) pages then Some UserPool
              else None);
       let p = pool_at s pid;
       let page_idx = pg_no pages - pg_no (base p);
       let s = s\<lparr>ram := memset_words (ram s) pages 0xcccccccc (PGSIZE * page_cnt mod 2 ^ 32)\<rparr>;
       a \<leftarrow> bitmap_all (used_map p) page_idx page_cnt;
       ASSERT a;
       m \<leftarrow> bitmap_set_multiple (used_map p) page_idx page_cnt False;
       Some (set_pool s pid (p\<lparr>used_map := m\<rparr>))
     }
   }"

definition palloc_free_page :: "nat \<Rightarrow> 'a pmem_scheme \<Rightarrow> 'a pmem_scheme option" where
  "palloc_free_page page s = palloc_free_multiple page 1 s"

section \<open>Pages in use\<close>

definition region :: "nat \<Rightarrow> nat \<Rightarrow> nat set" where
  "region a c = (\<lambda>j. a + PGSIZE * j) ` {..<c}"

definition pool_pages :: "pool \<Rightarrow> nat set" where
  "pool_pages p = region (base p) (bit_cnt (used_map p))"

definition pool_used :: "pool \<Rightarrow> nat set" where
  "pool_used p = (\<lambda>i. base p + PGSIZE * i) ` {i. i < bit_cnt (used_map p) \<and> bm (used_map p) ! i}"

definition used_pages :: "'a pmem_scheme \<Rightarrow> nat set" where
  "used_pages s = pool_used (kernel_pool s) \<union> pool_used (user_pool s)"

definition pool_wf :: "pool \<Rightarrow> bool" where
  "pool_wf p \<longleftrightarrow> bitmap_wf (used_map p) \<and> base p mod PGSIZE = 0 \<and> 0 < base p \<and>
     base p + PGSIZE * bit_cnt (used_map p) \<le> 2 ^ 32"

definition pmem_wf :: "'a pmem_scheme \<Rightarrow> bool" where
  "pmem_wf s \<longleftrightarrow> pool_wf (kernel_pool s) \<and> pool_wf (user_pool s) \<and>
     base (kernel_pool s) + PGSIZE * bit_cnt (used_map (kernel_pool s)) \<le> base (user_pool s)"

text \<open>Where the pools are and how many pages they have; fixed after initialisation.\<close>

definition geometry :: "'a pmem_scheme \<Rightarrow> pool_id \<Rightarrow> nat \<times> nat" where
  "geometry s pid = (base (pool_at s pid), bit_cnt (used_map (pool_at s pid)))"

text \<open>A live region: \<open>c\<close> pages of one pool, all in use.\<close>

definition live_region :: "'a pmem_scheme \<Rightarrow> nat \<times> nat \<Rightarrow> bool" where
  "live_region s = (\<lambda>(a, c). 0 < c \<and> region a c \<subseteq> used_pages s \<and>
     (\<exists>pid i. a = fst (geometry s pid) + PGSIZE * i \<and> i + c \<le> snd (geometry s pid)))"

text \<open>All states that calls of the allocator lead to, with the regions handed out and not yet
  given back.\<close>

inductive palloc_reach :: "pmem \<Rightarrow> (nat \<times> nat) list \<Rightarrow> bool" where
  init: "pmem_wf s \<Longrightarrow> used_pages s = {} \<Longrightarrow> palloc_reach s []"
| get: "palloc_reach s L \<Longrightarrow> palloc_get_multiple flags c s = Some (a, s') \<Longrightarrow> a \<noteq> 0 \<Longrightarrow>
    palloc_reach s' ((a, c) # L)"
| get_null: "palloc_reach s L \<Longrightarrow> palloc_get_multiple flags c s = Some (0, s') \<Longrightarrow> palloc_reach s' L"
| free: "palloc_reach s L \<Longrightarrow> (a, c) \<in> set L \<Longrightarrow> palloc_free_multiple a c s = Some s' \<Longrightarrow>
    palloc_reach s' (remove1 (a, c) L)"

lemma pool_at_set [simp]:
  "pool_at (set_pool s i p) j = (if i = j then p else pool_at s j)"
  "ram (set_pool s i p) = ram s"
  by (cases i; cases j; simp)+

lemma pool_at_ram [simp]: "pool_at (s\<lparr>ram := m\<rparr>) i = pool_at s i"
  by (cases i) simp_all

lemma geometry_ram [simp]: "geometry (s\<lparr>ram := m\<rparr>) = geometry s"
  by (simp add: geometry_def fun_eq_iff)

lemma used_pages_ram [simp]: "used_pages (s\<lparr>ram := m\<rparr>) = used_pages s" "pmem_wf (s\<lparr>ram := m\<rparr>) = pmem_wf s"
  by (simp_all add: used_pages_def pmem_wf_def)

lemma pmem_wf_pool: "pmem_wf s \<Longrightarrow> pool_wf (pool_at s i)"
  by (cases i) (simp_all add: pmem_wf_def)

lemma pmem_wf_set:
  "pmem_wf s \<Longrightarrow> pool_wf p \<Longrightarrow> base p = base (pool_at s i) \<Longrightarrow>
   bit_cnt (used_map p) = bit_cnt (used_map (pool_at s i)) \<Longrightarrow> pmem_wf (set_pool s i p)"
  by (cases i) (simp_all add: pmem_wf_def)

lemma set_pool_same [simp]: "set_pool s i (pool_at s i) = s"
  by (cases i) simp_all

text \<open>Pages of a pool by their index in its bitmap.\<close>

lemma page_inj: "inj (\<lambda>k. b + PGSIZE * k)"
  by (simp add: inj_def)

lemma region_index: "region (b + PGSIZE * i) c = (\<lambda>k. b + PGSIZE * k) ` {i..<i + c}"
proof -
  have "{i..<i + c} = (\<lambda>j. i + j) ` {..<c}"
    by (metis add.commute add_0 image_add_atLeastLessThan lessThan_atLeast0)
  then show ?thesis by (simp add: region_def image_image distrib_left add.assoc)
qed

lemma region_single [simp]: "region a (Suc 0) = {a}"
  by (auto simp: region_def)

lemma pool_used_subset: "pool_used p \<subseteq> pool_pages p"
  by (auto simp: pool_used_def pool_pages_def region_def)

lemma pools_disjoint: "pmem_wf s \<Longrightarrow> i \<noteq> j \<Longrightarrow> pool_pages (pool_at s i) \<inter> pool_pages (pool_at s j) = {}"
  by (cases i; cases j) (auto simp: pmem_wf_def pool_pages_def region_def)

lemma used_pages_at: "used_pages s = pool_used (pool_at s i) \<union> pool_used (pool_at s (if i = KernelPool then UserPool else KernelPool))"
  by (cases i) (auto simp: used_pages_def)

lemma pool_used_set_range:
  assumes "bm m = set_range (bm (used_map p)) i c v" "i + c \<le> bit_cnt (used_map p)" "bit_cnt m = bit_cnt (used_map p)"
  shows "pool_used (p\<lparr>used_map := m\<rparr>) =
    (if v then pool_used p \<union> region (base p + PGSIZE * i) c else pool_used p - region (base p + PGSIZE * i) c)"
proof -
  let ?U = "{k. k < bit_cnt (used_map p) \<and> bm (used_map p) ! k}"
  have "{k. k < bit_cnt m \<and> bm m ! k} = (if v then ?U \<union> {i..<i + c} else ?U - {i..<i + c})"
    using assms by (auto split: if_splits)
  then show ?thesis
    unfolding pool_used_def region_index
    by (simp add: image_Un image_set_diff [OF page_inj] del: Diff_subset)
qed

lemma run_free_region:
  assumes "run_of (bm (used_map p)) i c False"
  shows "region (base p + PGSIZE * i) c \<subseteq> pool_pages p - pool_used p"
proof -
  have "\<not> bm (used_map p) ! k" if "i \<le> k" "k < i + c" for k
    using assms that by (auto simp: run_of_def) (metis le_add_diff_inverse less_diff_conv2 add.commute)
  then have "{i..<i + c} \<inter> {k. k < bit_cnt (used_map p) \<and> bm (used_map p) ! k} = {}" by auto
  then have "region (base p + PGSIZE * i) c \<inter> pool_used p = {}"
    unfolding pool_used_def region_index using page_inj [THEN image_Int] by (metis image_empty)
  moreover have "region (base p + PGSIZE * i) c \<subseteq> pool_pages p"
    unfolding pool_pages_def region_index using assms by (auto simp: region_def run_of_def)
  ultimately show ?thesis by auto
qed

lemma used_pages_set_pool:
  assumes "pmem_wf s" "pool_used p = (if v then pool_used (pool_at s i) \<union> R else pool_used (pool_at s i) - R)"
    "R \<subseteq> pool_pages (pool_at s i)"
  shows "used_pages (set_pool s i p) = (if v then used_pages s \<union> R else used_pages s - R)"
proof -
  let ?j = "if i = KernelPool then UserPool else KernelPool"
  have "R \<inter> pool_used (pool_at s ?j) = {}"
    using assms(3) pools_disjoint [OF assms(1), of i ?j] pool_used_subset [of "pool_at s ?j"] by (cases i) auto
  moreover have "used_pages (set_pool s i p) = pool_used p \<union> pool_used (pool_at s ?j)"
    using used_pages_at [of "set_pool s i p" i] by (cases i) auto
  ultimately show ?thesis unfolding used_pages_at [of s i] assms(2) by (cases v) auto
qed

section \<open>Allocation\<close>

text \<open>The index of a page in its pool determines its address without wrap-around.\<close>

lemma page_address:
  assumes "pool_wf p" "i + c \<le> bit_cnt (used_map p)" "0 < c"
  shows "(base p + PGSIZE * i) mod 2 ^ 32 = base p + PGSIZE * i" "base p + PGSIZE * i \<noteq> 0"
    "(base p + PGSIZE * i) mod PGSIZE = 0" "PGSIZE * c mod 2 ^ 32 = PGSIZE * c"
    "pg_no (base p + PGSIZE * i) = pg_no (base p) + i" "base p + PGSIZE * i < 2 ^ 32"
  using assms by (auto simp: pool_wf_def pg_no_eq div_add1_eq)

lemma palloc_get_cases:
  assumes "pmem_wf s" "0 < cnt"
  obtains (none) "\<forall>i. \<not> run_of (bm (used_map (pool_at s (pool_for flags)))) i cnt False"
      "palloc_get_multiple flags cnt s = (if flags AND PAL_ASSERT \<noteq> 0 then None else Some (0, s))"
  | (some) i s' where "palloc_get_multiple flags cnt s = Some (base (pool_at s (pool_for flags)) + PGSIZE * i, s')"
      "run_of (bm (used_map (pool_at s (pool_for flags)))) i cnt False"
      "pmem_wf s'" "geometry s' = geometry s" "\<exists>p m. s' = set_pool (s\<lparr>ram := m\<rparr>) (pool_for flags) p"
      "used_pages s' = used_pages s \<union> region (base (pool_at s (pool_for flags)) + PGSIZE * i) cnt"
      "ram s' = (if flags AND PAL_ZERO \<noteq> 0
         then memset_words (ram s) (base (pool_at s (pool_for flags)) + PGSIZE * i) 0 (PGSIZE * cnt) else ram s)"
proof -
  define pid where "pid = pool_for flags"
  define p where "p = pool_at s pid"
  have wf: "pool_wf p" using pmem_wf_pool [OF assms(1)] by (simp add: p_def)
  then have bwf: "bitmap_wf (used_map p)" by (simp add: pool_wf_def)
  show ?thesis
  proof (rule bitmap_array.scan_result [of "used_map p" 0 cnt])
    assume "bitmap_scan_and_flip (used_map p) 0 cnt False = Some (BITMAP_ERROR, used_map p)"
      "\<forall>k \<ge> 0. \<not> run_of (bm (used_map p)) k cnt False"
    then show thesis using none assms(2)
      by (simp add: palloc_get_multiple_def Let_def pid_def p_def)
  next
    fix i m
    assume r: "bitmap_scan_and_flip (used_map p) 0 cnt False = Some (i, m)" "i \<noteq> BITMAP_ERROR" "bitmap_wf m"
      "run_of (bm (used_map p)) i cnt False" "bm m = set_range (bm (used_map p)) i cnt True"
    have c: "bit_cnt m = bit_cnt (used_map p)" using arg_cong [OF r(5), of length] by simp
    have le: "i + cnt \<le> bit_cnt (used_map p)" using r(4) by (simp add: run_of_def)
    note addr = page_address [OF wf le assms(2)]
    let ?s = "set_pool s pid (p\<lparr>used_map := m\<rparr>)"
    have "pmem_wf ?s" using assms(1) wf r(3) c by (intro pmem_wf_set) (simp_all add: pool_wf_def p_def)
    moreover have "used_pages ?s = used_pages s \<union> region (base p + PGSIZE * i) cnt"
      using used_pages_set_pool [OF assms(1), of "p\<lparr>used_map := m\<rparr>" True pid]
        pool_used_set_range [OF r(5) le c] run_free_region [OF r(4)] by (auto simp: p_def)
    moreover have "geometry ?s = geometry s" using c by (auto simp: geometry_def p_def fun_eq_iff)
    moreover have "\<exists>q m'. (if z then ?s\<lparr>ram := m''\<rparr> else ?s) = set_pool (s\<lparr>ram := m'\<rparr>) pid q" for z m''
    proof (cases z)
      case True
      then show ?thesis by (cases pid) (auto intro!: exI [of _ "p\<lparr>used_map := m\<rparr>"] exI [of _ m''])
    next
      case False
      then show ?thesis by (cases pid) (auto intro!: exI [of _ "p\<lparr>used_map := m\<rparr>"] exI [of _ "ram s"])
    qed
    ultimately show thesis
      using some [of i "if flags AND PAL_ZERO \<noteq> 0 then ?s\<lparr>ram := memset_words (ram s) (base p + PGSIZE * i) 0 (PGSIZE * cnt)\<rparr> else ?s"]
        r(1,2,4) addr assms(2)
      by (simp add: palloc_get_multiple_def Let_def pid_def p_def)
  qed (use bwf in simp_all)
qed

section \<open>Release\<close>

lemma page_from_pool_iff:
  assumes "pool_wf p"
  shows "page_from_pool p a \<longleftrightarrow> base p \<le> a \<and> a < base p + PGSIZE * bit_cnt (used_map p)"
proof -
  obtain b where b: "base p = PGSIZE * b" using assms by (metis dvdE mod_0_imp_dvd pool_wf_def)
  have "(b + bit_cnt (used_map p)) < 2 ^ 32" using assms b by (simp add: pool_wf_def)
  then show ?thesis
    unfolding page_from_pool_def Let_def pg_no_eq bitmap_size_def b
    by (auto simp: less_eq_div_iff_mult_less_eq div_less_iff_less_mult distrib_left mult.commute)
qed

lemma region_used_run:
  assumes "pmem_wf s" "p = pool_at s pid" "0 < c" "i + c \<le> bit_cnt (used_map p)"
  shows "region (base p + PGSIZE * i) c \<subseteq> used_pages s \<longleftrightarrow> run_of (bm (used_map p)) i c True"
proof -
  let ?R = "region (base p + PGSIZE * i) c"
  have "?R \<subseteq> pool_pages p" unfolding pool_pages_def region_index using assms(4) by (auto simp: region_def)
  moreover define q where "q = pool_at s (if pid = KernelPool then UserPool else KernelPool)"
  have "pool_pages p \<inter> pool_pages q = {}"
    unfolding assms(2) q_def by (rule pools_disjoint [OF assms(1)]) (cases pid; simp)
  moreover have "pool_used q \<subseteq> pool_pages q" by (rule pool_used_subset)
  moreover have "used_pages s = pool_used p \<union> pool_used q"
    unfolding assms(2) q_def by (rule used_pages_at)
  ultimately have "?R \<subseteq> used_pages s \<longleftrightarrow> ?R \<subseteq> pool_used p" by blast
  also have "\<dots> \<longleftrightarrow> {i..<i + c} \<subseteq> {k. k < bit_cnt (used_map p) \<and> bm (used_map p) ! k}"
    unfolding pool_used_def region_index by (simp add: inj_image_subset_iff [OF page_inj])
  also have "\<dots> \<longleftrightarrow> run_of (bm (used_map p)) i c True"
  proof -
    have "k \<in> {i..<i + c} \<longleftrightarrow> (\<exists>j < c. k = i + j)" for k
      by (auto simp: le_iff_add)
    then show ?thesis using assms(4) by (auto simp: run_of_def subset_iff)
  qed
  finally show ?thesis .
qed

lemma palloc_free_eq:
  assumes wf: "pmem_wf s" and c: "0 < c" and le: "i + c \<le> bit_cnt (used_map (pool_at s pid))"
    and a: "a = base (pool_at s pid) + PGSIZE * i"
  shows "run_of (bm (used_map (pool_at s pid))) i c True \<Longrightarrow>
      \<exists>s'. palloc_free_multiple a c s = Some s' \<and> pmem_wf s' \<and> geometry s' = geometry s \<and>
        used_pages s' = used_pages s - region a c \<and> ram s' = memset_words (ram s) a 0xcccccccc (PGSIZE * c)"
    and "\<not> run_of (bm (used_map (pool_at s pid))) i c True \<Longrightarrow> palloc_free_multiple a c s = None"
proof -
  define p where "p = pool_at s pid"
  have pwf: "pool_wf p" using pmem_wf_pool [OF wf] by (simp add: p_def)
  have le': "i + c \<le> bit_cnt (used_map p)" using le by (simp add: p_def)
  note addr = page_address [OF pwf le' c]
  have rng: "base p \<le> a" "a < base p + PGSIZE * bit_cnt (used_map p)"
    using a le' c by (auto simp: p_def)
  have pid: "(if page_from_pool (kernel_pool s) a then Some KernelPool
      else if page_from_pool (user_pool s) a then Some UserPool else None) = Some pid"
    using rng wf by (cases pid) (auto simp: page_from_pool_iff pmem_wf_def p_def)
  have idx: "pg_no a - pg_no (base p) = i" using addr(5) a by (simp add: p_def)
  have bwf: "bitmap_wf (used_map p)" using pwf by (simp add: pool_wf_def)
  have all: "bitmap_all (used_map p) i c = Some (run_of (bm (used_map p)) i c True)"
    using bitmap_all_bm [OF bwf le'] .
  have nz: "a \<noteq> 0" "pg_ofs a = 0" using addr(2,3) a by (simp_all add: p_def pg_ofs_eq)
  have eq: "palloc_free_multiple a c s = do {
       ASSERT (run_of (bm (used_map p)) i c True);
       m \<leftarrow> bitmap_set_multiple (used_map p) i c False;
       Some (set_pool (s\<lparr>ram := memset_words (ram s) a 0xcccccccc (PGSIZE * c)\<rparr>) pid (p\<lparr>used_map := m\<rparr>)) }"
    using nz c addr(4) idx all unfolding palloc_free_multiple_def pid by (simp add: Let_def flip: p_def)
  then show "palloc_free_multiple a c s = None" if "\<not> run_of (bm (used_map (pool_at s pid))) i c True"
    using that by (simp add: p_def)
  assume "run_of (bm (used_map (pool_at s pid))) i c True"
  moreover obtain m where m: "bitmap_set_multiple (used_map p) i c False = Some m" "bitmap_wf m"
      "bit_cnt m = bit_cnt (used_map p)" "bm m = set_range (bm (used_map p)) i c False"
    using bitmap_set_multiple_bm [OF bwf le'] by metis
  let ?s = "set_pool (s\<lparr>ram := memset_words (ram s) a 0xcccccccc (PGSIZE * c)\<rparr>) pid (p\<lparr>used_map := m\<rparr>)"
  have "pmem_wf ?s" using wf pwf m by (intro pmem_wf_set) (simp_all add: pool_wf_def p_def)
  moreover have "region a c \<subseteq> pool_pages p"
    unfolding pool_pages_def a p_def [symmetric] region_index using le' by (auto simp: region_def)
  then have "used_pages ?s = used_pages s - region a c"
    using used_pages_set_pool [of "s\<lparr>ram := memset_words (ram s) a 0xcccccccc (PGSIZE * c)\<rparr>" "p\<lparr>used_map := m\<rparr>" False pid]
      wf pool_used_set_range [OF m(4) le' m(3)] a by (simp add: p_def)
  moreover have "geometry ?s = geometry s" using m(3) by (auto simp: geometry_def p_def fun_eq_iff)
  ultimately show "\<exists>s'. palloc_free_multiple a c s = Some s' \<and> pmem_wf s' \<and> geometry s' = geometry s \<and>
        used_pages s' = used_pages s - region a c \<and> ram s' = memset_words (ram s) a 0xcccccccc (PGSIZE * c)"
    using eq m(1) by (simp add: p_def)
qed

lemma live_region_free:
  assumes "pmem_wf s" "live_region s (a, c)"
  obtains s' where "palloc_free_multiple a c s = Some s'" "pmem_wf s'" "geometry s' = geometry s"
    "used_pages s' = used_pages s - region a c"
proof -
  obtain pid i where i: "0 < c" "region a c \<subseteq> used_pages s" "a = base (pool_at s pid) + PGSIZE * i"
      "i + c \<le> bit_cnt (used_map (pool_at s pid))"
    using assms(2) by (auto simp: live_region_def geometry_def)
  then have "run_of (bm (used_map (pool_at s pid))) i c True"
    using region_used_run [OF assms(1) refl i(1,4)] by simp
  then show ?thesis using palloc_free_eq(1) [OF assms(1) i(1,4,3)] that by metis
qed

lemma live_regionI:
  "0 < c \<Longrightarrow> a = fst (geometry s pid) + PGSIZE * i \<Longrightarrow> i + c \<le> snd (geometry s pid) \<Longrightarrow>
   region a c \<subseteq> used_pages s \<Longrightarrow> live_region s (a, c)"
  by (auto simp: live_region_def)

lemma live_region_mono:
  "live_region s (a, c) \<Longrightarrow> geometry s' = geometry s \<Longrightarrow> region a c \<subseteq> used_pages s' \<Longrightarrow> live_region s' (a, c)"
  by (simp add: live_region_def)

lemma region_ne: "0 < c \<Longrightarrow> a \<in> region a c"
  by (auto simp: region_def image_iff intro!: bexI [of _ 0])

section \<open>No page is handed out twice\<close>

lemma palloc_reach_inv:
  "palloc_reach s L \<Longrightarrow> pmem_wf s \<and> used_pages s = (\<Union>(a, c) \<in> set L. region a c) \<and>
     (\<forall>x \<in> set L. live_region s x) \<and> sorted_wrt (\<lambda>(a, c) (b, d). region a c \<inter> region b d = {}) L"
proof (induction rule: palloc_reach.induct)
  case (get s L flags c a s')
  have c: "0 < c" using get(2,3) by (cases c) (auto simp: palloc_get_multiple_def Let_def)
  have wf: "pmem_wf s" using get by simp
  show ?case
  proof (rule palloc_get_cases [OF wf c, of flags])
    assume "palloc_get_multiple flags c s = (if flags AND PAL_ASSERT \<noteq> 0 then None else Some (0, s))"
    then show ?thesis using get(2,3) by (auto split: if_splits)
  next
    fix i s1
    let ?p = "pool_at s (pool_for flags)"
    assume r: "palloc_get_multiple flags c s = Some (base ?p + PGSIZE * i, s1)" "run_of (bm (used_map ?p)) i c False"
      "pmem_wf s1" "geometry s1 = geometry s" "used_pages s1 = used_pages s \<union> region (base ?p + PGSIZE * i) c"
    then have a: "a = base ?p + PGSIZE * i" "s' = s1" using get(2) by auto
    have le: "i + c \<le> bit_cnt (used_map ?p)" using r(2) by (simp add: run_of_def)
    have fresh: "region a c \<inter> used_pages s = {}"
    proof -
      have sub: "region a c \<subseteq> pool_pages ?p - pool_used ?p" using run_free_region [OF r(2)] a by simp
      let ?q = "pool_at s (if pool_for flags = KernelPool then UserPool else KernelPool)"
      have "pool_pages ?p \<inter> pool_pages ?q = {}" by (rule pools_disjoint [OF wf]) (cases "pool_for flags"; simp)
      then show ?thesis
        using sub pool_used_subset [of ?q] unfolding used_pages_at [of s "pool_for flags"] by blast
    qed
    have "live_region s' (a, c)"
      using c r(4,5) a le by (auto simp: live_region_def geometry_def)
    moreover have "live_region s' x" if "x \<in> set L" for x
      using get.IH that r(4,5) a by (auto simp: live_region_def)
    moreover have "region a c \<inter> region b d = {}" if "(b, d) \<in> set L" for b d
      using get.IH that fresh by auto
    then have "sorted_wrt (\<lambda>(a, c) (b, d). region a c \<inter> region b d = {}) ((a, c) # L)"
      using get.IH by auto
    moreover have "used_pages s' = (\<Union>(a, c) \<in> set ((a, c) # L). region a c)"
      using get.IH r(5) a by auto
    moreover have "pmem_wf s'" using r(3) a(2) by simp
    ultimately show ?thesis by simp
  qed
next
  case (get_null s L flags c s')
  have wf: "pmem_wf s" using get_null by simp
  have "s' = s"
  proof (cases "c = 0")
    case False
    then have c: "0 < c" by simp
    show ?thesis
    proof (rule palloc_get_cases [OF wf c, of flags])
      fix i s1
      let ?p = "pool_at s (pool_for flags)"
      assume "palloc_get_multiple flags c s = Some (base ?p + PGSIZE * i, s1)" "run_of (bm (used_map ?p)) i c False"
      then have "base ?p + PGSIZE * i = 0" "i + c \<le> bit_cnt (used_map ?p)"
        using get_null(2) by (auto simp: run_of_def)
      then show ?thesis using page_address(2) [OF pmem_wf_pool [OF wf] _ c] by metis
    qed (use get_null(2) in \<open>simp split: if_splits\<close>)
  qed (use get_null(2) in \<open>simp add: palloc_get_multiple_def Let_def\<close>)
  then show ?case using get_null by simp
next
  case (free s L a c s')
  obtain xs ys where L: "L = xs @ (a, c) # ys" "(a, c) \<notin> set xs" using free(2) by (meson split_list_first)
  have live: "pmem_wf s" "live_region s (a, c)" using free.IH free(2) by auto
  obtain s1 where "palloc_free_multiple a c s = Some s1" "pmem_wf s1" "geometry s1 = geometry s"
      "used_pages s1 = used_pages s - region a c"
    using live_region_free [OF live] by metis
  then have s': "pmem_wf s'" "geometry s' = geometry s" "used_pages s' = used_pages s - region a c"
    using free(3) by auto
  have dj: "region a c \<inter> region b d = {}" if "(b, d) \<in> set (xs @ ys)" for b d
    using free.IH that L(1) by (auto simp: sorted_wrt_append)
  have used: "used_pages s = (\<Union>(b, d) \<in> set (xs @ ys). region b d) \<union> region a c" using free.IH L(1) by auto
  then have u': "used_pages s' = (\<Union>(b, d) \<in> set (xs @ ys). region b d)"
    using s'(3) dj by (auto; blast)
  moreover have "live_region s' (b, d)" if "(b, d) \<in> set (xs @ ys)" for b d
  proof (rule live_region_mono [of s])
    show "live_region s (b, d)" using free.IH that L(1) by auto
    show "region b d \<subseteq> used_pages s'" unfolding u' using that by auto
  qed (rule s'(2))
  ultimately show ?case using free.IH s'(1) L by (auto simp: remove1_append sorted_wrt_append)
qed simp

section \<open>Initialisation\<close>

lemma bitmap_pages_le: "0 < n \<Longrightarrow> n + 32 \<le> 2 ^ 32 \<Longrightarrow> DIV_ROUND_UP (bitmap_buf_size n) PGSIZE \<le> n"
  by (simp add: DIV_ROUND_UP_def bitmap_buf_size_def byte_cnt_def elem_cnt_def)

lemma bitmap_buf_mono: "m \<le> n \<Longrightarrow> n + 32 \<le> 2 ^ 32 \<Longrightarrow> bitmap_buf_size m \<le> bitmap_buf_size n"
  by (simp add: bitmap_buf_size_def byte_cnt_def elem_cnt_def div_le_mono)

lemma init_pool_wf:
  assumes "0 < n" "0 < start" "start mod PGSIZE = 0" "start + PGSIZE * n \<le> 2 ^ 32"
  obtains p where "init_pool m start n = Some p" "pool_wf p" "pool_used p = {}"
    "start \<le> base p" "base p + PGSIZE * bit_cnt (used_map p) = start + PGSIZE * n"
proof -
  define k where "k = DIV_ROUND_UP (bitmap_buf_size n) PGSIZE"
  have n: "n + 32 \<le> 2 ^ 32" using assms(4) by simp
  have k: "k \<le> n" using bitmap_pages_le [OF assms(1) n] by (simp add: k_def)
  let ?ws = "map (\<lambda>i. of_nat (m (start + 8 + 4 * i))) [0..<elem_cnt (n - k)] :: 32 word list"
  have "bitmap_wf \<lparr>bit_cnt = n - k, bits = ?ws\<rparr>" using n by (simp add: bitmap_wf_def)
  then obtain b where b: "bitmap_set_all \<lparr>bit_cnt = n - k, bits = ?ws\<rparr> False = Some b" "bitmap_wf b"
      "bit_cnt b = n - k" "bm b = replicate (n - k) False"
    by (rule bitmap_set_all_bm [where v = False]) simp
  have "bitmap_buf_size (n - k) \<le> bitmap_buf_size n" using n by (intro bitmap_buf_mono) simp_all
  also have "\<dots> \<le> k * PGSIZE" unfolding k_def by (rule DIV_ROUND_UP_ge) simp
  finally have "bitmap_create_in_buf (n - k) ?ws (k * PGSIZE) = Some b" using b(1) by (simp add: bitmap_create_in_buf_def)
  then have i: "init_pool m start n = Some \<lparr>used_map = b, base = start + k * PGSIZE\<rparr>"
    using k by (simp add: init_pool_def Let_def flip: k_def)
  have e: "start + k * PGSIZE + PGSIZE * (n - k) = start + PGSIZE * n"
    using k by (metis add.assoc distrib_left le_add_diff_inverse mult.commute)
  show ?thesis
  proof (rule that [OF i])
    show "pool_wf \<lparr>used_map = b, base = start + k * PGSIZE\<rparr>"
      using b(2,3) assms e by (simp add: pool_wf_def mult.commute mod_add_eq [symmetric])
    show "pool_used \<lparr>used_map = b, base = start + k * PGSIZE\<rparr> = {}"
      using b(3,4) by (auto simp: pool_used_def)
  qed (use b(3) e in simp_all)
qed

lemma pool_sizes_eq:
  assumes "256 \<le> r" "r \<le> 262144"
  shows "pool_sizes r ul fl =
    Some (0xc0100000, (min (r - 256) fl + 2 ^ 32 - min ((r - 256) div 2) ul) mod 2 ^ 32, min ((r - 256) div 2) ul)"
proof -
  have s: "ptov (1024 * 1024) = Some 0xc0100000" by (simp add: ptov_def)
  have e: "ptov (r * PGSIZE mod 2 ^ 32) = Some ((r * PGSIZE + PHYS_BASE) mod 2 ^ 32)"
    using assms by (simp add: ptov_def)
  let ?d = "i32 (int ((r * PGSIZE + PHYS_BASE) mod 2 ^ 32) - int 0xc0100000)"
  have d: "?d = int (r - 256) * int PGSIZE"
  proof (cases "r = 262144")
    case True
    then show ?thesis by (simp add: i32_def)
  next
    case False
    then have "r * PGSIZE + PHYS_BASE < 2 ^ 32" using assms(2) by simp
    then have "int ((r * PGSIZE + PHYS_BASE) mod 2 ^ 32) - int 0xc0100000 = int (r - 256) * int PGSIZE"
      using assms(1) by (simp add: of_nat_diff)
    moreover have "i32 (int (r - 256) * int PGSIZE) = int (r - 256) * int PGSIZE"
      using assms(2) by (intro i32_small) simp_all
    ultimately show ?thesis by simp
  qed
  have f: "nat ((if ?d < 0 then - (- ?d div int PGSIZE) else ?d div int PGSIZE) mod 2 ^ 32) = r - 256"
    unfolding d using assms by (simp add: nat_mod_distrib)
  have m: "(if a > b then b else a) = min a b" for a b :: nat by (simp add: min_def)
  show ?thesis unfolding pool_sizes_def s e Let_def bind.bind_lunit f m ..
qed

lemma palloc_init_wf:
  assumes "258 \<le> r" "r \<le> 262144" "0 < ul" "min ((r - 256) div 2) ul < fl"
  shows "\<exists>s'. palloc_init r ul fl s = Some s' \<and> pmem_wf s' \<and> used_pages s' = {}"
proof -
  define up where "up = min ((r - 256) div 2) ul"
  define kp where "kp = min (r - 256) fl - up"
  have b: "0 < up" "0 < kp" "kp + up \<le> r - 256" using assms by (auto simp: up_def kp_def min_def)
  have wrap: "(min (r - 256) fl + 2 ^ 32 - up) mod 2 ^ 32 = kp"
    using assms b unfolding kp_def by (intro mod_sub_le) auto
  have "pool_sizes r ul fl = Some (0xc0100000, kp, up)"
    using assms unfolding up_def [symmetric] wrap [symmetric] by (subst pool_sizes_eq) (simp_all add: up_def)
  moreover have lim: "kp * PGSIZE + up * PGSIZE \<le> 0x3ff00000"
    using b(3) assms(2) by linarith
  then obtain k where k: "init_pool (ram s) 0xc0100000 kp = Some k" "pool_wf k" "pool_used k = {}"
      "0xc0100000 \<le> base k" "base k + PGSIZE * bit_cnt (used_map k) = 0xc0100000 + PGSIZE * kp"
    using init_pool_wf [of kp "0xc0100000" "ram s"] b by auto
  moreover have addr: "(0xc0100000 + kp * PGSIZE) mod 2 ^ 32 = 0xc0100000 + kp * PGSIZE"
    using lim b(1) by (intro mod_less) simp
  moreover obtain u where u: "init_pool (ram s) (0xc0100000 + kp * PGSIZE) up = Some u" "pool_wf u" "pool_used u = {}"
      "0xc0100000 + kp * PGSIZE \<le> base u"
    using init_pool_wf [of up "0xc0100000 + kp * PGSIZE" "ram s"] b lim
    by (auto simp: mod_add_eq [symmetric])
  ultimately show ?thesis by (simp add: palloc_init_def pmem_wf_def used_pages_def mult.commute)
qed

section \<open>Correctness of the page allocator\<close>

text \<open>C10: over any sequence of allocations and releases that starts with all pages free, the live
  regions are pairwise disjoint, the pages in use are exactly those of the live regions, and every
  release of a live region succeeds.\<close>

theorem palloc_no_double_allocation:
  assumes "palloc_reach s L"
  shows "sorted_wrt (\<lambda>(a, c) (b, d). region a c \<inter> region b d = {}) L \<and>
    used_pages s = (\<Union>(a, c) \<in> set L. region a c) \<and>
    (\<forall>(a, c) \<in> set L. \<exists>s'. palloc_free_multiple a c s = Some s' \<and> used_pages s' = used_pages s - region a c)"
proof -
  note inv = palloc_reach_inv [OF assms]
  have "\<exists>s'. palloc_free_multiple a c s = Some s' \<and> used_pages s' = used_pages s - region a c"
    if "(a, c) \<in> set L" for a c
    using inv that live_region_free [of s a c] by metis
  then show ?thesis using inv by blast
qed

definition demo_pmem :: pmem where
  "demo_pmem = \<lparr>kernel_pool = \<lparr>used_map = \<lparr>bit_cnt = 8, bits = [0]\<rparr>, base = 0xc0101000\<rparr>,
     user_pool = \<lparr>used_map = \<lparr>bit_cnt = 8, bits = [0]\<rparr>, base = 0xc0200000\<rparr>, ram = (\<lambda>_. 0)\<rparr>"

lemma demo_pmem_wf: "pmem_wf demo_pmem" "used_pages demo_pmem = {}"
  by (auto simp: demo_pmem_def pmem_wf_def pool_wf_def bitmap_wf_def elem_cnt_def used_pages_def pool_used_def nth_bm elem_idx_def)

theorem palloc_no_double_allocation_witness:
  "\<exists>a s. palloc_get_multiple 0 3 demo_pmem = Some (a, s) \<and> used_pages s = region a 3 \<and>
     (\<exists>s'. palloc_free_multiple a 3 s = Some s')"
proof -
  have nth: "bm (used_map (kernel_pool demo_pmem)) ! j = False" if "j < 8" for j
    using that by (simp add: demo_pmem_def nth_bm elem_idx_def)
  then have "run_of (bm (used_map (pool_at demo_pmem (pool_for 0)))) 0 3 False"
    by (simp add: run_of_def pool_for_def) (simp add: demo_pmem_def)
  then obtain a s where g: "palloc_get_multiple 0 3 demo_pmem = Some (a, s)" "a \<noteq> 0"
    by (rule_tac palloc_get_cases [OF demo_pmem_wf(1), of 3 0])
      (auto simp: demo_pmem_def pool_for_def)
  have "palloc_reach s ((a, 3) # [])" by (rule palloc_reach.get [OF palloc_reach.init [OF demo_pmem_wf] g])
  from palloc_no_double_allocation [OF this] g show ?thesis by auto
qed

text \<open>C11: an allocation returns a page-aligned run of pages of the chosen pool that were all free,
  zeroed if asked for, or reports failure (a panic with \<^verbatim>\<open>PAL_ASSERT\<close>) exactly when the pool has no
  such run; releasing the run restores the set of used pages, and releasing it twice panics.\<close>

theorem palloc_get_free_roundtrip:
  assumes "pmem_wf s" "0 < cnt"
  shows "if \<exists>i. run_of (bm (used_map (pool_at s (pool_for flags)))) i cnt False
    then \<exists>a s' s''. palloc_get_multiple flags cnt s = Some (a, s') \<and> a \<noteq> 0 \<and> a mod PGSIZE = 0 \<and>
      region a cnt \<subseteq> pool_pages (pool_at s (pool_for flags)) - used_pages s \<and>
      (flags AND PAL_ZERO \<noteq> 0 \<longrightarrow> (\<forall>x. a \<le> x \<and> x < a + PGSIZE * cnt \<longrightarrow> ram s' x = 0)) \<and>
      palloc_free_multiple a cnt s' = Some s'' \<and> used_pages s'' = used_pages s \<and>
      palloc_free_multiple a cnt s'' = None
    else palloc_get_multiple flags cnt s = (if flags AND PAL_ASSERT \<noteq> 0 then None else Some (0, s))"
proof (rule palloc_get_cases [OF assms, of flags], goal_cases)
  case (2 i s')
  let ?pid = "pool_for flags"
  let ?p = "pool_at s ?pid"
  let ?a = "base ?p + PGSIZE * i"
  have le: "i + cnt \<le> bit_cnt (used_map ?p)" using 2(2) by (simp add: run_of_def)
  note addr = page_address [OF pmem_wf_pool [OF assms(1)] le assms(2)]
  have fresh: "region ?a cnt \<subseteq> pool_pages ?p - used_pages s"
  proof -
    let ?q = "pool_at s (if ?pid = KernelPool then UserPool else KernelPool)"
    have "pool_pages ?p \<inter> pool_pages ?q = {}" by (rule pools_disjoint [OF assms(1)]) (cases ?pid; simp)
    then show ?thesis using run_free_region [OF 2(2)] pool_used_subset [of ?q]
      unfolding used_pages_at [of s ?pid] by blast
  qed
  have geo: "base (pool_at s' ?pid) = base ?p" "bit_cnt (used_map (pool_at s' ?pid)) = bit_cnt (used_map ?p)"
    using fun_cong [OF 2(4), of ?pid] by (simp_all add: geometry_def)
  have "live_region s' (?a, cnt)"
    by (rule live_regionI [where pid = ?pid and i = i]) (use assms(2) 2(6) le geo in \<open>simp_all add: geometry_def\<close>)
  from live_region_free [OF 2(3) this] obtain s'' where s'': "palloc_free_multiple ?a cnt s' = Some s''" "pmem_wf s''"
      "geometry s'' = geometry s'" "used_pages s'' = used_pages s' - region ?a cnt" by metis
  have used: "used_pages s'' = used_pages s" using s''(4) 2(6) fresh by blast
  have geo2: "base (pool_at s'' ?pid) = base ?p" "bit_cnt (used_map (pool_at s'' ?pid)) = bit_cnt (used_map ?p)"
    using fun_cong [OF s''(3), of ?pid] geo by (simp_all add: geometry_def)
  have "\<not> region ?a cnt \<subseteq> used_pages s''" using used fresh region_ne [OF assms(2), of ?a] by blast
  then have "\<not> run_of (bm (used_map (pool_at s'' ?pid))) i cnt True"
    using region_used_run [OF s''(2) refl assms(2), of i ?pid] le geo2 by simp
  then have "palloc_free_multiple ?a cnt s'' = None"
    using palloc_free_eq(2) [OF s''(2) assms(2), of i ?pid ?a] le geo2 by simp
  moreover have "\<forall>x. ?a \<le> x \<and> x < ?a + PGSIZE * cnt \<longrightarrow> ram s' x = 0" if "flags AND PAL_ZERO \<noteq> 0"
    using 2(7) that by (simp add: memset_words_def)
  ultimately show ?case using 2(1,2) addr(2,3) fresh s''(1) used by auto
qed simp

theorem palloc_get_free_roundtrip_witness:
  "\<exists>a s' s''. palloc_get_multiple PAL_ZERO 2 demo_pmem = Some (a, s') \<and> a mod PGSIZE = 0 \<and>
     palloc_free_multiple a 2 s' = Some s'' \<and> used_pages s'' = {}"
proof -
  have "bm (used_map (kernel_pool demo_pmem)) ! j = False" if "j < 8" for j
    using that by (simp add: demo_pmem_def nth_bm elem_idx_def)
  then have "run_of (bm (used_map (pool_at demo_pmem (pool_for PAL_ZERO)))) 0 2 False"
    by (simp add: run_of_def pool_for_def) (simp add: demo_pmem_def)
  then have ex: "\<exists>i. run_of (bm (used_map (pool_at demo_pmem (pool_for PAL_ZERO)))) i 2 False" by blast
  have "0 < (2 :: nat)" by simp
  from palloc_get_free_roundtrip [OF demo_pmem_wf(1) this, of PAL_ZERO, unfolded if_P [OF ex] demo_pmem_wf(2)]
  show ?thesis by (elim exE conjE) (intro exI conjI)
qed

lemma init_pool_empty: "init_pool m start 0 = None"
  by (simp add: init_pool_def bitmap_buf_size_def byte_cnt_def elem_cnt_def DIV_ROUND_UP_def)

text \<open>C12: with at least 258 pages of RAM (and at most 1 GB), initialisation is decided by the size of the
  user pool, half of the free pages or the user limit, whichever is less. If that size is zero, or the
  free-page limit equals it and leaves nothing for the kernel, the kernel panics. If the free-page
  limit is greater, initialisation succeeds and leaves all pages free in two disjoint, well-formed
  pools. If the limit is below it, the size of the kernel pool wraps around to more pages
  than the machine has.\<close>

theorem palloc_init_correct:
  assumes "258 \<le> r" "r \<le> 262144"
  shows "let u = min ((r - 256) div 2) ul in
    if u = 0 \<or> fl = u then palloc_init r ul fl s = None
    else if u < fl then \<exists>s'. palloc_init r ul fl s = Some s' \<and> pmem_wf s' \<and> used_pages s' = {}
    else \<exists>a k. pool_sizes r ul fl = Some (a, k, u) \<and> k > r"
proof -
  define u where "u = min ((r - 256) div 2) ul"
  have sizes: "pool_sizes r ul fl = Some (0xc0100000, (min (r - 256) fl + 2 ^ 32 - u) mod 2 ^ 32, u)"
    using pool_sizes_eq [of r ul fl] assms by (simp add: u_def)
  have ub: "u \<le> 131072" "u \<le> r - 256" using assms by (auto simp: u_def)
  consider "u = 0" | "fl = u" | "u \<noteq> 0" "u < fl" | "fl < u" by linarith
  then have "if u = 0 \<or> fl = u then palloc_init r ul fl s = None
      else if u < fl then \<exists>s'. palloc_init r ul fl s = Some s' \<and> pmem_wf s' \<and> used_pages s' = {}
      else \<exists>a k. pool_sizes r ul fl = Some (a, k, u) \<and> k > r"
  proof cases
    case 1
    then show ?thesis
      by (simp add: palloc_init_def sizes init_pool_empty Option.bind_eq_None_conv)
  next
    case 2
    then have "(min (r - 256) fl + 2 ^ 32 - u) mod 2 ^ 32 = 0" using ub by simp
    with sizes have "palloc_init r ul fl s = None" by (simp add: palloc_init_def init_pool_empty)
    then show ?thesis using 2 by simp
  next
    case 3
    then show ?thesis using palloc_init_wf [of r ul fl s] assms by (auto simp: u_def)
  next
    case 4
    then have "min (r - 256) fl + 2 ^ 32 - u < 2 ^ 32" "min (r - 256) fl + 2 ^ 32 - u > r" using ub assms by (simp_all add: min_def)
    then show ?thesis using 4 by (simp add: sizes)
  qed
  then show ?thesis unfolding u_def Let_def .
qed

theorem palloc_init_correct_witness:
  "(\<exists>s'. palloc_init 1024 4294967295 4294967295 demo_pmem = Some s' \<and> pmem_wf s') \<and>
   (\<exists>a k u. pool_sizes 1024 4294967295 100 = Some (a, k, u) \<and> k > 1024) \<and>
   palloc_init 1024 4294967295 384 demo_pmem = None"
  using palloc_init_correct [of 1024 4294967295 4294967295 demo_pmem]
    palloc_init_correct [of 1024 4294967295 100 demo_pmem] palloc_init_correct [of 1024 4294967295 384 demo_pmem]
  by (auto simp: Let_def)

end
