(* ===== verification/Pagedir.thy ===== *)
theory Pagedir
  imports Palloc
begin

text \<open>
  Page directories, \<^verbatim>\<open>userprog/pagedir.c\<close>, on the memory and the allocator of \<open>Palloc\<close>: a directory
  and its page tables are pages of memory whose words are the entries of \<^verbatim>\<open>threads/pte.h\<close>. The
  control register \<^verbatim>\<open>cr3\<close> and the number of times it was written (each write empties the
  translation cache) are part of the state.

  A directory stands for a map from user pages to entries, \<open>pte_of\<close>; each operation is shown to
  change exactly one entry of that map.
\<close>

section \<open>Operations\<close>

record mmu = pmem +
  init_page_dir :: nat
  init_ram_pages :: nat
  cr3 :: nat
  tlb_flushes :: nat

text \<open>Store through a pointer, and the copy of a page.\<close>

definition store :: "nat \<Rightarrow> nat \<Rightarrow> 'a pmem_scheme \<Rightarrow> 'a pmem_scheme" where
  "store a v s = s\<lparr>ram := (ram s)(a := v)\<rparr>"

definition copy_page :: "nat \<Rightarrow> nat \<Rightarrow> 'a pmem_scheme \<Rightarrow> 'a pmem_scheme" where
  "copy_page dst src s =
     s\<lparr>ram := (\<lambda>x. if dst \<le> x \<and> x < dst + PGSIZE then ram s (src + (x - dst)) else ram s x)\<rparr>"

definition pagedir_create :: "'a mmu_scheme \<Rightarrow> (nat \<times> 'a mmu_scheme) option" where
  "pagedir_create s = do {
     (pd, s) \<leftarrow> palloc_get_page 0 s;
     Some (pd, if pd \<noteq> 0 then copy_page pd (init_page_dir s) s else s)
   }"

text \<open>The body of the loop of \<^verbatim>\<open>pagedir_destroy\<close> over one page table, and the whole function.\<close>

definition free_table_pages :: "nat \<Rightarrow> 'a mmu_scheme \<Rightarrow> 'a mmu_scheme option" where
  "free_table_pages pt s =
     for_each [0..<1024] (\<lambda>j s.
       if ram s (pt + 4 * j) AND PTE_P \<noteq> 0
       then do { page \<leftarrow> pte_get_page (ram s (pt + 4 * j)); palloc_free_page page s }
       else Some s) s"

definition pagedir_destroy :: "nat \<Rightarrow> 'a mmu_scheme \<Rightarrow> 'a mmu_scheme option" where
  "pagedir_destroy pd s =
     (if pd = 0 then Some s
      else do {
        ASSERT (pd \<noteq> init_page_dir s);
        s \<leftarrow> for_each [0..<pd_no PHYS_BASE] (\<lambda>i s.
          if ram s (pd + 4 * i) AND PTE_P \<noteq> 0
          then do {
            pt \<leftarrow> pde_get_pt (ram s (pd + 4 * i));
            s \<leftarrow> free_table_pages pt s;
            palloc_free_page pt s
          }
          else Some s) s;
        palloc_free_page pd s
      })"

definition lookup_page :: "nat \<Rightarrow> nat \<Rightarrow> bool \<Rightarrow> 'a mmu_scheme \<Rightarrow> (nat \<times> 'a mmu_scheme) option" where
  "lookup_page pd vaddr create s = do {
     ASSERT (pd \<noteq> 0);
     ASSERT (\<not> create \<or> is_user_vaddr vaddr);
     let pde = pd + 4 * pd_no vaddr;
     let entry = (\<lambda>s. do { pt \<leftarrow> pde_get_pt (ram s pde); Some (pt + 4 * pt_no vaddr, s) });
     if ram s pde = 0 then
       if create then do {
         (pt, s) \<leftarrow> palloc_get_page PAL_ZERO s;
         if pt = 0 then Some (0, s)
         else do { e \<leftarrow> pde_create pt; entry (store pde e s) }
       }
       else Some (0, s)
     else entry s
   }"

definition pagedir_set_page :: "nat \<Rightarrow> nat \<Rightarrow> nat \<Rightarrow> bool \<Rightarrow> 'a mmu_scheme \<Rightarrow> (bool \<times> 'a mmu_scheme) option" where
  "pagedir_set_page pd upage kpage writable s = do {
     ASSERT (pg_ofs upage = 0);
     ASSERT (pg_ofs kpage = 0);
     ASSERT (is_user_vaddr upage);
     p \<leftarrow> vtop kpage;
     ASSERT (drop_bit PTSHIFT p < init_ram_pages s);
     ASSERT (pd \<noteq> init_page_dir s);
     (pte, s) \<leftarrow> lookup_page pd upage True s;
     if pte \<noteq> 0 then do {
       ASSERT (ram s pte AND PTE_P = 0);
       e \<leftarrow> pte_create_user kpage writable;
       Some (True, store pte e s)
     }
     else Some (False, s)
   }"

definition pagedir_get_page :: "nat \<Rightarrow> nat \<Rightarrow> 'a mmu_scheme \<Rightarrow> nat option" where
  "pagedir_get_page pd uaddr s = do {
     ASSERT (is_user_vaddr uaddr);
     (pte, s) \<leftarrow> lookup_page pd uaddr False s;
     if pte \<noteq> 0 \<and> ram s pte AND PTE_P \<noteq> 0
     then do { page \<leftarrow> pte_get_page (ram s pte); Some (page + pg_ofs uaddr) }
     else Some 0
   }"

definition pagedir_activate :: "nat \<Rightarrow> 'a mmu_scheme \<Rightarrow> 'a mmu_scheme option" where
  "pagedir_activate pd s = do {
     p \<leftarrow> vtop (if pd = 0 then init_page_dir s else pd);
     Some (s\<lparr>cr3 := p, tlb_flushes := tlb_flushes s + 1\<rparr>)
   }"

definition active_pd :: "'a mmu_scheme \<Rightarrow> nat option" where
  "active_pd s = ptov (cr3 s)"

definition invalidate_pagedir :: "nat \<Rightarrow> 'a mmu_scheme \<Rightarrow> 'a mmu_scheme option" where
  "invalidate_pagedir pd s = do {
     a \<leftarrow> active_pd s;
     if a = pd then pagedir_activate pd s else Some s
   }"

text \<open>\<open>clear_flag v f\<close> is \<^verbatim>\<open>v & ~f\<close> on 32 bits.\<close>

definition clear_flag :: "nat \<Rightarrow> nat \<Rightarrow> nat" where
  "clear_flag v f = v AND (0xffffffff - f)"

definition pagedir_clear_page :: "nat \<Rightarrow> nat \<Rightarrow> 'a mmu_scheme \<Rightarrow> 'a mmu_scheme option" where
  "pagedir_clear_page pd upage s = do {
     ASSERT (pg_ofs upage = 0);
     ASSERT (is_user_vaddr upage);
     (pte, s) \<leftarrow> lookup_page pd upage False s;
     if pte \<noteq> 0 \<and> ram s pte AND PTE_P \<noteq> 0
     then invalidate_pagedir pd (store pte (clear_flag (ram s pte) PTE_P) s)
     else Some s
   }"

definition pagedir_is_dirty :: "nat \<Rightarrow> nat \<Rightarrow> 'a mmu_scheme \<Rightarrow> bool option" where
  "pagedir_is_dirty pd vpage s = do {
     (pte, s) \<leftarrow> lookup_page pd vpage False s;
     Some (pte \<noteq> 0 \<and> ram s pte AND PTE_D \<noteq> 0)
   }"

definition pagedir_set_dirty :: "nat \<Rightarrow> nat \<Rightarrow> bool \<Rightarrow> 'a mmu_scheme \<Rightarrow> 'a mmu_scheme option" where
  "pagedir_set_dirty pd vpage dirty s = do {
     (pte, s) \<leftarrow> lookup_page pd vpage False s;
     if pte \<noteq> 0 then
       if dirty then Some (store pte (ram s pte OR PTE_D) s)
       else invalidate_pagedir pd (store pte (clear_flag (ram s pte) PTE_D) s)
     else Some s
   }"

definition pagedir_is_accessed :: "nat \<Rightarrow> nat \<Rightarrow> 'a mmu_scheme \<Rightarrow> bool option" where
  "pagedir_is_accessed pd vpage s = do {
     (pte, s) \<leftarrow> lookup_page pd vpage False s;
     Some (pte \<noteq> 0 \<and> ram s pte AND PTE_A \<noteq> 0)
   }"

definition pagedir_set_accessed :: "nat \<Rightarrow> nat \<Rightarrow> bool \<Rightarrow> 'a mmu_scheme \<Rightarrow> 'a mmu_scheme option" where
  "pagedir_set_accessed pd vpage accessed s = do {
     (pte, s) \<leftarrow> lookup_page pd vpage False s;
     if pte \<noteq> 0 then
       if accessed then Some (store pte (ram s pte OR PTE_A) s)
       else invalidate_pagedir pd (store pte (clear_flag (ram s pte) PTE_A) s)
     else Some s
   }"

section \<open>The map a directory stands for\<close>

text \<open>The page table that slot \<open>i\<close> of a directory points to, if any, and the entry for an address
  (0 when there is no table).\<close>

definition table_at :: "(nat \<Rightarrow> nat) \<Rightarrow> nat \<Rightarrow> nat \<Rightarrow> nat option" where
  "table_at m pd i = (if m (pd + 4 * i) = 0 then None else Some (m (pd + 4 * i) - 7 + PHYS_BASE))"

definition pte_of :: "(nat \<Rightarrow> nat) \<Rightarrow> nat \<Rightarrow> nat \<Rightarrow> nat" where
  "pte_of m pd va = (case table_at m pd (pd_no va) of None \<Rightarrow> 0 | Some pt \<Rightarrow> m (pt + 4 * pt_no va))"

text \<open>A directory is well formed when its user slots are empty or point to distinct page tables that
  are allocated pages other than the directory itself.\<close>

definition pd_wf :: "'a pmem_scheme \<Rightarrow> nat \<Rightarrow> bool" where
  "pd_wf s pd \<longleftrightarrow> kernel_page pd \<and> pd \<in> used_pages s \<and>
     (\<forall>i < 768. \<forall>pt. table_at (ram s) pd i = Some pt \<longrightarrow>
        ram s (pd + 4 * i) = pt - PHYS_BASE + 7 \<and> kernel_page pt \<and> pt \<in> used_pages s \<and> pt \<noteq> pd) \<and>
     (\<forall>i < 768. \<forall>j < 768. \<forall>pt. table_at (ram s) pd i = Some pt \<longrightarrow> table_at (ram s) pd j = Some pt \<longrightarrow> i = j)"

definition mmu_wf :: "'a pmem_scheme \<Rightarrow> bool" where
  "mmu_wf s \<longleftrightarrow> pmem_wf s \<and> PHYS_BASE \<le> base (kernel_pool s)"

text \<open>Words of distinct pages are distinct.\<close>

lemma page_word:
  assumes "p mod PGSIZE = 0" "q mod PGSIZE = 0" "i < 1024" "j < 1024"
  shows "p + 4 * i = q + 4 * j \<longleftrightarrow> p = q \<and> i = j"
proof
  assume e: "p + 4 * i = q + 4 * j"
  have "(p + 4 * i) div PGSIZE = p div PGSIZE" "(q + 4 * j) div PGSIZE = q div PGSIZE"
    using assms by (simp_all add: div_add1_eq)
  then have "p div PGSIZE = q div PGSIZE" using e by metis
  then have "p = q" using assms by (metis div_mult_mod_eq)
  then show "p = q \<and> i = j" using e by simp
qed simp

lemma ram_store [simp]: "ram (store a v s) = (ram s)(a := v)" "used_pages (store a v s) = used_pages s"
  "mmu_wf (store a v s) = mmu_wf s"
  by (simp_all add: store_def mmu_wf_def)

lemma store_more [simp]: "init_page_dir (store a v s) = init_page_dir s" "cr3 (store a v s) = cr3 s"
  "init_ram_pages (store a v s) = init_ram_pages s" "tlb_flushes (store a v s) = tlb_flushes s"
  by (simp_all add: store_def)

lemma user_slot: "is_user_vaddr va \<Longrightarrow> pd_no va < 768"
  by (simp add: is_user_vaddr_def pd_no_eq less_mult_imp_div_less)

lemma pt_no_less: "pt_no va < 1024"
  by (simp add: pt_no_eq)

lemma kernel_page_mod: "kernel_page p \<Longrightarrow> p mod PGSIZE = 0" "kernel_page p \<Longrightarrow> p \<noteq> 0"
  by (simp_all add: kernel_page_def)

lemma lookup_page_read:
  assumes "pd_wf s pd" "is_user_vaddr va"
  shows "lookup_page pd va False s = Some (case table_at (ram s) pd (pd_no va) of
      None \<Rightarrow> 0 | Some pt \<Rightarrow> pt + 4 * pt_no va, s)"
proof (cases "table_at (ram s) pd (pd_no va)")
  case None
  then show ?thesis using assms(1)
    by (auto simp: lookup_page_def table_at_def pd_wf_def kernel_page_def split: if_splits)
next
  case (Some pt)
  then have e: "ram s (pd + 4 * pd_no va) = pt - PHYS_BASE + 7" "kernel_page pt"
    using assms user_slot [OF assms(2)] by (auto simp: pd_wf_def)
  then show ?thesis using assms(1) Some pde_get_pt_eq [OF e(2)]
    by (auto simp: lookup_page_def pd_wf_def dest: kernel_page_mod(2))
qed

lemma mmu_set_pool [simp]:
  "init_page_dir (set_pool s i p) = init_page_dir s" "cr3 (set_pool s i p) = cr3 s"
  "init_ram_pages (set_pool s i p) = init_ram_pages s" "tlb_flushes (set_pool s i p) = tlb_flushes s"
  by (cases i; simp)+

text \<open>A fresh zeroed kernel page: not in use before, and memory outside it untouched.\<close>

lemma palloc_zero_page:
  assumes "mmu_wf s"
  obtains (null) "palloc_get_page PAL_ZERO s = Some (0, s)" "\<forall>i. \<not> run_of (bm (used_map (kernel_pool s))) i 1 False"
  | (page) pt s' where "palloc_get_page PAL_ZERO s = Some (pt, s')" "kernel_page pt" "pt \<notin> used_pages s"
      "mmu_wf s'" "used_pages s' = insert pt (used_pages s)" "ram s' = memset_words (ram s) pt 0 PGSIZE"
      "\<exists>p m. s' = set_pool (s\<lparr>ram := m\<rparr>) KernelPool p"
proof -
  have wf: "pmem_wf s" using assms by (simp add: mmu_wf_def)
  have f: "pool_for PAL_ZERO = KernelPool" by (simp add: pool_for_def)
  show ?thesis
  proof (rule palloc_get_cases [OF wf, of 1 PAL_ZERO], unfold f pool_at.simps)
    assume "\<forall>i. \<not> run_of (bm (used_map (kernel_pool s))) i 1 False"
      "palloc_get_multiple PAL_ZERO 1 s = (if PAL_ZERO AND PAL_ASSERT \<noteq> 0 then None else Some (0, s))"
    then show thesis using null by (simp add: palloc_get_page_def)
  next
    fix i s'
    let ?p = "kernel_pool s"
    let ?pt = "base ?p + PGSIZE * i"
    assume r: "palloc_get_multiple PAL_ZERO 1 s = Some (?pt, s')" "run_of (bm (used_map ?p)) i 1 False"
      "pmem_wf s'" "geometry s' = geometry s" "\<exists>p m. s' = set_pool (s\<lparr>ram := m\<rparr>) KernelPool p"
      "used_pages s' = used_pages s \<union> region ?pt 1"
      "ram s' = (if PAL_ZERO AND PAL_ZERO \<noteq> 0 then memset_words (ram s) ?pt 0 (PGSIZE * 1) else ram s)"
    have le: "i + 1 \<le> bit_cnt (used_map ?p)" using r(2) by (simp add: run_of_def)
    note addr = page_address [OF pmem_wf_pool [OF wf, of KernelPool, unfolded pool_at.simps] le]
    have "kernel_page ?pt" using addr assms by (simp add: kernel_page_def mmu_wf_def)
    moreover have "?pt \<notin> used_pages s"
      using region_used_run [OF wf refl, of 1 i KernelPool] le r(2) by (auto simp: run_of_def)
    moreover have "mmu_wf s'" using assms r(3) fun_cong [OF r(4), of KernelPool] by (simp add: mmu_wf_def geometry_def)
    ultimately show thesis using page r by (simp add: palloc_get_page_def)
  qed simp
qed

lemma memset_other:
  "kernel_page p \<Longrightarrow> kernel_page q \<Longrightarrow> p \<noteq> q \<Longrightarrow> j < 1024 \<Longrightarrow> memset_words m p v PGSIZE (q + 4 * j) = m (q + 4 * j)"
proof -
  assume k: "kernel_page p" "kernel_page q" "p \<noteq> q" "j < 1024"
  then obtain a b where ab: "p = PGSIZE * a" "q = PGSIZE * b" by (metis dvdE kernel_page_mod(1) mod_0_imp_dvd)
  with k(3) have "a < b \<or> b < a" by auto
  then have "PGSIZE * (a + 1) \<le> PGSIZE * b \<or> PGSIZE * (b + 1) \<le> PGSIZE * a" by auto
  then show ?thesis using k(4) ab by (auto simp: memset_words_def)
qed

lemma memset_same: "j < 1024 \<Longrightarrow> memset_words m p v PGSIZE (p + 4 * j) = v"
  by (simp add: memset_words_def)

lemma table_at_upd:
  assumes "kernel_page pd" "kernel_page pt" "i < 768" "k < 768"
  shows "table_at ((memset_words m pt 0 PGSIZE)(pd + 4 * k := pt - PHYS_BASE + 7)) pd i =
    (if i = k then Some pt else if pt = pd then None else table_at m pd i)"
proof (cases "i = k")
  case True
  then show ?thesis using assms(2) by (simp add: table_at_def kernel_page_def)
next
  case False
  then show ?thesis
    using assms memset_other [of pt pd i m 0] memset_same [of i m pt 0] by (auto simp: table_at_def)
qed

lemma lookup_page_create:
  assumes wf: "mmu_wf s" and pd: "pd_wf s pd" and va: "is_user_vaddr va"
  obtains (null) "lookup_page pd va True s = Some (0, s)"
      "\<forall>i. \<not> run_of (bm (used_map (kernel_pool s))) i 1 False"
  | (entry) pt s' where "lookup_page pd va True s = Some (pt + 4 * pt_no va, s')"
      "table_at (ram s') pd (pd_no va) = Some pt" "kernel_page pt" "mmu_wf s'" "pd_wf s' pd"
      "\<And>v. is_user_vaddr v \<Longrightarrow> pte_of (ram s') pd v = pte_of (ram s) pd v"
      "init_page_dir s' = init_page_dir s" "init_ram_pages s' = init_ram_pages s" "cr3 s' = cr3 s"
proof (cases "table_at (ram s) pd (pd_no va)")
  case (Some pt)
  then have e: "ram s (pd + 4 * pd_no va) = pt - PHYS_BASE + 7" "kernel_page pt"
    using pd user_slot [OF va] by (auto simp: pd_wf_def)
  then have "lookup_page pd va True s = Some (pt + 4 * pt_no va, s)"
    using pd va pde_get_pt_eq [OF e(2)] by (auto simp: lookup_page_def pd_wf_def dest: kernel_page_mod(2))
  then show ?thesis using entry Some e(2) wf pd by metis
next
  case None
  let ?k = "pd_no va"
  have k: "?k < 768" using user_slot [OF va] .
  have kpd: "kernel_page pd" "pd \<noteq> 0" using pd kernel_page_mod(2) by (auto simp: pd_wf_def)
  have z: "ram s (pd + 4 * ?k) = 0" using None by (simp add: table_at_def split: if_splits)
  show ?thesis
  proof (rule palloc_zero_page [OF wf])
    assume "palloc_get_page PAL_ZERO s = Some (0, s)" "\<forall>i. \<not> run_of (bm (used_map (kernel_pool s))) i 1 False"
    then show thesis using null z kpd va by (simp add: lookup_page_def)
  next
    fix pt s1
    assume r: "palloc_get_page PAL_ZERO s = Some (pt, s1)" "kernel_page pt" "pt \<notin> used_pages s" "mmu_wf s1"
      "used_pages s1 = insert pt (used_pages s)" "ram s1 = memset_words (ram s) pt 0 PGSIZE"
      "\<exists>p m. s1 = set_pool (s\<lparr>ram := m\<rparr>) KernelPool p"
    define s' where "s' = store (pd + 4 * ?k) (pt - PHYS_BASE + 7) s1"
    have ptpd: "pt \<noteq> pd" using r(3) pd by (auto simp: pd_wf_def)
    have m': "ram s' = (memset_words (ram s) pt 0 PGSIZE)(pd + 4 * ?k := pt - PHYS_BASE + 7)"
      by (simp add: s'_def r(6))
    have tab: "table_at (ram s') pd i = (if i = ?k then Some pt else table_at (ram s) pd i)" if "i < 768" for i
      unfolding m' using table_at_upd [OF kpd(1) r(2) that k] ptpd by simp
    have "lookup_page pd va True s = Some (pt + 4 * pt_no va, s')"
      using kpd va z r(1) pde_create_eq [OF r(2)] pde_get_pt_eq [OF r(2)] kernel_page_mod(2) [OF r(2)]
      by (simp add: lookup_page_def s'_def)
    moreover have "table_at (ram s') pd ?k = Some pt" using tab [OF k] by simp
    moreover have pw: "pd_wf s' pd"
    proof -
      have old: "q \<in> used_pages s" if "table_at (ram s) pd i = Some q" "i < 768" for i q
        using pd that by (auto simp: pd_wf_def)
      have slot: "ram s' (pd + 4 * i) = ram s (pd + 4 * i)" if "i < 768" "i \<noteq> ?k" for i
        unfolding m' using that memset_other [OF r(2) kpd(1) ptpd, of i] by simp
      show ?thesis
        using pd ptpd r(2,3,5) tab slot old m' unfolding pd_wf_def s'_def
        by (auto split: if_splits simp del: fun_upd_apply) (auto simp: s'_def)
    qed
    moreover have "pte_of (ram s') pd v = pte_of (ram s) pd v" if v: "is_user_vaddr v" for v
    proof (cases "pd_no v = ?k")
      case True
      have "pt + 4 * pt_no v \<noteq> pd + 4 * ?k"
        using page_word [of pt pd "pt_no v" ?k] kernel_page_mod(1) kpd(1) r(2) ptpd pt_no_less k by auto
      then have "ram s' (pt + 4 * pt_no v) = 0" unfolding m' using memset_same [OF pt_no_less] by simp
      then show ?thesis using True None tab [OF k] by (simp add: pte_of_def)
    next
      case False
      show ?thesis
      proof (cases "table_at (ram s) pd (pd_no v)")
        case (Some q)
        have q: "kernel_page q" "q \<in> used_pages s" "q \<noteq> pd" using pd Some user_slot [OF v] by (auto simp: pd_wf_def)
        then have "q \<noteq> pt" using r(3) by auto
        have "q + 4 * pt_no v \<noteq> pd + 4 * ?k"
          using page_word [of q pd "pt_no v" ?k] kernel_page_mod(1) kpd(1) q pt_no_less k by auto
        then have "ram s' (q + 4 * pt_no v) = ram s (q + 4 * pt_no v)"
          unfolding m' using memset_other [OF r(2) q(1) \<open>q \<noteq> pt\<close> [symmetric] pt_no_less] by simp
        then show ?thesis using False Some tab [OF user_slot [OF v]] by (simp add: pte_of_def)
      qed (use False tab [OF user_slot [OF v]] in \<open>simp add: pte_of_def\<close>)
    qed
    moreover have "init_page_dir s' = init_page_dir s" "init_ram_pages s' = init_ram_pages s" "cr3 s' = cr3 s"
      using r(7) by (auto simp: s'_def)
    moreover have "mmu_wf s'" using r(4) by (simp add: s'_def)
    ultimately show thesis using entry r(2) by blast
  qed
qed

section \<open>Reading and writing one entry\<close>

lemma same_page_iff: "va < 2 ^ 32 \<Longrightarrow> vb < 2 ^ 32 \<Longrightarrow>
    pd_no va = pd_no vb \<and> pt_no va = pt_no vb \<longleftrightarrow> pg_no va = pg_no vb"
proof -
  have "v div PGSIZE = v div 2 ^ 22 * 1024 + v div PGSIZE mod 1024" for v :: nat
    using div_mult_mod_eq [of "v div PGSIZE" 1024] by (simp flip: div_mult2_eq)
  moreover have "v div 2 ^ 22 = v div PGSIZE div 1024" for v :: nat by (simp flip: div_mult2_eq)
  ultimately show ?thesis unfolding pd_no_eq pt_no_eq pg_no_eq by metis
qed

lemma pte_of_cong: "pd_no va = pd_no vb \<Longrightarrow> pt_no va = pt_no vb \<Longrightarrow> pte_of m pd va = pte_of m pd vb"
  by (simp add: pte_of_def split: option.split)

lemma user_less: "is_user_vaddr va \<Longrightarrow> va < 2 ^ 32"
  by (simp add: is_user_vaddr_def)

lemma store_pte:
  assumes pd: "pd_wf s pd" and va: "is_user_vaddr va" and pt: "table_at (ram s) pd (pd_no va) = Some pt"
    and s'_def: "s' = store (pt + 4 * pt_no va) e s"
  shows "pd_wf s' pd" "pte_of (ram s') pd va = e"
    "is_user_vaddr v \<Longrightarrow> pg_no v \<noteq> pg_no va \<Longrightarrow> pte_of (ram s') pd v = pte_of (ram s) pd v"
    "table_at (ram s') pd (pd_no va) = Some pt"
proof -
  have k: "kernel_page pt" "pt \<noteq> pd" "kernel_page pd" using pd pt user_slot [OF va] by (auto simp: pd_wf_def)
  have slot: "ram s' (pd + 4 * i) = ram s (pd + 4 * i)" if "i < 768" for i
    using page_word [of pd pt i "pt_no va"] k kernel_page_mod(1) that pt_no_less [of va] by (auto simp: s'_def)
  then have tab: "table_at (ram s') pd i = table_at (ram s) pd i" if "i < 768" for i
    using that by (simp add: table_at_def)
  show "pd_wf s' pd" using pd slot tab unfolding pd_wf_def by (simp add: s'_def)
  show t: "table_at (ram s') pd (pd_no va) = Some pt" using tab user_slot [OF va] pt by simp
  then show "pte_of (ram s') pd va = e" by (simp add: pte_of_def s'_def)
  assume v: "is_user_vaddr v" and ne: "pg_no v \<noteq> pg_no va"
  show "pte_of (ram s') pd v = pte_of (ram s) pd v"
  proof (cases "table_at (ram s) pd (pd_no v)")
    case (Some q)
    have "q + 4 * pt_no v \<noteq> pt + 4 * pt_no va"
    proof
      assume "q + 4 * pt_no v = pt + 4 * pt_no va"
      moreover have "kernel_page q" using pd Some user_slot [OF v] by (auto simp: pd_wf_def)
      ultimately have "q = pt" "pt_no v = pt_no va"
        using page_word [of q pt "pt_no v" "pt_no va"] k kernel_page_mod(1) pt_no_less by auto
      then have "pd_no v = pd_no va" using pd Some pt user_slot [OF v] user_slot [OF va] by (auto simp: pd_wf_def)
      with \<open>pt_no v = pt_no va\<close> show False using same_page_iff [OF user_less [OF v] user_less [OF va]] ne by simp
    qed
    then show ?thesis using Some tab [OF user_slot [OF v]] by (simp add: pte_of_def s'_def)
  qed (use tab [OF user_slot [OF v]] in \<open>simp add: pte_of_def\<close>)
qed

lemma pagedir_get_page_eq:
  assumes "pd_wf s pd" "is_user_vaddr va"
  shows "pagedir_get_page pd va s =
    (if pte_of (ram s) pd va AND PTE_P \<noteq> 0
     then do { page \<leftarrow> pte_get_page (pte_of (ram s) pd va); Some (page + pg_ofs va) } else Some 0)"
proof (cases "table_at (ram s) pd (pd_no va)")
  case None
  then show ?thesis using lookup_page_read [OF assms] assms(2) by (simp add: pagedir_get_page_def pte_of_def)
next
  case (Some pt)
  then have "pt \<noteq> 0" using assms user_slot [OF assms(2)] by (auto simp: pd_wf_def dest: kernel_page_mod(2))
  then show ?thesis using Some lookup_page_read [OF assms] assms(2)
    by (simp add: pagedir_get_page_def pte_of_def)
qed

lemma pagedir_get_page_mapped:
  assumes "pd_wf s pd" "is_user_vaddr va" "kernel_page kpage" "pte_of (ram s) pd va = kpage - PHYS_BASE + f"
    "f < PGSIZE" "f AND PTE_P \<noteq> 0"
  shows "pagedir_get_page pd va s = Some (kpage + pg_ofs va)"
proof -
  have "pte_of (ram s) pd va AND PTE_P \<noteq> 0"
    unfolding assms(4) by (subst entry_flags [OF assms(3,5)]) (use assms(6) in simp_all)
  moreover have "pte_get_page (pte_of (ram s) pd va) = Some kpage"
    unfolding assms(4) pte_get_page_def entry_addr(1) [OF assms(3,5)] by (rule entry_addr(2) [OF assms(3,5)])
  ultimately show ?thesis by (simp add: pagedir_get_page_eq [OF assms(1,2)])
qed

section \<open>Correctness of the mapping operations\<close>

text \<open>C13: after \<^verbatim>\<open>pagedir_set_page\<close> succeeds, every address of the user page translates to the
  corresponding address of the kernel page and every other user page translates as before; it fails
  only for lack of memory for a page table, and then changes no translation.\<close>

theorem pagedir_set_get:
  assumes "mmu_wf s" "pd_wf s pd" "pd \<noteq> init_page_dir s" "is_user_vaddr upage" "upage mod PGSIZE = 0"
    "kernel_page kpage" "(kpage - PHYS_BASE) div PGSIZE < init_ram_pages s"
    "pte_of (ram s) pd upage AND PTE_P = 0"
  shows "\<exists>ok s'. pagedir_set_page pd upage kpage w s = Some (ok, s') \<and> mmu_wf s' \<and> pd_wf s' pd \<and>
    (\<forall>va. is_user_vaddr va \<longrightarrow> pagedir_get_page pd va s' =
       (if ok \<and> pg_no va = pg_no upage then Some (kpage + pg_ofs va) else pagedir_get_page pd va s)) \<and>
    (\<not> ok \<longrightarrow> s' = s \<and> (\<forall>i. \<not> run_of (bm (used_map (kernel_pool s))) i 1 False))"
proof -
  have pre: "pg_ofs upage = 0" "pg_ofs kpage = 0" "vtop kpage = Some (kpage - PHYS_BASE)"
      "drop_bit PTSHIFT (kpage - PHYS_BASE) < init_ram_pages s"
    using assms by (simp_all add: pg_ofs_eq vtop_kernel_page kernel_page_mod drop_bit_eq_div)
  let ?f = "if w then 7 else 5 :: nat"
  have fP: "?f AND PTE_P \<noteq> 0" "?f < PGSIZE" by simp_all
  show ?thesis
  proof (rule lookup_page_create [OF assms(1,2,4)])
    assume n: "lookup_page pd upage True s = Some (0, s)" "\<forall>i. \<not> run_of (bm (used_map (kernel_pool s))) i 1 False"
    then have "pagedir_set_page pd upage kpage w s = Some (False, s)"
      using pre assms(3,4) by (simp add: pagedir_set_page_def)
    then show ?thesis using n(2) assms(1,2) by auto
  next
    fix pt s1
    assume r: "lookup_page pd upage True s = Some (pt + 4 * pt_no upage, s1)"
      "table_at (ram s1) pd (pd_no upage) = Some pt" "kernel_page pt" "mmu_wf s1" "pd_wf s1 pd"
      "\<And>v. is_user_vaddr v \<Longrightarrow> pte_of (ram s1) pd v = pte_of (ram s) pd v"
    define s' where "s' = store (pt + 4 * pt_no upage) (kpage - PHYS_BASE + ?f) s1"
    note st = store_pte [OF r(5) assms(4) r(2) s'_def]
    have "ram s1 (pt + 4 * pt_no upage) = pte_of (ram s1) pd upage" using r(2) by (simp add: pte_of_def)
    then have "ram s1 (pt + 4 * pt_no upage) AND PTE_P = 0" using r(6) [OF assms(4)] assms(8) by simp
    then have ok: "pagedir_set_page pd upage kpage w s = Some (True, s')"
      using pre assms(3,4) r(1) kernel_page_mod(2) [OF r(3)] pte_create_user_eq [OF assms(6), of w]
      by (simp add: pagedir_set_page_def s'_def)
    moreover have "pagedir_get_page pd va s' =
        (if pg_no va = pg_no upage then Some (kpage + pg_ofs va) else pagedir_get_page pd va s)"
      if va: "is_user_vaddr va" for va
    proof (cases "pg_no va = pg_no upage")
      case True
      then have "pd_no va = pd_no upage" "pt_no va = pt_no upage"
        using same_page_iff [OF user_less [OF va] user_less [OF assms(4)]] by auto
      then have "pte_of (ram s') pd va = kpage - PHYS_BASE + ?f" using st(2) pte_of_cong by metis
      then show ?thesis using pagedir_get_page_mapped [OF st(1) va assms(6) _ fP(2,1)] True by simp
    next
      case False
      then have "pte_of (ram s') pd va = pte_of (ram s) pd va" using st(3) [OF va] r(6) [OF va] by simp
      then show ?thesis using False
        by (simp add: pagedir_get_page_eq [OF st(1) va] pagedir_get_page_eq [OF assms(2) va])
    qed
    moreover have "mmu_wf s'" using r(4) by (simp add: s'_def)
    ultimately show ?thesis using st(1) by auto
  qed
qed

definition demo_mmu :: mmu where
  "demo_mmu = \<lparr>kernel_pool = \<lparr>used_map = \<lparr>bit_cnt = 8, bits = [1]\<rparr>, base = 0xc0101000\<rparr>,
     user_pool = \<lparr>used_map = \<lparr>bit_cnt = 8, bits = [0]\<rparr>, base = 0xc0200000\<rparr>, ram = (\<lambda>_. 0),
     init_page_dir = 0xc0300000, init_ram_pages = 1024, cr3 = 0x101000, tlb_flushes = 0\<rparr>"

lemma demo_mmu_wf: "mmu_wf demo_mmu" "pd_wf demo_mmu 0xc0101000"
proof -
  have "bm (used_map (kernel_pool demo_mmu)) ! 0"
    by (simp add: demo_mmu_def nth_bm elem_idx_def)
  then have "0xc0101000 \<in> used_pages demo_mmu"
    by (auto simp: used_pages_def pool_used_def demo_mmu_def image_iff intro!: exI [of _ 0])
  then show "pd_wf demo_mmu 0xc0101000"
    by (simp add: pd_wf_def kernel_page_def table_at_def) (simp add: demo_mmu_def)
  show "mmu_wf demo_mmu"
    by (simp add: mmu_wf_def demo_mmu_def pmem_wf_def pool_wf_def bitmap_wf_def elem_cnt_def)
qed

theorem pagedir_set_get_witness:
  "\<exists>ok s'. pagedir_set_page 0xc0101000 0x08048000 0xc0200000 True demo_mmu = Some (ok, s') \<and>
     (ok \<longrightarrow> pagedir_get_page 0xc0101000 0x08048123 s' = Some 0xc0200123)"
proof -
  have h: "0xc0101000 \<noteq> init_page_dir demo_mmu" "is_user_vaddr 0x08048000" "0x08048000 mod PGSIZE = 0"
      "kernel_page 0xc0200000" "(0xc0200000 - PHYS_BASE) div PGSIZE < init_ram_pages demo_mmu"
      "pte_of (ram demo_mmu) 0xc0101000 0x08048000 AND PTE_P = 0"
    by (simp_all add: demo_mmu_def is_user_vaddr_def kernel_page_def pte_of_def table_at_def)
  have u: "is_user_vaddr 0x08048123" "pg_no 0x08048123 = pg_no 0x08048000" "pg_ofs 0x08048123 = 0x123"
    by (simp_all add: is_user_vaddr_def pg_no_eq pg_ofs_eq)
  from pagedir_set_get [OF demo_mmu_wf h, of True] obtain ok s'
    where "pagedir_set_page 0xc0101000 0x08048000 0xc0200000 True demo_mmu = Some (ok, s')"
      and g: "\<forall>va. is_user_vaddr va \<longrightarrow> pagedir_get_page 0xc0101000 va s' =
       (if ok \<and> pg_no va = pg_no 0x08048000 then Some (0xc0200000 + pg_ofs va) else pagedir_get_page 0xc0101000 va demo_mmu)"
    by blast
  moreover have "ok \<longrightarrow> pagedir_get_page 0xc0101000 0x08048123 s' = Some 0xc0200123"
    using g [rule_format, OF u(1)] u(2,3) by simp
  ultimately show ?thesis by blast
qed

lemma invalidate_eq:
  assumes "kernel_page pd" "cr3 s < PHYS_BASE"
  obtains s' where "invalidate_pagedir pd s = Some s'" "ram s' = ram s" "used_pages s' = used_pages s"
    "mmu_wf s' = mmu_wf s" "tlb_flushes s' = tlb_flushes s + (if active_pd s = Some pd then 1 else 0)"
proof -
  obtain a where a: "active_pd s = Some a" using assms(2) by (simp add: active_pd_def ptov_def)
  show ?thesis
  proof (cases "a = pd")
    case True
    let ?s = "s\<lparr>cr3 := pd - PHYS_BASE, tlb_flushes := tlb_flushes s + 1\<rparr>"
    have "invalidate_pagedir pd s = Some ?s"
      using a True assms(1) kernel_page_mod(2) [OF assms(1)]
      by (simp add: invalidate_pagedir_def pagedir_activate_def vtop_kernel_page)
    then show ?thesis using that [of ?s] a True by (simp add: used_pages_def mmu_wf_def pmem_wf_def)
  next
    case False
    then show ?thesis using that [of s] a by (simp add: invalidate_pagedir_def)
  qed
qed

lemma clear_flag_and: "clear_flag v 1 AND PTE_P = 0" "clear_flag v 0x20 AND PTE_A = 0" "clear_flag v 0x40 AND PTE_D = 0"
  unfolding clear_flag_def and.assoc by simp_all

lemma pd_wf_cong: "ram s' = ram s \<Longrightarrow> used_pages s' = used_pages s \<Longrightarrow> pd_wf s' pd = pd_wf s pd"
  by (simp add: pd_wf_def)

text \<open>C14: \<^verbatim>\<open>pagedir_clear_page\<close> makes exactly the given page untranslatable; when it was mapped in the
  active directory, the translation cache is emptied.\<close>

theorem pagedir_clear_unmaps:
  assumes "mmu_wf s" "pd_wf s pd" "is_user_vaddr upage" "upage mod PGSIZE = 0" "cr3 s < PHYS_BASE"
  shows "\<exists>s'. pagedir_clear_page pd upage s = Some s' \<and> mmu_wf s' \<and> pd_wf s' pd \<and>
    (\<forall>va. is_user_vaddr va \<longrightarrow> pagedir_get_page pd va s' =
       (if pg_no va = pg_no upage then Some 0 else pagedir_get_page pd va s)) \<and>
    (pte_of (ram s) pd upage AND PTE_P \<noteq> 0 \<and> active_pd s = Some pd \<longrightarrow> tlb_flushes s' = tlb_flushes s + 1)"
proof -
  have ofs: "pg_ofs upage = 0" using assms(4) by (simp add: pg_ofs_eq)
  have same: "pte_of m pd va = pte_of m pd upage" if "is_user_vaddr va" "pg_no va = pg_no upage" for va m
    using same_page_iff [OF user_less [OF that(1)] user_less [OF assms(3)]] that(2) by (intro pte_of_cong) auto
  note rd = lookup_page_read [OF assms(2,3)]
  show ?thesis
  proof (cases "pte_of (ram s) pd upage AND PTE_P \<noteq> 0")
    case False
    then have "pagedir_clear_page pd upage s = Some s"
      using rd ofs assms(3) by (auto simp: pagedir_clear_page_def pte_of_def split: option.splits)
    moreover have "pagedir_get_page pd va s = Some 0" if "is_user_vaddr va" "pg_no va = pg_no upage" for va
      using False same [OF that] by (simp add: pagedir_get_page_eq [OF assms(2) that(1)])
    ultimately show ?thesis using assms(1,2) False by auto
  next
    case True
    then obtain pt where pt: "table_at (ram s) pd (pd_no upage) = Some pt"
      by (cases "table_at (ram s) pd (pd_no upage)") (simp_all add: pte_of_def)
    define e where "e = clear_flag (pte_of (ram s) pd upage) PTE_P"
    define s1 where "s1 = store (pt + 4 * pt_no upage) e s"
    note st = store_pte [OF assms(2,3) pt s1_def]
    have k: "kernel_page pd" "kernel_page pt" using assms(2) pt user_slot [OF assms(3)] by (auto simp: pd_wf_def)
    obtain s' where i: "invalidate_pagedir pd s1 = Some s'" "ram s' = ram s1" "used_pages s' = used_pages s1"
        "mmu_wf s' = mmu_wf s1" "tlb_flushes s' = tlb_flushes s1 + (if active_pd s1 = Some pd then 1 else 0)"
      using invalidate_eq [OF k(1), of s1] assms(5) by (auto simp: s1_def)
    have "pagedir_clear_page pd upage s = Some s'"
      using rd ofs assms(3) True pt i(1) kernel_page_mod(2) [OF k(2)]
      by (simp add: pagedir_clear_page_def pte_of_def e_def s1_def)
    moreover have pw: "pd_wf s' pd" using st(1) pd_wf_cong [OF i(2,3)] by simp
    moreover have "pagedir_get_page pd va s' = (if pg_no va = pg_no upage then Some 0 else pagedir_get_page pd va s)"
      if va: "is_user_vaddr va" for va
      using same [OF va] st(2,3) va i(2) clear_flag_and(1) [of "pte_of (ram s) pd upage"]
      by (simp add: pagedir_get_page_eq [OF pw va] pagedir_get_page_eq [OF assms(2) va] e_def)
    moreover have "tlb_flushes s' = tlb_flushes s + 1" if "active_pd s = Some pd"
      using i(5) that by (simp add: s1_def active_pd_def)
    moreover have "mmu_wf s'" using i(4) assms(1) by (simp add: s1_def)
    ultimately show ?thesis by auto
  qed
qed

theorem pagedir_clear_unmaps_witness:
  "\<exists>s'. pagedir_clear_page 0xc0101000 0x08048000 demo_mmu = Some s' \<and>
     pagedir_get_page 0xc0101000 0x08048123 s' = Some 0"
proof -
  have h: "is_user_vaddr 0x08048000" "0x08048000 mod PGSIZE = 0" "cr3 demo_mmu < PHYS_BASE"
    by (simp_all add: demo_mmu_def is_user_vaddr_def)
  have u: "is_user_vaddr 0x08048123" "pg_no 0x08048123 = pg_no 0x08048000"
    by (simp_all add: is_user_vaddr_def pg_no_eq)
  from pagedir_clear_unmaps [OF demo_mmu_wf h] obtain s'
    where "pagedir_clear_page 0xc0101000 0x08048000 demo_mmu = Some s'"
      and g: "\<forall>va. is_user_vaddr va \<longrightarrow> pagedir_get_page 0xc0101000 va s' =
       (if pg_no va = pg_no 0x08048000 then Some 0 else pagedir_get_page 0xc0101000 va demo_mmu)" by blast
  moreover have "pagedir_get_page 0xc0101000 0x08048123 s' = Some 0"
    using g [rule_format, OF u(1)] u(2) by simp
  ultimately show ?thesis by blast
qed

section \<open>Destroying a directory\<close>

text \<open>The pages that \<^verbatim>\<open>pagedir_destroy\<close> frees, in its order: of each present table the pages it maps
  and the table, then the directory.\<close>

definition entry_page :: "nat \<Rightarrow> nat" where
  "entry_page e = (case pte_get_page e of None \<Rightarrow> 0 | Some p \<Rightarrow> p)"

definition table_pages :: "(nat \<Rightarrow> nat) \<Rightarrow> nat \<Rightarrow> nat list \<Rightarrow> nat list" where
  "table_pages m pt js = map (\<lambda>j. entry_page (m (pt + 4 * j))) (filter (\<lambda>j. m (pt + 4 * j) AND PTE_P \<noteq> 0) js)"

definition slot_pages :: "(nat \<Rightarrow> nat) \<Rightarrow> nat \<Rightarrow> nat list \<Rightarrow> nat list" where
  "slot_pages m pd is = concat (map (\<lambda>i. let pt = entry_page (m (pd + 4 * i)) in table_pages m pt [0..<1024] @ [pt])
     (filter (\<lambda>i. m (pd + 4 * i) AND PTE_P \<noteq> 0) is))"

definition dir_pages :: "(nat \<Rightarrow> nat) \<Rightarrow> nat \<Rightarrow> nat list" where
  "dir_pages m pd = slot_pages m pd [0..<768] @ [pd]"

text \<open>The state after the pages \<open>F\<close> have been freed: memory outside them is as before.\<close>

definition freed :: "'a mmu_scheme \<Rightarrow> nat set \<Rightarrow> 'a mmu_scheme \<Rightarrow> bool" where
  "freed s F s' \<longleftrightarrow> (\<exists>kp up m. s' = s\<lparr>kernel_pool := kp, user_pool := up, ram := m\<rparr>) \<and> pmem_wf s' \<and>
     geometry s' = geometry s \<and> used_pages s' = used_pages s - F \<and>
     (\<forall>x. (\<forall>p \<in> F. \<not> (p \<le> x \<and> x < p + PGSIZE)) \<longrightarrow> ram s' x = ram s x)"

lemma live_page:
  assumes "pmem_wf s" "live_region s (p, 1)"
  shows "p mod PGSIZE = 0" "p \<noteq> 0"
proof -
  obtain pid i where "p = base (pool_at s pid) + PGSIZE * i" using assms(2) by (auto simp: live_region_def geometry_def)
  then show "p mod PGSIZE = 0" "p \<noteq> 0" using pmem_wf_pool [OF assms(1), of pid] by (simp_all add: pool_wf_def)
qed

lemma pools_updE:
  "\<exists>kp up m. s = s\<lparr>kernel_pool := kp, user_pool := up, ram := m\<rparr>"
  "\<exists>kp up m. s\<lparr>ram := a, kernel_pool := p\<rparr> = s\<lparr>kernel_pool := kp, user_pool := up, ram := m\<rparr>"
  "\<exists>kp up m. s\<lparr>ram := a, user_pool := p\<rparr> = s\<lparr>kernel_pool := kp, user_pool := up, ram := m\<rparr>"
  by (cases s; simp)+

lemma palloc_free_frame:
  assumes "palloc_free_multiple a c s = Some s'"
  shows "\<exists>kp up m. s' = s\<lparr>kernel_pool := kp, user_pool := up, ram := m\<rparr>"
proof (cases "a = 0 \<or> c = 0")
  case True
  then have "s' = s" using assms by (auto simp: palloc_free_multiple_def panic_simps)
  then show ?thesis using pools_updE(1) by metis
next
  case False
  then obtain p m where "s' = s\<lparr>ram := m, kernel_pool := p\<rparr> \<or> s' = s\<lparr>ram := m, user_pool := p\<rparr>"
    using assms by (auto simp: palloc_free_multiple_def panic_simps Let_def Option.bind_eq_Some_conv split: if_splits)
  then show ?thesis using pools_updE(2,3) by metis
qed

lemma freed_page:
  assumes "freed s F s'" "live_region s (p, 1)" "p \<notin> F"
  obtains s'' where "palloc_free_page p s' = Some s''" "freed s (insert p F) s''"
proof -
  have w: "pmem_wf s'" "geometry s' = geometry s" "used_pages s' = used_pages s - F" using assms(1) by (simp_all add: freed_def)
  have lv: "live_region s' (p, 1)"
    using assms(2,3) w by (intro live_region_mono [OF assms(2) w(2)]) (auto simp: live_region_def)
  obtain pid i where i: "p = base (pool_at s' pid) + PGSIZE * i" "i + 1 \<le> bit_cnt (used_map (pool_at s' pid))"
      "region p 1 \<subseteq> used_pages s'"
    using lv by (auto simp: live_region_def geometry_def)
  have "run_of (bm (used_map (pool_at s' pid))) i 1 True"
    using region_used_run [OF w(1) refl, of 1 i pid] i by simp
  then obtain s'' where s'': "palloc_free_multiple p 1 s' = Some s''" "pmem_wf s''" "geometry s'' = geometry s'"
      "used_pages s'' = used_pages s' - region p 1" "ram s'' = memset_words (ram s') p 0xcccccccc (PGSIZE * 1)"
    using palloc_free_eq(1) [OF w(1) _ i(2,1)] by auto
  obtain kp up m kp' up' m' where "s' = s\<lparr>kernel_pool := kp, user_pool := up, ram := m\<rparr>"
      "s'' = s'\<lparr>kernel_pool := kp', user_pool := up', ram := m'\<rparr>"
    using assms(1) palloc_free_frame [OF s''(1)] unfolding freed_def by blast
  then have "\<exists>kp up m. s'' = s\<lparr>kernel_pool := kp, user_pool := up, ram := m\<rparr>" by auto
  moreover have "ram s'' x = ram s x" if "\<forall>q \<in> insert p F. \<not> (q \<le> x \<and> x < q + PGSIZE)" for x
    using assms(1) that by (auto simp: freed_def s''(5) memset_words_def)
  ultimately have "freed s (insert p F) s''"
    using s'' w unfolding freed_def by (metis Diff_insert region_single One_nat_def)
  then show thesis using that s''(1) by (simp add: palloc_free_page_def)
qed

text \<open>A page that has not been freed keeps its words.\<close>

lemma freed_word:
  assumes "freed s F s'" "pmem_wf s" "\<And>p. p \<in> F \<Longrightarrow> live_region s (p, 1)" "q mod PGSIZE = 0" "q \<notin> F" "j < 1024"
  shows "ram s' (q + 4 * j) = ram s (q + 4 * j)"
proof -
  have "\<not> (p \<le> q + 4 * j \<and> q + 4 * j < p + PGSIZE)" if "p \<in> F" for p
  proof
    assume b: "p \<le> q + 4 * j \<and> q + 4 * j < p + PGSIZE"
    have m: "p mod PGSIZE = 0" using live_page(1) [OF assms(2,3)] that by blast
    have "(q + 4 * j) div PGSIZE = q div PGSIZE" using assms(4,6) by (simp add: div_add1_eq)
    moreover have "(q + 4 * j) div PGSIZE = p div PGSIZE"
      using b m by (metis div_nat_eqI div_mult_mod_eq add.right_neutral mult.commute mult_Suc add.commute)
    ultimately have "q = p" using m assms(4) by (metis div_mult_mod_eq)
    then show False using that assms(5) by simp
  qed
  then show ?thesis using assms(1) by (simp add: freed_def)
qed

lemma entry_page_live:
  assumes "pmem_wf s" "live_region s (entry_page e, 1)"
  shows "pte_get_page e = Some (entry_page e)"
  using live_page(2) [OF assms] by (auto simp: entry_page_def split: option.splits)

lemma table_loop:
  assumes "pmem_wf s" "\<And>p. p \<in> F \<Longrightarrow> live_region s (p, 1)" "freed s F s'" "pt mod PGSIZE = 0" "pt \<notin> F" "set js \<subseteq> {..<1024}"
    "\<And>p. p \<in> set (table_pages (ram s) pt js) \<Longrightarrow> live_region s (p, 1) \<and> p \<noteq> pt \<and> p \<notin> F" "distinct (table_pages (ram s) pt js)"
  shows "\<exists>s''. for_each js (\<lambda>j s. if ram s (pt + 4 * j) AND PTE_P \<noteq> 0
      then do { page \<leftarrow> pte_get_page (ram s (pt + 4 * j)); palloc_free_page page s } else Some s) s' = Some s''
    \<and> freed s (F \<union> set (table_pages (ram s) pt js)) s''"
  using assms(2-)
proof (induction js arbitrary: F s')
  case Nil
  then show ?case by (simp add: table_pages_def)
next
  case (Cons j js)
  have j: "j < 1024" "set js \<subseteq> {..<1024}" using Cons.prems(5) by simp_all
  have w: "ram s' (pt + 4 * j) = ram s (pt + 4 * j)"
    by (rule freed_word [OF Cons.prems(2) assms(1) Cons.prems(1,3,4) j(1)])
  show ?case
  proof (cases "ram s (pt + 4 * j) AND PTE_P = 0")
    case True
    then have t: "table_pages (ram s) pt (j # js) = table_pages (ram s) pt js" by (simp add: table_pages_def)
    show ?thesis
      using Cons.IH [OF Cons.prems(1-4) j(2)] Cons.prems(6,7) True w unfolding t by simp
  next
    case False
    define p where "p = entry_page (ram s (pt + 4 * j))"
    have t: "table_pages (ram s) pt (j # js) = p # table_pages (ram s) pt js" using False by (simp add: table_pages_def p_def)
    have p: "live_region s (p, 1)" "p \<noteq> pt" "p \<notin> F" using Cons.prems(6) [of p] unfolding t by simp_all
    obtain s1 where s1: "palloc_free_page p s' = Some s1" "freed s (insert p F) s1"
      by (rule freed_page [OF Cons.prems(2) p(1,3)])
    have "pte_get_page (ram s (pt + 4 * j)) = Some p" using entry_page_live [OF assms(1)] p(1) by (simp add: p_def)
    moreover obtain s2 where "for_each js (\<lambda>j s. if ram s (pt + 4 * j) AND PTE_P \<noteq> 0
        then do { page \<leftarrow> pte_get_page (ram s (pt + 4 * j)); palloc_free_page page s } else Some s) s1 = Some s2"
        "freed s (insert p F \<union> set (table_pages (ram s) pt js)) s2"
      using Cons.IH [of "insert p F" s1] Cons.prems p s1(2) j(2) unfolding t by auto
    ultimately show ?thesis using False w s1(1) unfolding t by auto
  qed
qed

lemma slot_loop:
  assumes "pmem_wf s" "\<And>p. p \<in> F \<Longrightarrow> live_region s (p, 1)" "freed s F s'" "pd mod PGSIZE = 0" "pd \<notin> F" "set is \<subseteq> {..<768}"
    "\<And>p. p \<in> set (slot_pages (ram s) pd is) \<Longrightarrow> live_region s (p, 1) \<and> p \<noteq> pd \<and> p \<notin> F" "distinct (slot_pages (ram s) pd is)"
  shows "\<exists>s''. for_each is (\<lambda>i s. if ram s (pd + 4 * i) AND PTE_P \<noteq> 0
      then do { pt \<leftarrow> pde_get_pt (ram s (pd + 4 * i)); s \<leftarrow> free_table_pages pt s; palloc_free_page pt s } else Some s) s' = Some s''
    \<and> freed s (F \<union> set (slot_pages (ram s) pd is)) s''"
  using assms(2-)
proof (induction "is" arbitrary: F s')
  case Nil
  then show ?case by (simp add: slot_pages_def)
next
  case (Cons i "is")
  have i: "i < 1024" "set is \<subseteq> {..<768}" using Cons.prems(5) by simp_all
  have w: "ram s' (pd + 4 * i) = ram s (pd + 4 * i)"
    by (rule freed_word [OF Cons.prems(2) assms(1) Cons.prems(1,3,4) i(1)])
  show ?case
  proof (cases "ram s (pd + 4 * i) AND PTE_P = 0")
    case True
    then have t: "slot_pages (ram s) pd (i # is) = slot_pages (ram s) pd is" by (simp add: slot_pages_def)
    show ?thesis
      using Cons.IH [OF Cons.prems(1-4) i(2)] Cons.prems(6,7) True w unfolding t by simp
  next
    case False
    define pt where "pt = entry_page (ram s (pd + 4 * i))"
    define T where "T = table_pages (ram s) pt [0..<1024]"
    have t: "slot_pages (ram s) pd (i # is) = T @ pt # slot_pages (ram s) pd is"
      using False by (simp add: slot_pages_def T_def pt_def Let_def)
    have pt: "live_region s (pt, 1)" "pt \<noteq> pd" "pt \<notin> F" using Cons.prems(6) [of pt] unfolding t by simp_all
    have lT: "live_region s (p, 1) \<and> p \<noteq> pt \<and> p \<notin> F" if "p \<in> set T" for p
      using Cons.prems(6) [of p] Cons.prems(7) that unfolding t by auto
    have dT: "distinct T" using Cons.prems(7) unfolding t by simp
    obtain s1 where s1: "free_table_pages pt s' = Some s1" "freed s (F \<union> set T) s1"
    proof -
      have "set [0..<1024] \<subseteq> {..<1024 :: nat}" by auto
      then show thesis
        using that table_loop [OF assms(1) Cons.prems(1,2) live_page(1) [OF assms(1) pt(1)] pt(3), of "[0..<1024]"] lT dT
        unfolding free_table_pages_def T_def by blast
    qed
    have "pt \<notin> F \<union> set T" using pt(3) lT by blast
    then obtain s2 where s2: "palloc_free_page pt s1 = Some s2" "freed s (insert pt (F \<union> set T)) s2"
      by (rule freed_page [OF s1(2) pt(1)])
    have "pde_get_pt (ram s (pd + 4 * i)) = Some pt"
      using entry_page_live [OF assms(1), of "ram s (pd + 4 * i)"] pt(1) False by (simp add: pt_def pde_get_pt_def pte_get_page_def)
    moreover obtain s3 where "for_each is (\<lambda>i s. if ram s (pd + 4 * i) AND PTE_P \<noteq> 0
      then do { pt \<leftarrow> pde_get_pt (ram s (pd + 4 * i)); s \<leftarrow> free_table_pages pt s; palloc_free_page pt s } else Some s) s2 = Some s3"
        "freed s (insert pt (F \<union> set T) \<union> set (slot_pages (ram s) pd is)) s3"
    proof -
      have "live_region s (p, 1) \<and> p \<noteq> pd \<and> p \<notin> insert pt (F \<union> set T)" if "p \<in> set (slot_pages (ram s) pd is)" for p
        using Cons.prems(6) [of p] Cons.prems(7) that unfolding t by auto
      moreover have "live_region s (p, 1)" if "p \<in> insert pt (F \<union> set T)" for p using that Cons.prems(1) pt(1) lT by auto
      moreover have "pd \<notin> insert pt (F \<union> set T)" using Cons.prems(4) Cons.prems(6) [of pd] unfolding t by auto
      ultimately show thesis
        using that Cons.IH [OF _ s2(2) Cons.prems(3) _ i(2)] Cons.prems(7) unfolding t by auto
    qed
    ultimately show ?thesis using False w s1(1) s2(1) unfolding t by (auto simp: Un_assoc)
  qed
qed

lemma pagedir_destroy_frees:
  assumes "pmem_wf s" "pd \<noteq> init_page_dir s" "distinct (dir_pages (ram s) pd)"
    "\<And>p. p \<in> set (dir_pages (ram s) pd) \<Longrightarrow> live_region s (p, 1)"
  obtains s' where "pagedir_destroy pd s = Some s'" "freed s (set (dir_pages (ram s) pd)) s'"
proof -
  have pd: "live_region s (pd, 1)" "pd \<notin> set (slot_pages (ram s) pd [0..<768])" using assms(3,4) by (simp_all add: dir_pages_def)
  have f: "freed s {} s" using assms(1) by (cases s) (simp add: freed_def)
  have "pd_no PHYS_BASE = 768" by (simp add: pd_no_eq)
  moreover obtain s1 where s1: "for_each [0..<768] (\<lambda>i s. if ram s (pd + 4 * i) AND PTE_P \<noteq> 0
      then do { pt \<leftarrow> pde_get_pt (ram s (pd + 4 * i)); s \<leftarrow> free_table_pages pt s; palloc_free_page pt s } else Some s) s = Some s1"
      "freed s ({} \<union> set (slot_pages (ram s) pd [0..<768])) s1"
  proof -
    have "set [0..<768] \<subseteq> {..<768 :: nat}" by auto
    moreover have "live_region s (p, 1) \<and> p \<noteq> pd \<and> p \<notin> {}" if "p \<in> set (slot_pages (ram s) pd [0..<768])" for p
      using assms(4) [of p] that pd(2) by (auto simp: dir_pages_def)
    moreover have "distinct (slot_pages (ram s) pd [0..<768])" using assms(3) by (simp add: dir_pages_def)
    ultimately show thesis
      using that slot_loop [OF assms(1) _ f live_page(1) [OF assms(1) pd(1)], of "[0..<768]"] by blast
  qed
  moreover obtain s2 where "palloc_free_page pd s1 = Some s2" "freed s (insert pd ({} \<union> set (slot_pages (ram s) pd [0..<768]))) s2"
    by (rule freed_page [OF s1(2) pd(1)]) (use pd(2) in simp)
  ultimately show thesis
    using assms(2) live_page(2) [OF assms(1) pd(1)] by (intro that [of s2]) (simp_all add: pagedir_destroy_def dir_pages_def)
qed

end
