(* ===== verification/Interrupt.thy ===== *)
theory Interrupt
  imports Pagedir
begin

text \<open>
  The interrupt system (\<^verbatim>\<open>threads/interrupt.c\<close>): the interrupt flag of the CPU, the state
  of external interrupt processing, the interrupt descriptor table and the table of
  handlers. Handlers and stubs are code addresses; the bytes written to the interrupt
  controllers are kept as a log of \<^verbatim>\<open>outb\<close> calls, oldest first.

  The dispatcher \<^verbatim>\<open>intr_handler\<close> ends with a call of the scheduler and is in theory
  \<^verbatim>\<open>Thread\<close>.
\<close>

datatype intr_level = INTR_OFF | INTR_ON

abbreviation (input) INTR_CNT :: nat where "INTR_CNT \<equiv> 256"
abbreviation (input) SEL_KCSEG :: u32 where "SEL_KCSEG \<equiv> 0x08"
abbreviation (input) PIC0_CTRL :: nat where "PIC0_CTRL \<equiv> 0x20"
abbreviation (input) PIC0_DATA :: nat where "PIC0_DATA \<equiv> 0x21"
abbreviation (input) PIC1_CTRL :: nat where "PIC1_CTRL \<equiv> 0xa0"
abbreviation (input) PIC1_DATA :: nat where "PIC1_DATA \<equiv> 0xa1"

record intr = mmu +
  level :: intr_level
  in_external_intr :: bool
  yield_on_return :: bool
  idt :: "nat \<Rightarrow> u64"
  idtr :: u64
  intr_handlers :: "nat \<Rightarrow> nat"
  intr_names :: "nat \<Rightarrow> string"
  unexpected_cnt :: "nat \<Rightarrow> nat"
  port_log :: "(nat \<times> nat) list"

section \<open>Interrupt level\<close>

definition intr_get_level :: "'a intr_scheme \<Rightarrow> intr_level" where
  "intr_get_level s = level s"

definition intr_context :: "'a intr_scheme \<Rightarrow> bool" where
  "intr_context s = in_external_intr s"

definition intr_enable :: "'a intr_scheme \<Rightarrow> (intr_level \<times> 'a intr_scheme) option" where
  "intr_enable s = do {
     let old_level = intr_get_level s;
     ASSERT (\<not> intr_context s);
     Some (old_level, s\<lparr>level := INTR_ON\<rparr>)
   }"

definition intr_disable :: "'a intr_scheme \<Rightarrow> intr_level \<times> 'a intr_scheme" where
  "intr_disable s = (intr_get_level s, s\<lparr>level := INTR_OFF\<rparr>)"

definition intr_set_level :: "intr_level \<Rightarrow> 'a intr_scheme \<Rightarrow> (intr_level \<times> 'a intr_scheme) option" where
  "intr_set_level l s = (if l = INTR_ON then intr_enable s else Some (intr_disable s))"

definition intr_yield_on_return :: "'a intr_scheme \<Rightarrow> 'a intr_scheme option" where
  "intr_yield_on_return s = do {
     ASSERT (intr_context s);
     Some (s\<lparr>yield_on_return := True\<rparr>)
   }"

section \<open>Programmable interrupt controllers\<close>

definition outb :: "nat \<Rightarrow> nat \<Rightarrow> 'a intr_scheme \<Rightarrow> 'a intr_scheme" where
  "outb port b s = s\<lparr>port_log := port_log s @ [(port, b)]\<rparr>"

definition pic_init :: "'a intr_scheme \<Rightarrow> 'a intr_scheme" where
  "pic_init s = fold (\<lambda>(port, b). outb port b)
     [(PIC0_DATA, 0xff), (PIC1_DATA, 0xff),
      (PIC0_CTRL, 0x11), (PIC0_DATA, 0x20), (PIC0_DATA, 0x04), (PIC0_DATA, 0x01),
      (PIC1_CTRL, 0x11), (PIC1_DATA, 0x28), (PIC1_DATA, 0x02), (PIC1_DATA, 0x01),
      (PIC0_DATA, 0x00), (PIC1_DATA, 0x00)] s"

definition pic_end_of_interrupt :: "nat \<Rightarrow> 'a intr_scheme \<Rightarrow> 'a intr_scheme option" where
  "pic_end_of_interrupt irq s = do {
     ASSERT (irq \<ge> 0x20 \<and> irq < 0x30);
     let s = outb 0x20 0x20 s;
     Some (if irq \<ge> 0x28 then outb 0xa0 0x20 s else s)
   }"

section \<open>Gates\<close>

definition make_gate :: "u32 \<Rightarrow> int \<Rightarrow> int \<Rightarrow> u64 option" where
  "make_gate function dpl type = do {
     ASSERT (function \<noteq> 0);
     ASSERT (dpl \<ge> 0 \<and> dpl \<le> 3);
     ASSERT (type \<ge> 0 \<and> type \<le> 15);
     let e0 = (function AND 0xffff) OR push_bit 16 SEL_KCSEG;
     let e1 = (function AND 0xffff0000) OR push_bit 15 1 OR push_bit 13 (of_int dpl) OR
       push_bit 12 0 OR push_bit 8 (of_int type);
     Some (ucast e0 OR push_bit 32 (ucast e1))
   }"

definition make_intr_gate :: "u32 \<Rightarrow> int \<Rightarrow> u64 option" where
  "make_intr_gate function dpl = make_gate function dpl 14"

definition make_trap_gate :: "u32 \<Rightarrow> int \<Rightarrow> u64 option" where
  "make_trap_gate function dpl = make_gate function dpl 15"

definition make_idtr_operand :: "u16 \<Rightarrow> u32 \<Rightarrow> u64" where
  "make_idtr_operand limit b = ucast limit OR push_bit 16 (ucast b)"

section \<open>Registration of handlers\<close>

definition register_handler ::
  "(nat \<Rightarrow> u32) \<Rightarrow> nat \<Rightarrow> int \<Rightarrow> intr_level \<Rightarrow> nat \<Rightarrow> string \<Rightarrow> 'a intr_scheme \<Rightarrow> 'a intr_scheme option" where
  "register_handler intr_stubs vec_no dpl l handler nm s = do {
     ASSERT (intr_handlers s vec_no = 0);
     g \<leftarrow> (if l = INTR_ON then make_trap_gate (intr_stubs vec_no) dpl
          else make_intr_gate (intr_stubs vec_no) dpl);
     Some (s\<lparr>idt := (idt s)(vec_no := g), intr_handlers := (intr_handlers s)(vec_no := handler),
       intr_names := (intr_names s)(vec_no := nm)\<rparr>)
   }"

definition intr_register_ext ::
  "(nat \<Rightarrow> u32) \<Rightarrow> nat \<Rightarrow> nat \<Rightarrow> string \<Rightarrow> 'a intr_scheme \<Rightarrow> 'a intr_scheme option" where
  "intr_register_ext intr_stubs vec_no handler nm s = do {
     ASSERT (vec_no \<ge> 0x20 \<and> vec_no \<le> 0x2f);
     register_handler intr_stubs vec_no 0 INTR_OFF handler nm s
   }"

definition intr_clear_int :: "nat \<Rightarrow> 'a intr_scheme \<Rightarrow> 'a intr_scheme option" where
  "intr_clear_int vec_no s = do {
     ASSERT (vec_no < 0x20 \<or> vec_no > 0x2f);
     Some (s\<lparr>intr_handlers := (intr_handlers s)(vec_no := 0)\<rparr>)
   }"

definition intr_bypass_int :: "nat \<Rightarrow> nat \<Rightarrow> 'a intr_scheme \<Rightarrow> (nat \<times> 'a intr_scheme) option" where
  "intr_bypass_int vec_no handler s = do {
     ASSERT (vec_no < 0x20 \<or> vec_no > 0x2f);
     ASSERT (intr_handlers s vec_no \<noteq> 0);
     Some (intr_handlers s vec_no, s\<lparr>intr_handlers := (intr_handlers s)(vec_no := handler)\<rparr>)
   }"

definition intr_register_int ::
  "(nat \<Rightarrow> u32) \<Rightarrow> nat \<Rightarrow> int \<Rightarrow> intr_level \<Rightarrow> nat \<Rightarrow> string \<Rightarrow> 'a intr_scheme \<Rightarrow> 'a intr_scheme option" where
  "intr_register_int intr_stubs vec_no dpl l handler nm s = do {
     ASSERT (vec_no < 0x20 \<or> vec_no > 0x2f);
     register_handler intr_stubs vec_no dpl l handler nm s
   }"

text \<open>The names of the CPU exceptions, by vector; vector 15 keeps the default name.\<close>

definition exception_names :: "(nat \<times> string) list" where
  "exception_names =
     [(0, ''#DE Divide Error''), (1, ''#DB Debug Exception''), (2, ''NMI Interrupt''),
      (3, ''#BP Breakpoint Exception''), (4, ''#OF Overflow Exception''),
      (5, ''#BR BOUND Range Exceeded Exception''), (6, ''#UD Invalid Opcode Exception''),
      (7, ''#NM Device Not Available Exception''), (8, ''#DF Double Fault Exception''),
      (9, ''Coprocessor Segment Overrun''), (10, ''#TS Invalid TSS Exception''),
      (11, ''#NP Segment Not Present''), (12, ''#SS Stack Fault Exception''),
      (13, ''#GP General Protection Exception''), (14, ''#PF Page-Fault Exception''),
      (16, ''#MF x87 FPU Floating-Point Error''), (17, ''#AC Alignment Check Exception''),
      (18, ''#MC Machine-Check Exception''), (19, ''#XF SIMD Floating-Point Exception'')]"

definition intr_init :: "(nat \<Rightarrow> u32) \<Rightarrow> u32 \<Rightarrow> 'a intr_scheme \<Rightarrow> 'a intr_scheme option" where
  "intr_init intr_stubs idt_addr s = do {
     let s = pic_init s;
     s \<leftarrow> for_each [0..<INTR_CNT] (\<lambda>i s. do {
         g \<leftarrow> make_intr_gate (intr_stubs i) 0;
         Some (s\<lparr>idt := (idt s)(i := g)\<rparr>) }) s;
     let s = s\<lparr>idtr := make_idtr_operand (8 * 256 - 1) idt_addr\<rparr>;
     let s = fold (\<lambda>i s. s\<lparr>intr_names := (intr_names s)(i := ''unknown'')\<rparr>) [0..<INTR_CNT] s;
     Some (fold (\<lambda>(i, n) s. s\<lparr>intr_names := (intr_names s)(i := n)\<rparr>) exception_names s)
   }"

definition intr_name :: "nat \<Rightarrow> 'a intr_scheme \<Rightarrow> string" where
  "intr_name vec s = intr_names s vec"

text \<open>A counter that wraps at the width of \<^verbatim>\<open>unsigned int\<close>; the result tells whether the message
  is printed.\<close>

definition unexpected_interrupt :: "nat \<Rightarrow> 'a intr_scheme \<Rightarrow> bool \<times> 'a intr_scheme" where
  "unexpected_interrupt vec_no s =
     (let n = (unexpected_cnt s vec_no + 1) mod 2 ^ 32
      in (n AND ((n + 2 ^ 32 - 1) mod 2 ^ 32) = 0,
          s\<lparr>unexpected_cnt := (unexpected_cnt s)(vec_no := n)\<rparr>))"

section \<open>What the level operations do\<close>

lemma intr_disable_simps [simp]: "intr_disable s = (level s, s\<lparr>level := INTR_OFF\<rparr>)"
  by (simp add: intr_disable_def intr_get_level_def)

lemma intr_enable_eq [simp]: "\<not> in_external_intr s \<Longrightarrow> intr_enable s = Some (level s, s\<lparr>level := INTR_ON\<rparr>)"
  by (simp add: intr_enable_def intr_get_level_def intr_context_def)

lemma intr_set_level_eq [simp]:
  "\<not> in_external_intr s \<or> l = INTR_OFF \<Longrightarrow> intr_set_level l s = Some (level s, s\<lparr>level := l\<rparr>)"
  by (cases l) (auto simp: intr_set_level_def)

lemma intr_set_level_None: "intr_set_level l s = None \<longleftrightarrow> in_external_intr s \<and> l = INTR_ON"
  by (cases l) (auto simp: intr_set_level_def intr_enable_def intr_context_def panic_simps)

text \<open>The fields of a gate as the processor decodes them.\<close>

definition gate_offset :: "u64 \<Rightarrow> u32" where
  "gate_offset g = ucast (g AND 0xffff) OR ucast (drop_bit 32 g AND 0xffff0000)"
definition gate_selector :: "u64 \<Rightarrow> u32" where
  "gate_selector g = ucast (drop_bit 16 g AND 0xffff)"
definition gate_present :: "u64 \<Rightarrow> bool" where
  "gate_present g = bit g 47"
definition gate_dpl :: "u64 \<Rightarrow> int" where
  "gate_dpl g = uint (drop_bit 45 g AND 3)"
definition gate_type :: "u64 \<Rightarrow> int" where
  "gate_type g = uint (drop_bit 40 g AND 31)"

lemma small_int_cases: "0 \<le> (x :: int) \<Longrightarrow> x \<le> 3 \<Longrightarrow> x = 0 \<or> x = 1 \<or> x = 2 \<or> x = 3"
  by arith

lemma gate_masks:
  fixes w :: "'b::len word"
  shows "w AND 0xffff = take_bit 16 w" "w AND 0xffff0000 = take_bit 32 (push_bit 16 (drop_bit 16 w))"
    "w AND 3 = take_bit 2 w" "w AND 15 = take_bit 4 w" "w AND 31 = take_bit 5 w"
proof -
  have "(0xffff :: 'b word) = 2 ^ 16 - 1" "(3 :: 'b word) = 2 ^ 2 - 1" "(15 :: 'b word) = 2 ^ 4 - 1"
    "(31 :: 'b word) = 2 ^ 5 - 1" by simp_all
  then show "w AND 0xffff = take_bit 16 w" "w AND 3 = take_bit 2 w" "w AND 15 = take_bit 4 w"
    "w AND 31 = take_bit 5 w" by (simp_all only: take_bit_eq_mask mask_eq_exp_minus_1)
  have "(0xffff0000 :: 'b word) = push_bit 16 (2 ^ 16 - 1)" by (simp add: push_bit_eq_mult)
  then have m: "(0xffff0000 :: 'b word) = push_bit 16 (mask 16)" by (simp only: mask_eq_exp_minus_1)
  show "w AND 0xffff0000 = take_bit 32 (push_bit 16 (drop_bit 16 w))"
    unfolding m by (rule bit_word_eqI) (auto simp del: mask_numeral simp: bit_simps)
qed

lemma gate_constants:
  "bit (push_bit 16 (8 :: u32)) n \<longleftrightarrow> n = 19" "bit (push_bit 15 (1 :: u32)) n \<longleftrightarrow> n = 15"
  "bit (8 :: int) n \<longleftrightarrow> n = 3"
proof -
  have e: "bit (2 ^ k :: u32) n \<longleftrightarrow> n = k" if "k < 32" for k
    using that by (auto simp: bit_exp_iff)
  have c: "push_bit 16 (8 :: u32) = 2 ^ 19" "push_bit 15 (1 :: u32) = 2 ^ 15" "(8 :: int) = 2 ^ 3" by simp_all
  show "bit (push_bit 16 (8 :: u32)) n \<longleftrightarrow> n = 19" by (subst c(1), rule e) simp
  show "bit (push_bit 15 (1 :: u32)) n \<longleftrightarrow> n = 15" by (subst c(2), rule e) simp
  show "bit (8 :: int) n \<longleftrightarrow> n = 3" by (subst c(3)) (auto simp only: bit_exp_iff possible_bit_int)
qed

lemma make_gate_word:
  fixes f d t sel pre :: u32
  assumes "take_bit 2 d = d" "take_bit 4 t = t" and k: "\<And>n. bit sel n \<longleftrightarrow> n = 19" "\<And>n. bit pre n \<longleftrightarrow> n = 15"
  defines "e0 \<equiv> (f AND 0xffff) OR sel"
  defines "e1 \<equiv> (f AND 0xffff0000) OR pre OR push_bit 13 d OR push_bit 12 0 OR push_bit 8 t"
  defines "g \<equiv> (ucast e0 OR push_bit 32 (ucast e1) :: u64)"
  shows "gate_offset g = f" "gate_selector g = 8" "gate_present g"
    "drop_bit 45 g AND 3 = ucast d" "drop_bit 40 g AND 31 = ucast t"
proof -
  have d: "bit d n \<Longrightarrow> n < 2" for n
    using arg_cong [OF assms(1), of "\<lambda>w. bit w n"] by (simp add: bit_take_bit_iff)
  have t: "bit t n \<Longrightarrow> n < 4" for n
    using arg_cong [OF assms(2), of "\<lambda>w. bit w n"] by (simp add: bit_take_bit_iff)
  note defs = g_def e0_def e1_def gate_offset_def gate_selector_def gate_present_def gate_masks
  show "gate_offset g = f"
    unfolding defs by (rule bit_word_eqI) (auto simp: bit_simps k gate_constants(3) dest: d t)
  show "gate_selector g = 8"
    unfolding defs by (rule bit_word_eqI) (auto simp: bit_simps k gate_constants(3) dest: d t)
  show "gate_present g"
    unfolding defs by (auto simp: bit_simps k gate_constants(3) dest: d t)
  show "drop_bit 45 g AND 3 = ucast d"
    unfolding defs by (rule bit_word_eqI) (auto simp: bit_simps k gate_constants(3) dest: d t)
  show "drop_bit 40 g AND 31 = ucast t"
    unfolding defs by (rule bit_word_eqI) (auto simp: bit_simps k gate_constants(3) dest: d t)
qed

lemma take_bit_of_int: "0 \<le> x \<Longrightarrow> x < 2 ^ n \<Longrightarrow> take_bit n (of_int x :: u32) = of_int x"
  by (metis of_int_take_bit take_bit_int_eq_self)

lemma uint_ucast_of_int:
  assumes "0 \<le> x" "x < 2 ^ 32"
  shows "uint (ucast (of_int x :: u32) :: u64) = x"
  using assms by (simp add: uint_word_of_int unsigned_ucast_eq take_bit_int_eq_self take_bit_eq_mod)

text \<open>Every gate built decodes to the stub, the kernel code segment, the privilege level and the
  type it was built from.\<close>

lemma make_gate_decode:
  assumes "f \<noteq> 0" "0 \<le> dpl" "dpl \<le> 3" "0 \<le> ty" "ty \<le> 15"
  obtains g where "make_gate f dpl ty = Some g" "gate_offset g = f" "gate_selector g = 8" "gate_present g"
    "gate_dpl g = dpl" "gate_type g = ty"
proof -
  have d: "take_bit 2 (of_int dpl :: u32) = of_int dpl" "take_bit 4 (of_int ty :: u32) = of_int ty"
    using assms by (auto intro!: take_bit_of_int)
  note w = make_gate_word [OF d gate_constants(1,2), of f]
  have u: "uint (ucast (of_int dpl :: u32) :: u64) = dpl" "uint (ucast (of_int ty :: u32) :: u64) = ty"
    using assms by (auto intro!: uint_ucast_of_int)
  obtain g where g: "make_gate f dpl ty = Some g" "g = ucast ((f AND 0xffff) OR push_bit 16 0x08) OR
      push_bit 32 (ucast ((f AND 0xffff0000) OR push_bit 15 1 OR push_bit 13 (of_int dpl) OR
        push_bit 12 0 OR push_bit 8 (of_int ty)))"
    unfolding make_gate_def using assms by (simp only: ASSERT_bind_if Let_def simp_thms if_True option.inject)
  show thesis
    by (rule that [OF g(1)]) (use w u in \<open>unfold g(2) gate_dpl_def gate_type_def, simp_all only:\<close>)
qed

lemma make_gate_fails: "make_gate f dpl ty = None \<longleftrightarrow> f = 0 \<or> dpl < 0 \<or> 3 < dpl \<or> ty < 0 \<or> 15 < ty"
  by (auto simp: make_gate_def panic_simps Let_def)

text \<open>C17: Registering a handler for a CPU exception or system call vector installs it: the
  descriptor of the vector decodes to the stub of the vector with the requested privilege level
  and is a trap gate exactly if the handler runs with interrupts on; all other vectors keep their
  handler and descriptor; the vector cannot be registered a second time, and no external
  interrupt vector can be registered this way.\<close>

theorem intr_register_int_correct:
  assumes "intr_stubs v \<noteq> 0" "0 \<le> dpl" "dpl \<le> 3" "intr_handlers s v = 0" "handler \<noteq> 0"
  shows "if 0x20 \<le> v \<and> v \<le> 0x2f then intr_register_int intr_stubs v dpl l handler nm s = None
    else \<exists>s'. intr_register_int intr_stubs v dpl l handler nm s = Some s' \<and>
      intr_handlers s' = (intr_handlers s)(v := handler) \<and> (\<forall>w. w \<noteq> v \<longrightarrow> idt s' w = idt s w) \<and>
      gate_offset (idt s' v) = intr_stubs v \<and> gate_selector (idt s' v) = SEL_KCSEG \<and>
      gate_present (idt s' v) \<and> gate_dpl (idt s' v) = dpl \<and>
      gate_type (idt s' v) = (if l = INTR_ON then 15 else 14) \<and> intr_name v s' = nm \<and>
      intr_register_int intr_stubs v dpl l handler nm s' = None"
proof -
  obtain g where g: "make_gate (intr_stubs v) dpl (if l = INTR_ON then 15 else 14) = Some g"
    "gate_offset g = intr_stubs v" "gate_selector g = 8" "gate_present g" "gate_dpl g = dpl"
    "gate_type g = (if l = INTR_ON then 15 else 14)"
    by (rule make_gate_decode [OF assms(1-3), of "if l = INTR_ON then 15 else 14"]) simp_all
  have e: "(if l = INTR_ON then make_trap_gate (intr_stubs v) dpl else make_intr_gate (intr_stubs v) dpl) = Some g"
    using g(1) by (simp add: make_trap_gate_def make_intr_gate_def split: if_splits)
  show ?thesis
    using assms(4,5) e g(2-) by (auto simp: intr_register_int_def register_handler_def intr_name_def not_less)
qed

definition demo_intr :: intr where
  "demo_intr = mmu.extend demo_mmu \<lparr>level = INTR_ON, in_external_intr = False, yield_on_return = False,
     idt = (\<lambda>_. 0), idtr = 0, intr_handlers = (\<lambda>_. 0), intr_names = (\<lambda>_. []), unexpected_cnt = (\<lambda>_. 0),
     port_log = []\<rparr>"

theorem intr_register_int_correct_witness:
  "\<exists>s'. intr_register_int (\<lambda>v. 0xc0020000 + of_nat v) 0x30 3 INTR_ON 0xc0030000 ''syscall'' demo_intr = Some s' \<and>
     gate_type (idt s' 0x30) = 15 \<and> gate_dpl (idt s' 0x30) = 3"
  using intr_register_int_correct [where intr_stubs = "\<lambda>v. 0xc0020000 + of_nat v" and v = "0x30" and dpl = 3 and
    s = demo_intr and handler = "0xc0030000" and l = INTR_ON and nm = "''syscall''"]
  by (auto simp: demo_intr_def mmu.defs)

end
