(* ===== verification/Thread.thy ===== *)
theory Thread
  imports Interrupt
begin

text \<open>
  Kernel threads and the scheduler (\<^verbatim>\<open>threads/thread.c\<close>, \<^verbatim>\<open>threads/thread.h\<close>), with
  \<^verbatim>\<open>process_activate\<close>, \<^verbatim>\<open>tss_update\<close> and the interrupt dispatcher \<^verbatim>\<open>intr_handler\<close>, which are
  part of every thread switch.

  A thread is the address of the page that holds its \<^verbatim>\<open>struct thread\<close>; the kernel state maps
  these addresses to the structures. The run queue and the list of all threads are the
  element sequences that \<^verbatim>\<open>list.c\<close> implements. The stack pointer of the CPU is represented by
  the thread page it points into.

  \<^verbatim>\<open>schedule\<close> ends in the context of the thread switched to, with interrupts off. What
  follows a call of \<^verbatim>\<open>schedule\<close> in the source is executed later, when the calling thread is
  switched to again: \<open>thread_yield\<close> therefore also returns the interrupt level that the caller
  restores when it resumes.
\<close>

datatype thread_status = THREAD_RUNNING | THREAD_READY | THREAD_BLOCKED | THREAD_DYING

abbreviation (input) THREAD_MAGIC :: nat where "THREAD_MAGIC \<equiv> 0xcd6abf4b"
abbreviation (input) TID_ERROR :: int where "TID_ERROR \<equiv> - 1"
abbreviation (input) PRI_MIN :: int where "PRI_MIN \<equiv> 0"
abbreviation (input) PRI_DEFAULT :: int where "PRI_DEFAULT \<equiv> 31"
abbreviation (input) PRI_MAX :: int where "PRI_MAX \<equiv> 63"
abbreviation (input) TIME_SLICE :: nat where "TIME_SLICE \<equiv> 4"

record thread =
  tid :: int
  status :: thread_status
  name :: string
  stack :: nat
  priority :: int
  pagedir :: nat
  next_fd :: int
  file_descriptors :: "(int \<times> nat) list"
  waiting :: bool
  child_relations :: "nat list"
  parent_relation :: nat
  thread_sleep_time :: int
  magic :: nat

record kernel = intr +
  threads :: "nat \<rightharpoonup> thread"
  cur :: nat
  ready_list :: "nat list"
  all_list :: "nat list"
  idle_thread :: nat
  initial_thread :: nat
  next_tid :: int
  idle_ticks :: nat
  kernel_ticks :: nat
  user_ticks :: nat
  thread_ticks :: nat
  thread_create_limit :: int
  tss :: nat
  tss_esp0 :: nat

text \<open>Update of one thread structure.\<close>

definition upd_thread :: "nat \<Rightarrow> (thread \<Rightarrow> thread) \<Rightarrow> 'a kernel_scheme \<Rightarrow> 'a kernel_scheme" where
  "upd_thread t f k = k\<lparr>threads := (threads k)(t := map_option f (threads k t))\<rparr>"

section \<open>The running thread\<close>

definition running_thread :: "'a kernel_scheme \<Rightarrow> nat" where
  "running_thread k = cur k"

definition is_thread :: "nat \<Rightarrow> 'a kernel_scheme \<Rightarrow> bool" where
  "is_thread t k \<longleftrightarrow> t \<noteq> 0 \<and> (case threads k t of None \<Rightarrow> False | Some th \<Rightarrow> magic th = THREAD_MAGIC)"

definition thread_current :: "'a kernel_scheme \<Rightarrow> nat option" where
  "thread_current k = do {
     let t = running_thread k;
     ASSERT (is_thread t k);
     th \<leftarrow> threads k t;
     ASSERT (status th = THREAD_RUNNING);
     Some t
   }"

definition thread_name :: "'a kernel_scheme \<Rightarrow> string option" where
  "thread_name k = do { t \<leftarrow> thread_current k; th \<leftarrow> threads k t; Some (name th) }"

definition thread_tid :: "'a kernel_scheme \<Rightarrow> int option" where
  "thread_tid k = do { t \<leftarrow> thread_current k; th \<leftarrow> threads k t; Some (tid th) }"

definition thread_set_priority :: "int \<Rightarrow> 'a kernel_scheme \<Rightarrow> 'a kernel_scheme option" where
  "thread_set_priority new_priority k = do {
     t \<leftarrow> thread_current k;
     Some (upd_thread t (\<lambda>th. th\<lparr>priority := new_priority\<rparr>) k)
   }"

definition thread_get_priority :: "'a kernel_scheme \<Rightarrow> int option" where
  "thread_get_priority k = do { t \<leftarrow> thread_current k; th \<leftarrow> threads k t; Some (priority th) }"

text \<open>The scheduling parameters that are not implemented.\<close>

definition thread_set_nice :: "int \<Rightarrow> 'a kernel_scheme \<Rightarrow> 'a kernel_scheme" where
  "thread_set_nice nice k = k"
definition thread_get_nice :: "'a kernel_scheme \<Rightarrow> int" where
  "thread_get_nice k = 0"
definition thread_get_load_avg :: "'a kernel_scheme \<Rightarrow> int" where
  "thread_get_load_avg k = 0"
definition thread_get_recent_cpu :: "'a kernel_scheme \<Rightarrow> int" where
  "thread_get_recent_cpu k = 0"

definition thread_foreach ::
  "(nat \<Rightarrow> 'a kernel_scheme \<Rightarrow> 'a kernel_scheme option) \<Rightarrow> 'a kernel_scheme \<Rightarrow> 'a kernel_scheme option" where
  "thread_foreach func k = do {
     ASSERT (intr_get_level k = INTR_OFF);
     for_each (all_list k) func k
   }"

section \<open>Thread switching\<close>

definition tss_update :: "'a kernel_scheme \<Rightarrow> 'a kernel_scheme option" where
  "tss_update k = do {
     ASSERT (tss k \<noteq> 0);
     t \<leftarrow> thread_current k;
     Some (k\<lparr>tss_esp0 := (t + PGSIZE) mod 2 ^ 32\<rparr>)
   }"

definition process_activate :: "'a kernel_scheme \<Rightarrow> 'a kernel_scheme option" where
  "process_activate k = do {
     t \<leftarrow> thread_current k;
     th \<leftarrow> threads k t;
     k \<leftarrow> pagedir_activate (pagedir th) k;
     tss_update k
   }"

definition next_thread_to_run :: "'a kernel_scheme \<Rightarrow> nat \<times> 'a kernel_scheme" where
  "next_thread_to_run k =
     (case ready_list k of [] \<Rightarrow> (idle_thread k, k) | t # ts \<Rightarrow> (t, k\<lparr>ready_list := ts\<rparr>))"

text \<open>\<^verbatim>\<open>switch_threads\<close> of \<^verbatim>\<open>switch.S\<close>: it returns the thread switched from, in the context of the
  thread switched to.\<close>

definition switch_threads :: "nat \<Rightarrow> nat \<Rightarrow> 'a kernel_scheme \<Rightarrow> nat \<times> 'a kernel_scheme" where
  "switch_threads c n k = (c, k\<lparr>cur := n\<rparr>)"

definition thread_schedule_tail :: "nat \<Rightarrow> 'a kernel_scheme \<Rightarrow> 'a kernel_scheme option" where
  "thread_schedule_tail prev k = do {
     let c = running_thread k;
     ASSERT (intr_get_level k = INTR_OFF);
     let k = upd_thread c (\<lambda>th. th\<lparr>status := THREAD_RUNNING\<rparr>) k;
     let k = k\<lparr>thread_ticks := 0\<rparr>;
     k \<leftarrow> process_activate k;
     if prev = 0 then Some k
     else do {
       th \<leftarrow> threads k prev;
       if status th = THREAD_DYING \<and> prev \<noteq> initial_thread k then do {
         ASSERT (prev \<noteq> c);
         k \<leftarrow> palloc_free_page prev k;
         Some (k\<lparr>threads := (threads k)(prev := None)\<rparr>)
       } else Some k
     }
   }"

definition schedule :: "'a kernel_scheme \<Rightarrow> 'a kernel_scheme option" where
  "schedule k = do {
     let c = running_thread k;
     let (n, k) = next_thread_to_run k;
     ASSERT (intr_get_level k = INTR_OFF);
     th \<leftarrow> threads k c;
     ASSERT (status th \<noteq> THREAD_RUNNING);
     ASSERT (is_thread n k);
     let (prev, k) = (if c \<noteq> n then switch_threads c n k else (0, k));
     thread_schedule_tail prev k
   }"

definition thread_block :: "'a kernel_scheme \<Rightarrow> 'a kernel_scheme option" where
  "thread_block k = do {
     ASSERT (\<not> intr_context k);
     ASSERT (intr_get_level k = INTR_OFF);
     t \<leftarrow> thread_current k;
     schedule (upd_thread t (\<lambda>th. th\<lparr>status := THREAD_BLOCKED\<rparr>) k)
   }"

definition thread_unblock :: "nat \<Rightarrow> 'a kernel_scheme \<Rightarrow> 'a kernel_scheme option" where
  "thread_unblock t k = do {
     ASSERT (is_thread t k);
     let (old_level, k) = intr_disable k;
     th \<leftarrow> threads k t;
     ASSERT (status th = THREAD_BLOCKED);
     let k = k\<lparr>ready_list := ready_list k @ [t]\<rparr>;
     let k = upd_thread t (\<lambda>th. th\<lparr>status := THREAD_READY\<rparr>) k;
     (_, k) \<leftarrow> intr_set_level old_level k;
     Some k
   }"

definition thread_yield :: "'a kernel_scheme \<Rightarrow> (intr_level \<times> 'a kernel_scheme) option" where
  "thread_yield k = do {
     c \<leftarrow> thread_current k;
     ASSERT (\<not> intr_context k);
     let (old_level, k) = intr_disable k;
     let k = (if c \<noteq> idle_thread k then k\<lparr>ready_list := ready_list k @ [c]\<rparr> else k);
     let k = upd_thread c (\<lambda>th. th\<lparr>status := THREAD_READY\<rparr>) k;
     k \<leftarrow> schedule k;
     Some (old_level, k)
   }"

text \<open>\<^verbatim>\<open>thread_exit\<close> calls \<^verbatim>\<open>process_exit\<close>, which can block and be preempted. The code after that call,
  from \<^verbatim>\<open>intr_disable\<close> on, is \<open>thread_exit_finish\<close>. \<^verbatim>\<open>process_exit\<close> is built on the scheduler and
  modelled above it; it is an argument here, whose result \<open>False\<close> means that the caller is blocked
  inside it and another thread runs.\<close>

definition thread_exit_finish :: "'a kernel_scheme \<Rightarrow> 'a kernel_scheme option" where
  "thread_exit_finish k = do {
     let (_, k) = intr_disable k;
     t \<leftarrow> thread_current k;
     let k = k\<lparr>all_list := remove1 t (all_list k)\<rparr>;
     t \<leftarrow> thread_current k;
     let k = upd_thread t (\<lambda>th. th\<lparr>status := THREAD_DYING\<rparr>) k;
     schedule k
   }"

definition thread_exit ::
  "('a kernel_scheme \<Rightarrow> (bool \<times> 'a kernel_scheme) option) \<Rightarrow> 'a kernel_scheme \<Rightarrow> (bool \<times> 'a kernel_scheme) option" where
  "thread_exit process_exit k = do {
     ASSERT (\<not> intr_context k);
     (returned, k) \<leftarrow> process_exit k;
     if returned then do { k \<leftarrow> thread_exit_finish k; Some (True, k) } else Some (False, k)
   }"

section \<open>Creating threads\<close>

text \<open>The effect of \<^verbatim>\<open>strlcpy\<close> into \<^verbatim>\<open>name\<close> and of the first call of \<^verbatim>\<open>strtok_r\<close> on it: at most
  15 characters, cut after the first word; leading spaces stay.\<close>

definition first_word :: "string \<Rightarrow> string" where
  "first_word s = (let s = take 15 s; sp = takeWhile (\<lambda>c. c = CHR '' '') s
     in sp @ takeWhile (\<lambda>c. c \<noteq> CHR '' '') (drop (length sp) s))"

definition init_thread :: "nat \<Rightarrow> string \<Rightarrow> int \<Rightarrow> 'a kernel_scheme \<Rightarrow> 'a kernel_scheme option" where
  "init_thread t nm pri k = do {
     ASSERT (t \<noteq> 0);
     ASSERT (PRI_MIN \<le> pri \<and> pri \<le> PRI_MAX);
     let th = \<lparr>tid = 0, status = THREAD_BLOCKED, name = first_word nm, stack = (t + PGSIZE) mod 2 ^ 32, priority = pri,
       pagedir = 0, next_fd = 2, file_descriptors = [], waiting = False, child_relations = [],
       parent_relation = 0, thread_sleep_time = 0, magic = THREAD_MAGIC\<rparr>;
     let k = k\<lparr>threads := (threads k)(t := Some th)\<rparr>;
     let (old_level, k) = intr_disable k;
     let k = k\<lparr>all_list := all_list k @ [t]\<rparr>;
     (_, k) \<leftarrow> intr_set_level old_level k;
     Some k
   }"

text \<open>\<^verbatim>\<open>tid_lock\<close> is held only inside this function; the function is one step. The counter is an
  \<^verbatim>\<open>int\<close> and wraps at its width.\<close>

definition int_wrap :: "int \<Rightarrow> int" where
  "int_wrap x = (x + 2 ^ 31) mod 2 ^ 32 - 2 ^ 31"

definition allocate_tid :: "'a kernel_scheme \<Rightarrow> int \<times> 'a kernel_scheme" where
  "allocate_tid k = (next_tid k, k\<lparr>next_tid := int_wrap (next_tid k + 1)\<rparr>)"

definition alloc_frame :: "nat \<Rightarrow> nat \<Rightarrow> 'a kernel_scheme \<Rightarrow> (nat \<times> 'a kernel_scheme) option" where
  "alloc_frame t sz k = do {
     ASSERT (is_thread t k);
     ASSERT (sz mod 4 = 0);
     th \<leftarrow> threads k t;
     let sp = (stack th + 2 ^ 32 - sz) mod 2 ^ 32;
     Some (sp, upd_thread t (\<lambda>th. th\<lparr>stack := sp\<rparr>) k)
   }"

definition DEBUG_thread_create_simulate_fail :: "'a kernel_scheme \<Rightarrow> bool \<times> 'a kernel_scheme" where
  "DEBUG_thread_create_simulate_fail k =
     (if thread_create_limit k = 0 then (False, k)
      else let l = int_wrap (thread_create_limit k - 1) in (l = 0, k\<lparr>thread_create_limit := l\<rparr>))"

definition thread_init :: "'a kernel_scheme \<Rightarrow> 'a kernel_scheme option" where
  "thread_init k = do {
     ASSERT (intr_get_level k = INTR_OFF);
     let k = k\<lparr>ready_list := [], all_list := []\<rparr>;
     let k = k\<lparr>initial_thread := running_thread k\<rparr>;
     k \<leftarrow> init_thread (initial_thread k) ''main'' PRI_DEFAULT k;
     let k = upd_thread (initial_thread k) (\<lambda>th. th\<lparr>status := THREAD_RUNNING\<rparr>) k;
     let (i, k) = allocate_tid k;
     Some (upd_thread (initial_thread k) (\<lambda>th. th\<lparr>tid := i\<rparr>) k)
   }"

text \<open>The code addresses of \<^verbatim>\<open>kernel_thread\<close> and \<^verbatim>\<open>switch_entry\<close> are arguments. The frames are
  written to memory, at the offsets of their structures (\<^verbatim>\<open>switch.h\<close>).\<close>

definition thread_create ::
  "nat \<Rightarrow> nat \<Rightarrow> string \<Rightarrow> int \<Rightarrow> nat \<Rightarrow> nat \<Rightarrow> 'a kernel_scheme \<Rightarrow> (int \<times> 'a kernel_scheme) option" where
  "thread_create kernel_thread switch_entry nm pri function aux k = do {
     ASSERT (function \<noteq> 0);
     let (fails, k) = DEBUG_thread_create_simulate_fail k;
     if fails then Some (TID_ERROR, k)
     else do {
       (t, k) \<leftarrow> palloc_get_page PAL_ZERO k;
       if t = 0 then Some (TID_ERROR, k)
       else do {
         k \<leftarrow> init_thread t nm pri k;
         let (i, k) = allocate_tid k;
         let k = upd_thread t (\<lambda>th. th\<lparr>tid := i\<rparr>) k;
         (kf, k) \<leftarrow> alloc_frame t 12 k;
         let k = store (kf + 8) aux (store (kf + 4) function (store kf 0 k));
         (ef, k) \<leftarrow> alloc_frame t 4 k;
         let k = store ef kernel_thread k;
         (sf, k) \<leftarrow> alloc_frame t 32 k;
         let k = store (sf + 12) 0 (store (sf + 20) switch_entry k);
         k \<leftarrow> thread_unblock t k;
         Some (i, k)
       }
     }
   }"

section \<open>Timer ticks and external interrupts\<close>

definition thread_tick :: "'a kernel_scheme \<Rightarrow> 'a kernel_scheme option" where
  "thread_tick k = do {
     t \<leftarrow> thread_current k;
     th \<leftarrow> threads k t;
     let k = (if t = idle_thread k then k\<lparr>idle_ticks := idle_ticks k + 1\<rparr>
       else if pagedir th \<noteq> 0 then k\<lparr>user_ticks := user_ticks k + 1\<rparr>
       else k\<lparr>kernel_ticks := kernel_ticks k + 1\<rparr>);
     let k = k\<lparr>thread_ticks := (thread_ticks k + 1) mod 2 ^ 32\<rparr>;
     if thread_ticks k \<ge> TIME_SLICE then intr_yield_on_return k else Some k
   }"

text \<open>\<open>call h\<close> is the effect of the handler at address \<open>h\<close>. The result tells whether the
  interrupted thread has been preempted.\<close>

definition intr_handler ::
  "(nat \<Rightarrow> 'a kernel_scheme \<Rightarrow> 'a kernel_scheme option) \<Rightarrow> nat \<Rightarrow> 'a kernel_scheme \<Rightarrow>
   (bool \<times> 'a kernel_scheme) option" where
  "intr_handler call vec_no k = do {
     let external = (vec_no \<ge> 0x20 \<and> vec_no < 0x30);
     k \<leftarrow> (if external then do {
         ASSERT (intr_get_level k = INTR_OFF);
         ASSERT (\<not> intr_context k);
         Some (k\<lparr>in_external_intr := True, yield_on_return := False\<rparr>)
       } else Some k);
     let handler = intr_handlers k vec_no;
     k \<leftarrow> (if handler \<noteq> 0 then call handler k
          else if vec_no = 0x27 \<or> vec_no = 0x2f then Some k
          else Some (snd (unexpected_interrupt vec_no k)));
     if external then do {
       ASSERT (intr_get_level k = INTR_OFF);
       ASSERT (intr_context k);
       k \<leftarrow> pic_end_of_interrupt vec_no (k\<lparr>in_external_intr := False\<rparr>);
       if yield_on_return k then do { (_, k) \<leftarrow> thread_yield k; Some (True, k) } else Some (False, k)
     } else Some (False, k)
   }"

section \<open>The scheduler invariant\<close>

definition st :: "'a kernel_scheme \<Rightarrow> nat \<Rightarrow> thread_status option" where
  "st k t = map_option status (threads k t)"

text \<open>What holds at any time, also in the middle of a switch: every thread structure is intact and
  in a page of its own; the run queue holds exactly the ready threads other than the idle
  thread, each once; the list of all threads holds exactly the threads that are not dying; thread
  identifiers are distinct and below the counter.\<close>

definition thread_ok :: "'a kernel_scheme \<Rightarrow> nat \<Rightarrow> thread \<Rightarrow> bool" where
  "thread_ok k t th \<longleftrightarrow> t \<noteq> 0 \<and> magic th = THREAD_MAGIC \<and>
     (pagedir th = 0 \<or> is_kernel_vaddr (pagedir th)) \<and> (t \<noteq> initial_thread k \<longrightarrow> live_region k (t, 1)) \<and>
     0 < tid th \<and> tid th < next_tid k"

definition sched_wf :: "'a kernel_scheme \<Rightarrow> bool" where
  "sched_wf k \<longleftrightarrow> mmu_wf k \<and> is_kernel_vaddr (init_page_dir k) \<and> tss k \<noteq> 0 \<and>
     initial_thread k \<notin> pool_pages (kernel_pool k) \<and>
     (\<forall>t th. threads k t = Some th \<longrightarrow> thread_ok k t th) \<and>
     (\<forall>t u th uh. threads k t = Some th \<longrightarrow> threads k u = Some uh \<longrightarrow> tid th = tid uh \<longrightarrow> t = u) \<and>
     distinct (ready_list k) \<and>
     (\<forall>t. t \<in> set (ready_list k) \<longleftrightarrow> t \<noteq> idle_thread k \<and> st k t = Some THREAD_READY) \<and>
     distinct (all_list k) \<and>
     (\<forall>t. t \<in> set (all_list k) \<longleftrightarrow> st k t \<noteq> None \<and> st k t \<noteq> Some THREAD_DYING) \<and>
     (idle_thread k \<noteq> 0 \<longrightarrow> st k (idle_thread k) \<noteq> None \<and> st k (idle_thread k) \<noteq> Some THREAD_DYING)"

text \<open>Outside a switch exactly one thread is running, and no dying thread is left over except
  perhaps the initial one, whose page does not belong to the allocator.\<close>

definition sched_inv :: "'a kernel_scheme \<Rightarrow> bool" where
  "sched_inv k \<longleftrightarrow> sched_wf k \<and> (\<forall>t. st k t = Some THREAD_RUNNING \<longleftrightarrow> t = cur k) \<and>
     (\<forall>t. st k t = Some THREAD_DYING \<longrightarrow> t = initial_thread k)"

text \<open>Just before a switch the running thread has been given another state.\<close>

definition switch_pre :: "'a kernel_scheme \<Rightarrow> bool" where
  "switch_pre k \<longleftrightarrow> sched_wf k \<and> (\<forall>t. st k t \<noteq> Some THREAD_RUNNING) \<and> st k (cur k) \<noteq> None \<and>
     (\<forall>t. st k t = Some THREAD_DYING \<longrightarrow> t = initial_thread k \<or> t = cur k) \<and> level k = INTR_OFF"

text \<open>There is a thread to switch to as soon as the idle thread has been started.\<close>

definition can_switch :: "'a kernel_scheme \<Rightarrow> bool" where
  "can_switch k \<longleftrightarrow> ready_list k \<noteq> [] \<or> idle_thread k \<noteq> 0"

definition next_of :: "'a kernel_scheme \<Rightarrow> nat" where
  "next_of k = fst (next_thread_to_run k)"

text \<open>The thread structures without their state: what a switch leaves alone.\<close>

definition core :: "'a kernel_scheme \<Rightarrow> nat \<Rightarrow> thread option" where
  "core k t = map_option (\<lambda>th. th\<lparr>status := THREAD_RUNNING\<rparr>) (threads k t)"

lemma core_set [simp]: "core (upd_thread t (\<lambda>th. th\<lparr>status := s\<rparr>) k) = core k"
  by (auto simp: core_def upd_thread_def fun_eq_iff option.map_comp comp_def)

lemma sched_wfD:
  assumes "sched_wf k"
  shows "mmu_wf k" "is_kernel_vaddr (init_page_dir k)" "tss k \<noteq> 0" "initial_thread k \<notin> pool_pages (kernel_pool k)"
    "\<And>t th. threads k t = Some th \<Longrightarrow> thread_ok k t th"
    "\<And>t u th uh. threads k t = Some th \<Longrightarrow> threads k u = Some uh \<Longrightarrow> tid th = tid uh \<Longrightarrow> t = u"
    "distinct (ready_list k)" "\<And>t. t \<in> set (ready_list k) \<longleftrightarrow> t \<noteq> idle_thread k \<and> st k t = Some THREAD_READY"
    "distinct (all_list k)" "\<And>t. t \<in> set (all_list k) \<longleftrightarrow> st k t \<noteq> None \<and> st k t \<noteq> Some THREAD_DYING"
    "idle_thread k \<noteq> 0 \<Longrightarrow> st k (idle_thread k) \<noteq> None"
    "idle_thread k \<noteq> 0 \<Longrightarrow> st k (idle_thread k) \<noteq> Some THREAD_DYING"
proof -
  note w = assms [unfolded sched_wf_def]
  show "mmu_wf k" "is_kernel_vaddr (init_page_dir k)" "tss k \<noteq> 0" "initial_thread k \<notin> pool_pages (kernel_pool k)"
    "distinct (ready_list k)" "distinct (all_list k)" by (insert w, elim conjE, assumption)+
  show "threads k t = Some th \<Longrightarrow> thread_ok k t th" for t th
    using w by (elim conjE) iprover
  show "threads k t = Some th \<Longrightarrow> threads k u = Some uh \<Longrightarrow> tid th = tid uh \<Longrightarrow> t = u" for t u th uh
    using w by (elim conjE) iprover
  show "t \<in> set (ready_list k) \<longleftrightarrow> t \<noteq> idle_thread k \<and> st k t = Some THREAD_READY" for t
    using w by (elim conjE) metis
  show "t \<in> set (all_list k) \<longleftrightarrow> st k t \<noteq> None \<and> st k t \<noteq> Some THREAD_DYING" for t
    using w by (elim conjE) metis
  show "idle_thread k \<noteq> 0 \<Longrightarrow> st k (idle_thread k) \<noteq> None"
    "idle_thread k \<noteq> 0 \<Longrightarrow> st k (idle_thread k) \<noteq> Some THREAD_DYING"
    by (insert w, elim conjE, iprover)+
qed

lemma st_upd: "st (upd_thread u f k) t = (if t = u then map_option (\<lambda>th. status (f th)) (threads k t) else st k t)"
  by (simp add: st_def upd_thread_def option.map_comp comp_def)

lemma upd_thread_frame [simp]:
  "cur (upd_thread u f k) = cur k" "ready_list (upd_thread u f k) = ready_list k"
  "all_list (upd_thread u f k) = all_list k" "idle_thread (upd_thread u f k) = idle_thread k"
  "initial_thread (upd_thread u f k) = initial_thread k" "level (upd_thread u f k) = level k"
  "in_external_intr (upd_thread u f k) = in_external_intr k"
  "threads (upd_thread u f k) = (threads k)(u := map_option f (threads k u))"
  "kernel_pool (upd_thread u f k) = kernel_pool k" "user_pool (upd_thread u f k) = user_pool k"
  "ram (upd_thread u f k) = ram k" "init_page_dir (upd_thread u f k) = init_page_dir k"
  "tss (upd_thread u f k) = tss k" "next_tid (upd_thread u f k) = next_tid k"
  "kernel.more (upd_thread u f k) = kernel.more k"
  by (simp_all add: upd_thread_def)

text \<open>The parts of the memory state the invariant looks at.\<close>

lemma used_pages_cong:
  assumes "kernel_pool s = kernel_pool s'" "user_pool s = user_pool s'"
  shows "used_pages s = used_pages s'" "geometry s = geometry s'" "mmu_wf s = mmu_wf s'"
    "live_region s = live_region s'"
proof -
  have p: "pool_at s i = pool_at s' i" for i using assms by (cases i) simp_all
  then show g: "geometry s = geometry s'" by (simp add: geometry_def fun_eq_iff)
  show u: "used_pages s = used_pages s'" using assms by (simp add: used_pages_def)
  show "mmu_wf s = mmu_wf s'" using assms by (simp add: mmu_wf_def pmem_wf_def)
  show "live_region s = live_region s'" unfolding live_region_def u g ..
qed

lemma sched_wf_cong:
  assumes "kernel_pool k = kernel_pool k'" "user_pool k = user_pool k'" "init_page_dir k = init_page_dir k'"
    "tss k = 0 \<longleftrightarrow> tss k' = 0" "initial_thread k = initial_thread k'" "threads k = threads k'"
    "next_tid k = next_tid k'" "ready_list k = ready_list k'" "all_list k = all_list k'"
    "idle_thread k = idle_thread k'"
  shows "sched_wf k = sched_wf k'"
proof -
  have "st k = st k'" using assms by (simp add: st_def fun_eq_iff)
  then show ?thesis using assms used_pages_cong [OF assms(1,2)] by (simp add: sched_wf_def thread_ok_def)
qed

lemma sched_inv_cong:
  assumes "kernel_pool k = kernel_pool k'" "user_pool k = user_pool k'" "init_page_dir k = init_page_dir k'"
    "tss k = 0 \<longleftrightarrow> tss k' = 0" "initial_thread k = initial_thread k'" "threads k = threads k'"
    "next_tid k = next_tid k'" "ready_list k = ready_list k'" "all_list k = all_list k'"
    "idle_thread k = idle_thread k'" "cur k = cur k'"
  shows "sched_inv k = sched_inv k'"
proof -
  have "st k = st k'" using assms by (simp add: st_def fun_eq_iff)
  then show ?thesis using assms sched_wf_cong [OF assms(1-10)] by (simp add: sched_inv_def)
qed

lemma sched_inv_level [simp]: "sched_inv (k\<lparr>level := l\<rparr>) = sched_inv k"
  by (rule sched_inv_cong) simp_all

lemma sched_thread:
  assumes "sched_wf k" "st k t = Some s"
  obtains th where "threads k t = Some th" "status th = s" "thread_ok k t th" "is_thread t k"
  using assms by (auto simp: sched_wf_def st_def is_thread_def thread_ok_def)

lemma thread_current_eq [simp]: "sched_inv k \<Longrightarrow> thread_current k = Some (cur k)"
proof -
  assume "sched_inv k"
  then have "sched_wf k" "st k (cur k) = Some THREAD_RUNNING" by (simp_all add: sched_inv_def)
  then obtain th where "threads k (cur k) = Some th" "status th = THREAD_RUNNING" "is_thread (cur k) k"
    by (rule sched_thread) simp
  then show ?thesis by (simp add: thread_current_def running_thread_def)
qed

lemma next_of_thread:
  assumes "sched_wf k" "can_switch k"
  obtains s where "st k (next_of k) = Some s" "s \<noteq> THREAD_DYING" "s = THREAD_READY \<or> next_of k = idle_thread k"
proof (cases "ready_list k")
  case Nil
  then have "next_of k = idle_thread k" "idle_thread k \<noteq> 0"
    using assms(2) by (simp_all add: next_of_def next_thread_to_run_def can_switch_def)
  then show ?thesis using that assms(1) by (auto simp: sched_wf_def)
next
  case (Cons t ts)
  then have "next_of k = t" "t \<in> set (ready_list k)" by (simp_all add: next_of_def next_thread_to_run_def)
  then show ?thesis using that [of THREAD_READY] assms(1) by (auto simp: sched_wf_def)
qed

section \<open>Switching keeps the invariant\<close>

lemma palloc_get_frame:
  assumes "palloc_get_multiple flags c s = Some (a, s')"
  shows "\<exists>kp up m. s' = s\<lparr>kernel_pool := kp, user_pool := up, ram := m\<rparr>"
proof (cases "c = 0")
  case True
  then show ?thesis using assms pools_updE(1) [of s] by (simp add: palloc_get_multiple_def)
next
  case False
  have "\<exists>p m. s' = s\<lparr>kernel_pool := p\<rparr> \<or> s' = s\<lparr>user_pool := p\<rparr> \<or>
      s' = s\<lparr>kernel_pool := p, ram := m\<rparr> \<or> s' = s\<lparr>user_pool := p, ram := m\<rparr>"
    using assms False
    by (cases "pool_for flags") (auto simp: palloc_get_multiple_def panic_simps Let_def Option.bind_eq_Some_conv split: if_splits)
  then show ?thesis by (elim exE disjE; cases s; simp)
qed

lemma palloc_free_page_ok:
  assumes "mmu_wf k" "live_region k (t, 1)"
  obtains kp up m where "palloc_free_page t k = Some (k\<lparr>kernel_pool := kp, user_pool := up, ram := m\<rparr>)"
    "mmu_wf (k\<lparr>kernel_pool := kp, user_pool := up, ram := m\<rparr>)"
    "geometry (k\<lparr>kernel_pool := kp, user_pool := up, ram := m\<rparr>) = geometry k"
    "used_pages (k\<lparr>kernel_pool := kp, user_pool := up, ram := m\<rparr>) = used_pages k - {t}"
    "pool_pages kp = pool_pages (kernel_pool k)"
proof -
  have wf: "pmem_wf k" using assms(1) by (simp add: mmu_wf_def)
  obtain s' where s: "palloc_free_multiple t 1 k = Some s'" "pmem_wf s'" "geometry s' = geometry k"
    "used_pages s' = used_pages k - region t 1"
    by (rule live_region_free [OF wf assms(2)])
  obtain kp up m where f: "s' = k\<lparr>kernel_pool := kp, user_pool := up, ram := m\<rparr>"
    using palloc_free_frame [OF s(1)] by blast
  have g: "geometry s' KernelPool = geometry k KernelPool" using s(3) by simp
  define k' where "k' = k\<lparr>kernel_pool := kp, user_pool := up, ram := m\<rparr>"
  have "palloc_free_page t k = Some k'" using s(1) f by (simp add: palloc_free_page_def k'_def)
  moreover have "mmu_wf k'"
    using s(2) assms(1) g unfolding f by (simp add: mmu_wf_def geometry_def k'_def)
  moreover have "geometry k' = geometry k" "used_pages k' = used_pages k - {t}"
    using s(3,4) unfolding f k'_def by simp_all
  moreover have "pool_pages kp = pool_pages (kernel_pool k)" using g unfolding f by (simp add: geometry_def pool_pages_def)
  ultimately show thesis unfolding k'_def by (rule that)
qed

text \<open>The state after a switch to \<open>n\<close>: the switched-to thread runs with a fresh time slice and its
  address space active, and a dying thread is gone.\<close>

definition threads_after :: "'a kernel_scheme \<Rightarrow> nat \<Rightarrow> nat \<rightharpoonup> thread" where
  "threads_after k n = (\<lambda>t. if t = n then map_option (\<lambda>th. th\<lparr>status := THREAD_RUNNING\<rparr>) (threads k n)
     else if t = cur k \<and> st k t = Some THREAD_DYING \<and> t \<noteq> initial_thread k then None else threads k t)"

lemma next_thread_to_run_eq: "next_thread_to_run k = (next_of k, k\<lparr>ready_list := tl (ready_list k)\<rparr>)"
  by (cases k) (simp add: next_of_def next_thread_to_run_def split: list.split)

lemma process_activate_eq:
  assumes "thread_current k = Some t" "threads k t = Some th" "tss k \<noteq> 0"
    "is_kernel_vaddr (init_page_dir k)" "pagedir th = 0 \<or> is_kernel_vaddr (pagedir th)"
  shows "\<exists>c. process_activate k = Some (k\<lparr>cr3 := c, tlb_flushes := tlb_flushes k + 1, tss_esp0 := (t + PGSIZE) mod 2 ^ 32\<rparr>)"
proof -
  obtain p where p: "vtop (if pagedir th = 0 then init_page_dir k else pagedir th) = Some p"
    using assms(4,5) by (cases "pagedir th = 0") (auto simp: vtop_def)
  have "thread_current (k\<lparr>cr3 := p, tlb_flushes := tlb_flushes k + 1\<rparr>) = Some t"
    using assms(1) by (simp add: thread_current_def running_thread_def is_thread_def)
  then show ?thesis using assms p
    by (intro exI [of _ p]) (simp add: process_activate_def pagedir_activate_def tss_update_def)
qed

lemma schedule_eq:
  assumes pre: "switch_pre k" and more: "can_switch k"
  obtains kp up m c where
    "schedule k = Some (k\<lparr>kernel_pool := kp, user_pool := up, ram := m, cr3 := c, tlb_flushes := tlb_flushes k + 1,
       threads := threads_after k (next_of k), cur := next_of k, ready_list := tl (ready_list k),
       thread_ticks := 0, tss_esp0 := (next_of k + PGSIZE) mod 2 ^ 32\<rparr>)"
    "mmu_wf (k\<lparr>kernel_pool := kp, user_pool := up, ram := m\<rparr>)"
    "geometry (k\<lparr>kernel_pool := kp, user_pool := up, ram := m\<rparr>) = geometry k"
    "used_pages (k\<lparr>kernel_pool := kp, user_pool := up, ram := m\<rparr>) =
       used_pages k - {t. t = cur k \<and> st k t = Some THREAD_DYING \<and> t \<noteq> initial_thread k}"
    "pool_pages kp = pool_pages (kernel_pool k)"
proof -
  define n where "n = next_of k"
  define c where "c = cur k"
  define k1 where "k1 = k\<lparr>cur := n, ready_list := tl (ready_list k)\<rparr>"
  define k3 where "k3 = (upd_thread n (\<lambda>th. th\<lparr>status := THREAD_RUNNING\<rparr>) k1)\<lparr>thread_ticks := 0\<rparr>"
  have wf: "sched_wf k" "level k = INTR_OFF" using pre by (simp_all add: switch_pre_def)
  obtain cs where "st k c = Some cs" "cs \<noteq> THREAD_RUNNING" using pre by (auto simp: switch_pre_def c_def)
  then obtain ch where ch: "threads k c = Some ch" "status ch \<noteq> THREAD_RUNNING" "thread_ok k c ch"
    by (rule_tac sched_thread [OF wf(1)]) auto
  obtain s where s: "st k n = Some s" "s \<noteq> THREAD_DYING"
    unfolding n_def by (rule next_of_thread [OF wf(1) more])
  then obtain nh where nh: "threads k n = Some nh" "status nh = s" "thread_ok k n nh" "is_thread n k"
    by (rule_tac sched_thread [OF wf(1)])
  have k1: "(let (prev, k) = (if c \<noteq> n then switch_threads c n (k\<lparr>ready_list := tl (ready_list k)\<rparr>)
      else (0, k\<lparr>ready_list := tl (ready_list k)\<rparr>)) in thread_schedule_tail prev k) =
      thread_schedule_tail (if c \<noteq> n then c else 0) k1"
    by (cases k) (simp add: switch_threads_def k1_def c_def)
  have sched: "schedule k = thread_schedule_tail (if c \<noteq> n then c else 0) k1"
    unfolding schedule_def next_thread_to_run_eq n_def [symmetric] running_thread_def c_def [symmetric] k1 [symmetric]
    using ch nh wf by (simp add: intr_get_level_def is_thread_def)
  have tc: "thread_current k3 = Some n"
    using nh by (simp add: thread_current_def running_thread_def is_thread_def k3_def k1_def thread_ok_def)
  obtain p where act: "process_activate k3 = Some (k3\<lparr>cr3 := p, tlb_flushes := tlb_flushes k3 + 1, tss_esp0 := (n + PGSIZE) mod 2 ^ 32\<rparr>)"
    using process_activate_eq [OF tc, of "nh\<lparr>status := THREAD_RUNNING\<rparr>"] nh wf(1)
    by (auto simp: k3_def k1_def sched_wf_def thread_ok_def)
  define k4 where "k4 = k3\<lparr>cr3 := p, tlb_flushes := tlb_flushes k3 + 1, tss_esp0 := (n + PGSIZE) mod 2 ^ 32\<rparr>"
  have f4: "kernel_pool k4 = kernel_pool k" "user_pool k4 = user_pool k"
    by (simp_all add: k4_def k3_def k1_def)
  have "c \<noteq> 0" using ch by (simp add: thread_ok_def)
  moreover have "level k1 = INTR_OFF" "running_thread k1 = n"
    using wf by (simp_all add: k1_def running_thread_def)
  ultimately have tail: "schedule k = (if c \<noteq> n \<and> status ch = THREAD_DYING \<and> c \<noteq> initial_thread k then do {
      k \<leftarrow> palloc_free_page c k4; Some (k\<lparr>threads := (threads k)(c := None)\<rparr>) } else Some k4)"
    unfolding sched thread_schedule_tail_def Let_def using ch
    by (simp add: intr_get_level_def k3_def [symmetric] act k4_def [symmetric])
      (simp add: k4_def k3_def k1_def)
  show thesis
  proof (cases "status ch = THREAD_DYING \<and> c \<noteq> initial_thread k")
    case True
    then have cn: "c \<noteq> n" using ch s nh by auto
    have "mmu_wf k4" "live_region k4 (c, 1)"
      using wf(1) ch True used_pages_cong [OF f4] by (simp_all add: sched_wf_def thread_ok_def)
    then obtain kp up m where f: "palloc_free_page c k4 = Some (k4\<lparr>kernel_pool := kp, user_pool := up, ram := m\<rparr>)"
        "mmu_wf (k4\<lparr>kernel_pool := kp, user_pool := up, ram := m\<rparr>)"
        "geometry (k4\<lparr>kernel_pool := kp, user_pool := up, ram := m\<rparr>) = geometry k4"
        "used_pages (k4\<lparr>kernel_pool := kp, user_pool := up, ram := m\<rparr>) = used_pages k4 - {c}"
        "pool_pages kp = pool_pages (kernel_pool k4)"
      by (rule palloc_free_page_ok)
    define kk where "kk = k\<lparr>kernel_pool := kp, user_pool := up, ram := m\<rparr>"
    have cong: "kernel_pool (k4\<lparr>kernel_pool := kp, user_pool := up, ram := m\<rparr>) = kernel_pool kk"
      "user_pool (k4\<lparr>kernel_pool := kp, user_pool := up, ram := m\<rparr>) = user_pool kk" by (simp_all add: kk_def)
    have T: "threads_after k n = (threads k)(n := map_option (\<lambda>th. th\<lparr>status := THREAD_RUNNING\<rparr>) (threads k n), c := None)"
      using True cn ch by (auto simp: threads_after_def st_def c_def)
    have "schedule k = Some (k\<lparr>kernel_pool := kp, user_pool := up, ram := m, cr3 := p, tlb_flushes := tlb_flushes k + 1,
       threads := threads_after k n, cur := n, ready_list := tl (ready_list k), thread_ticks := 0, tss_esp0 := (n + PGSIZE) mod 2 ^ 32\<rparr>)"
      unfolding tail using True cn f(1) T by (simp add: k4_def k3_def k1_def upd_thread_def)
    moreover have "{t. t = cur k \<and> st k t = Some THREAD_DYING \<and> t \<noteq> initial_thread k} = {c}"
      using True ch by (auto simp: c_def st_def)
    ultimately show thesis
      using that [of p m up kp] f(2-5) used_pages_cong [OF f4] used_pages_cong [OF cong] f4
      unfolding kk_def n_def by simp
  next
    case False
    have T: "threads_after k n = (threads k)(n := map_option (\<lambda>th. th\<lparr>status := THREAD_RUNNING\<rparr>) (threads k n))"
      using False ch by (auto simp: threads_after_def st_def c_def fun_eq_iff)
    have "schedule k = Some (k\<lparr>kernel_pool := kernel_pool k, user_pool := user_pool k, ram := ram k, cr3 := p,
       tlb_flushes := tlb_flushes k + 1, threads := threads_after k n, cur := n, ready_list := tl (ready_list k),
       thread_ticks := 0, tss_esp0 := (n + PGSIZE) mod 2 ^ 32\<rparr>)"
      unfolding tail using False T by (cases k) (auto simp: k4_def k3_def k1_def upd_thread_def)
    moreover have "used_pages k = used_pages k - {t. t = cur k \<and> st k t = Some THREAD_DYING \<and> t \<noteq> initial_thread k}"
      using False ch by (auto simp: c_def st_def)
    moreover have "k\<lparr>kernel_pool := kernel_pool k, user_pool := user_pool k, ram := ram k\<rparr> = k" by (cases k) simp
    moreover have "mmu_wf k" using wf(1) by (simp add: sched_wf_def)
    ultimately show thesis
      using that [of p "ram k" "user_pool k" "kernel_pool k"] unfolding n_def by metis
  qed
qed

lemma st_after:
  "st (k\<lparr>threads := threads_after k n\<rparr>) t = (if t = n then map_option (\<lambda>_. THREAD_RUNNING) (st k n)
     else if t = cur k \<and> st k t = Some THREAD_DYING \<and> t \<noteq> initial_thread k then None else st k t)"
  by (cases "threads k t"; cases "t = n") (auto simp: threads_after_def st_def)

text \<open>How the state after a switch depends on the state before it.\<close>

definition switched :: "'a kernel_scheme \<Rightarrow> 'a kernel_scheme \<Rightarrow> bool" where
  "switched k k' \<longleftrightarrow> cur k' = next_of k \<and> level k' = INTR_OFF \<and> ready_list k' = tl (ready_list k) \<and>
     idle_thread k' = idle_thread k \<and> in_external_intr k' = in_external_intr k \<and>
     initial_thread k' = initial_thread k \<and> all_list k' = all_list k \<and> next_tid k' = next_tid k \<and>
     kernel.more k' = kernel.more k \<and> thread_ticks k' = 0 \<and>
     (\<forall>t. core k' t = (if t = cur k \<and> st k t = Some THREAD_DYING \<and> t \<noteq> initial_thread k then None else core k t)) \<and>
     (\<forall>t. st k' t = (if t = next_of k then Some THREAD_RUNNING
       else if t = cur k \<and> st k t = Some THREAD_DYING \<and> t \<noteq> initial_thread k then None else st k t))"

text \<open>A switch re-establishes the invariant.\<close>

lemma schedule_inv:
  assumes pre: "switch_pre k" and more: "can_switch k"
  obtains k' where "schedule k = Some k'" "sched_inv k'" "switched k k'"
proof -
  define n where "n = next_of k"
  obtain kp up m c where s:
    "schedule k = Some (k\<lparr>kernel_pool := kp, user_pool := up, ram := m, cr3 := c, tlb_flushes := tlb_flushes k + 1,
       threads := threads_after k n, cur := n, ready_list := tl (ready_list k),
       thread_ticks := 0, tss_esp0 := (n + PGSIZE) mod 2 ^ 32\<rparr>)"
    and mem: "mmu_wf (k\<lparr>kernel_pool := kp, user_pool := up, ram := m\<rparr>)"
    "geometry (k\<lparr>kernel_pool := kp, user_pool := up, ram := m\<rparr>) = geometry k"
    "used_pages (k\<lparr>kernel_pool := kp, user_pool := up, ram := m\<rparr>) =
       used_pages k - {t. t = cur k \<and> st k t = Some THREAD_DYING \<and> t \<noteq> initial_thread k}"
    "pool_pages kp = pool_pages (kernel_pool k)"
    unfolding n_def by (rule schedule_eq [OF pre more])
  define k' where "k' = k\<lparr>kernel_pool := kp, user_pool := up, ram := m, cr3 := c, tlb_flushes := tlb_flushes k + 1,
       threads := threads_after k n, cur := n, ready_list := tl (ready_list k),
       thread_ticks := 0, tss_esp0 := (n + PGSIZE) mod 2 ^ 32\<rparr>"
  have wf: "sched_wf k" using pre by (simp add: switch_pre_def)
  obtain ns where ns: "st k n = Some ns" "ns \<noteq> THREAD_DYING" "ns = THREAD_READY \<or> n = idle_thread k"
    unfolding n_def by (rule next_of_thread [OF wf more])
  have pools: "kernel_pool k' = kernel_pool (k\<lparr>kernel_pool := kp, user_pool := up, ram := m\<rparr>)"
    "user_pool k' = user_pool (k\<lparr>kernel_pool := kp, user_pool := up, ram := m\<rparr>)" by (simp_all add: k'_def)
  have st': "st k' t = (if t = n then Some THREAD_RUNNING
       else if t = cur k \<and> st k t = Some THREAD_DYING \<and> t \<noteq> initial_thread k then None else st k t)" for t
  proof -
    have "st k' t = st (k\<lparr>threads := threads_after k n\<rparr>) t" by (simp add: k'_def st_def)
    then show ?thesis using st_after [of k n t] ns by simp
  qed
  have core': "core k' t = (if t = cur k \<and> st k t = Some THREAD_DYING \<and> t \<noteq> initial_thread k then None else core k t)" for t
    using ns by (cases "threads k t"; cases "t = n") (auto simp: k'_def core_def threads_after_def st_def)
  have rl: "n # tl (ready_list k) = ready_list k \<or> tl (ready_list k) = ready_list k \<and> n = idle_thread k"
    by (cases "ready_list k") (simp_all add: n_def next_of_def next_thread_to_run_def)
  have dying: "st k t = Some THREAD_DYING \<Longrightarrow> t = initial_thread k \<or> t = cur k" for t
    using pre by (simp add: switch_pre_def)
  have old: "\<exists>th'. threads k t = Some th' \<and> magic th = magic th' \<and> pagedir th = pagedir th' \<and> tid th = tid th' \<and>
      \<not> (t = cur k \<and> st k t = Some THREAD_DYING \<and> t \<noteq> initial_thread k)" if "threads k' t = Some th" for t th
    using that ns by (cases "t = n"; cases "threads k t") (auto simp: k'_def threads_after_def st_def split: if_splits)
  have ok: "thread_ok k' t th" if asm: "threads k' t = Some th" for t th
  proof -
    obtain th' where th': "threads k t = Some th'" "magic th = magic th'" "pagedir th = pagedir th'" "tid th = tid th'"
        "\<not> (t = cur k \<and> st k t = Some THREAD_DYING \<and> t \<noteq> initial_thread k)" using old [OF asm] by blast
    then have o: "thread_ok k t th'" using wf by (simp add: sched_wf_def)
    then have "live_region k' (t, 1)" if "t \<noteq> initial_thread k"
      using that th'(5) live_region_mono [of k t 1 k'] used_pages_cong [OF pools] mem(2,3)
      by (auto simp: thread_ok_def live_region_def)
    then show ?thesis using o th' by (simp add: thread_ok_def k'_def)
  qed
  have inj: "t = u" if "threads k' t = Some th" "threads k' u = Some uh" "tid th = tid uh" for t u th uh
    using old [OF that(1)] old [OF that(2)] wf that(3) unfolding sched_wf_def by metis
  have "sched_wf k'"
    unfolding sched_wf_def
  proof (intro conjI allI impI)
    show "mmu_wf k'" using used_pages_cong [OF pools] mem(1) by simp
    show "is_kernel_vaddr (init_page_dir k')" "tss k' \<noteq> 0" "initial_thread k' \<notin> pool_pages (kernel_pool k')"
      using wf mem(4) by (simp_all add: sched_wf_def k'_def)
    show "distinct (ready_list k')" "distinct (all_list k')"
      using wf by (simp_all add: sched_wf_def k'_def distinct_tl)
    show "t \<in> set (ready_list k') \<longleftrightarrow> t \<noteq> idle_thread k' \<and> st k' t = Some THREAD_READY" for t
    proof -
      have "t \<in> set (tl (ready_list k)) \<longleftrightarrow> t \<in> set (ready_list k) \<and> t \<noteq> n"
        using rl wf by (cases "ready_list k") (auto simp: sched_wf_def n_def next_of_def next_thread_to_run_def)
      then show ?thesis using wf st' [of t] by (auto simp: sched_wf_def k'_def)
    qed
    show "t \<in> set (all_list k') \<longleftrightarrow> st k' t \<noteq> None \<and> st k' t \<noteq> Some THREAD_DYING" for t
      using wf st' [of t] ns by (auto simp: sched_wf_def k'_def)
    show "st k' (idle_thread k') \<noteq> None" "st k' (idle_thread k') \<noteq> Some THREAD_DYING" if "idle_thread k' \<noteq> 0"
      using wf st' [of "idle_thread k'"] that by (auto simp: sched_wf_def k'_def)
  qed (use ok inj in auto)
  moreover have "(\<forall>t. st k' t = Some THREAD_RUNNING \<longleftrightarrow> t = cur k') \<and>
     (\<forall>t. st k' t = Some THREAD_DYING \<longrightarrow> t = initial_thread k')"
    using pre dying st' by (auto simp: switch_pre_def k'_def)
  ultimately have "sched_inv k'" by (simp add: sched_inv_def)
  then show thesis
    by (rule_tac that [of k']) (use s st' core' pre in \<open>auto simp: switched_def k'_def n_def switch_pre_def\<close>)
qed

text \<open>The running thread gives up the CPU with a new state.\<close>

lemma sched_wf_upd:
  assumes wf: "sched_wf k" and f: "\<And>th. magic (f th) = magic th \<and> pagedir (f th) = pagedir th \<and> tid (f th) = tid th"
    and k': "kernel_pool k' = kernel_pool k" "user_pool k' = user_pool k" "init_page_dir k' = init_page_dir k"
      "tss k' = tss k" "initial_thread k' = initial_thread k" "threads k' = (threads k)(t := map_option f (threads k t))"
      "next_tid k' = next_tid k" "idle_thread k' = idle_thread k"
    and lists: "distinct (ready_list k')" "distinct (all_list k')"
      "\<And>u. u \<in> set (ready_list k') \<longleftrightarrow> u \<noteq> idle_thread k \<and> st k' u = Some THREAD_READY"
      "\<And>u. u \<in> set (all_list k') \<longleftrightarrow> st k' u \<noteq> None \<and> st k' u \<noteq> Some THREAD_DYING"
      "idle_thread k \<noteq> 0 \<Longrightarrow> st k' (idle_thread k) \<noteq> Some THREAD_DYING"
  shows "sched_wf k'"
proof -
  have old: "\<exists>th'. threads k u = Some th' \<and> magic th = magic th' \<and> pagedir th = pagedir th' \<and> tid th = tid th'"
    if "threads k' u = Some th" for u th
    using that f k'(6) by (cases "u = t") auto
  have ok: "thread_ok k' u th" if asm: "threads k' u = Some th" for u th
  proof -
    obtain th' where th': "threads k u = Some th'" "magic th = magic th'" "pagedir th = pagedir th'" "tid th = tid th'"
      using old [OF asm] by blast
    then have "thread_ok k u th'" using wf by (simp add: sched_wf_def)
    then show ?thesis using th' k' used_pages_cong [of k' k] by (simp add: thread_ok_def)
  qed
  have inj: "v = u" if "threads k' v = Some th" "threads k' u = Some uh" "tid th = tid uh" for u v th uh
    using old [OF that(1)] old [OF that(2)] wf that(3) unfolding sched_wf_def by metis
  have "st k' (idle_thread k) \<noteq> None" if "idle_thread k \<noteq> 0"
    using that wf k'(6) by (auto simp: sched_wf_def st_def)
  then show ?thesis
    unfolding sched_wf_def
  proof (intro conjI allI impI)
    show "mmu_wf k'" "is_kernel_vaddr (init_page_dir k')" "tss k' \<noteq> 0" "initial_thread k' \<notin> pool_pages (kernel_pool k')"
      using sched_wfD(1-4) [OF wf] k' used_pages_cong [of k' k] by simp_all
  qed (use lists ok inj k'(8) in auto)
qed

lemma sched_inv_cur:
  assumes "sched_inv k"
  shows "st k (cur k) = Some THREAD_RUNNING" "cur k \<notin> set (ready_list k)" "cur k \<in> set (all_list k)" "sched_wf k"
proof -
  show r: "st k (cur k) = Some THREAD_RUNNING" and w: "sched_wf k" using assms by (simp_all add: sched_inv_def)
  show "cur k \<notin> set (ready_list k)" "cur k \<in> set (all_list k)"
    using r sched_wfD(8,10) [OF w] by auto
qed

lemma sched_invD:
  assumes "sched_inv k"
  shows "st k t = Some THREAD_RUNNING \<longleftrightarrow> t = cur k" "st k t = Some THREAD_DYING \<Longrightarrow> t = initial_thread k"
  using assms by (simp_all add: sched_inv_def)

lemma st_set:
  "st k t \<noteq> None \<Longrightarrow> st (upd_thread t (\<lambda>th. th\<lparr>status := s\<rparr>) k) u = (if u = t then Some s else st k u)"
  by (auto simp: st_def)

lemma block_pre:
  assumes "sched_inv k" "level k = INTR_OFF"
  defines "k' \<equiv> upd_thread (cur k) (\<lambda>th. th\<lparr>status := THREAD_BLOCKED\<rparr>) k"
  shows "switch_pre k'"
proof -
  note c = sched_inv_cur [OF assms(1)]
  have st': "st k' u = (if u = cur k then Some THREAD_BLOCKED else st k u)" for u
    unfolding k'_def by (rule st_set) (simp add: c)
  have "sched_wf k'"
    by (rule sched_wf_upd [OF c(4), where t = "cur k" and f = "\<lambda>th. th\<lparr>status := THREAD_BLOCKED\<rparr>"])
      (use c st' sched_wfD(7-12) [OF c(4)] in \<open>auto simp: k'_def\<close>)
  moreover have "cur k' = cur k" "initial_thread k' = initial_thread k" "level k' = INTR_OFF"
    using assms(2) by (simp_all add: k'_def)
  ultimately show ?thesis using st' sched_invD [OF assms(1)] by (auto simp: switch_pre_def)
qed

lemma yield_pre:
  assumes "sched_inv k"
  defines "k1 \<equiv> (if cur k \<noteq> idle_thread k then k\<lparr>level := INTR_OFF, ready_list := ready_list k @ [cur k]\<rparr> else k\<lparr>level := INTR_OFF\<rparr>)"
  shows "switch_pre (upd_thread (cur k) (\<lambda>th. th\<lparr>status := THREAD_READY\<rparr>) k1)"
proof -
  note c = sched_inv_cur [OF assms(1)]
  define k' where "k' = upd_thread (cur k) (\<lambda>th. th\<lparr>status := THREAD_READY\<rparr>) k1"
  have st': "st k' u = (if u = cur k then Some THREAD_READY else st k u)" for u
    using c by (auto simp: k'_def k1_def st_def)
  have "sched_wf k'"
    by (rule sched_wf_upd [OF c(4), where t = "cur k" and f = "\<lambda>th. th\<lparr>status := THREAD_READY\<rparr>"])
      (use c st' sched_wfD(7-12) [OF c(4)] in \<open>auto simp: k'_def k1_def\<close>)
  moreover have "cur k' = cur k" "initial_thread k' = initial_thread k" "level k' = INTR_OFF"
    by (simp_all add: k'_def k1_def)
  ultimately show ?thesis using st' sched_invD [OF assms(1)] unfolding k'_def [symmetric] by (auto simp: switch_pre_def)
qed

lemma exit_pre:
  assumes "sched_inv k" "cur k \<noteq> idle_thread k"
  defines "k' \<equiv> upd_thread (cur k) (\<lambda>th. th\<lparr>status := THREAD_DYING\<rparr>) (k\<lparr>level := INTR_OFF, all_list := remove1 (cur k) (all_list k)\<rparr>)"
  shows "switch_pre k'"
proof -
  note c = sched_inv_cur [OF assms(1)]
  have st': "st k' u = (if u = cur k then Some THREAD_DYING else st k u)" for u
    using c by (auto simp: k'_def st_def)
  have "sched_wf k'"
  proof (rule sched_wf_upd [OF c(4), where t = "cur k" and f = "\<lambda>th. th\<lparr>status := THREAD_DYING\<rparr>"])
    show "distinct (ready_list k')" "distinct (all_list k')" using sched_wfD(7,9) [OF c(4)] by (simp_all add: k'_def)
    have "ready_list k' = ready_list k" "set (all_list k') = set (all_list k) - {cur k}"
      using sched_wfD(9) [OF c(4)] by (simp_all add: k'_def)
    then show "u \<in> set (ready_list k') \<longleftrightarrow> u \<noteq> idle_thread k \<and> st k' u = Some THREAD_READY"
      "u \<in> set (all_list k') \<longleftrightarrow> st k' u \<noteq> None \<and> st k' u \<noteq> Some THREAD_DYING" for u
      using st' [of u] sched_wfD(8,10) [OF c(4)] c by auto
    show "st k' (idle_thread k) \<noteq> Some THREAD_DYING" if "idle_thread k \<noteq> 0"
      using st' assms(2) sched_wfD(12) [OF c(4) that] by simp
  qed (simp_all add: k'_def)
  moreover have "cur k' = cur k" "initial_thread k' = initial_thread k" "level k' = INTR_OFF"
    by (simp_all add: k'_def)
  ultimately show ?thesis using st' sched_invD [OF assms(1)] by (auto simp: switch_pre_def)
qed

lemma thread_block_inv:
  assumes inv: "sched_inv k" and "level k = INTR_OFF" "\<not> in_external_intr k" "can_switch k"
  obtains k' where "thread_block k = Some k'" "sched_inv k'" "cur k' = next_of k" "level k' = INTR_OFF"
    "ready_list k' = tl (ready_list k)" "idle_thread k' = idle_thread k" "\<not> in_external_intr k'"
    "kernel.more k' = kernel.more k" "core k' = core k"
    "\<forall>t. st k' t = (if t = next_of k then Some THREAD_RUNNING else if t = cur k then Some THREAD_BLOCKED else st k t)"
proof -
  define k1 where "k1 = upd_thread (cur k) (\<lambda>th. th\<lparr>status := THREAD_BLOCKED\<rparr>) k"
  note c = sched_inv_cur [OF inv]
  have st1: "st k1 u = (if u = cur k then Some THREAD_BLOCKED else st k u)" for u
    unfolding k1_def by (rule st_set) (simp add: c)
  have pre: "switch_pre k1" using block_pre [OF inv assms(2)] by (simp add: k1_def)
  have cs: "can_switch k1" and f: "next_of k1 = next_of k" "cur k1 = cur k" "core k1 = core k"
    using assms(4) by (simp_all add: k1_def can_switch_def next_of_def next_thread_to_run_def split: list.split)
  obtain k' where k': "schedule k1 = Some k'" "sched_inv k'" "switched k1 k'" by (rule schedule_inv [OF pre cs])
  have "thread_block k = Some k'"
    using assms k'(1) by (simp add: thread_block_def intr_context_def intr_get_level_def k1_def)
  moreover have "core k' = core k" using k'(3) st1 f by (auto simp: switched_def)
  moreover have "st k' t = (if t = next_of k then Some THREAD_RUNNING else if t = cur k then Some THREAD_BLOCKED else st k t)" for t
    using k'(3) st1 f by (auto simp: switched_def)
  ultimately show thesis
    by (rule_tac that [of k']) (use k' f assms(3) in \<open>simp_all add: switched_def k1_def\<close>)
qed

lemma thread_unblock_inv:
  assumes inv: "sched_inv k" and b: "st k t = Some THREAD_BLOCKED" and i: "t \<noteq> idle_thread k" "\<not> in_external_intr k \<or> level k = INTR_OFF"
  obtains k' where "thread_unblock t k = Some k'" "sched_inv k'"
    "k' = (upd_thread t (\<lambda>th. th\<lparr>status := THREAD_READY\<rparr>) k)\<lparr>ready_list := ready_list k @ [t]\<rparr>"
    "\<forall>u. st k' u = (if u = t then Some THREAD_READY else st k u)"
proof -
  note c = sched_inv_cur [OF inv]
  have tc: "t \<noteq> cur k" using b c(1) by auto
  define k' where "k' = (upd_thread t (\<lambda>th. th\<lparr>status := THREAD_READY\<rparr>) k)\<lparr>ready_list := ready_list k @ [t]\<rparr>"
  have st': "st k' u = (if u = t then Some THREAD_READY else st k u)" for u
    using b by (auto simp: k'_def st_def)
  obtain th where th: "threads k t = Some th" "status th = THREAD_BLOCKED" "is_thread t k"
    by (rule sched_thread [OF c(4) b])
  have "level k\<noteq> INTR_OFF \<Longrightarrow> level k = INTR_ON" by (cases "level k") simp_all
  then have "thread_unblock t k = Some k'"
    using th i(2) by (cases k) (auto simp: thread_unblock_def k'_def upd_thread_def)
  moreover have "sched_wf k'"
  proof (rule sched_wf_upd [OF c(4), where t = t and f = "\<lambda>th. th\<lparr>status := THREAD_READY\<rparr>"])
    show "distinct (ready_list k')" using sched_wfD(7,8) [OF c(4)] b by (simp add: k'_def)
    show "distinct (all_list k')" using sched_wfD(9) [OF c(4)] by (simp add: k'_def)
    have "ready_list k' = ready_list k @ [t]" "all_list k' = all_list k" by (simp_all add: k'_def)
    then show "u \<in> set (ready_list k') \<longleftrightarrow> u \<noteq> idle_thread k \<and> st k' u = Some THREAD_READY"
      "u \<in> set (all_list k') \<longleftrightarrow> st k' u \<noteq> None \<and> st k' u \<noteq> Some THREAD_DYING" for u
      using st' [of u] sched_wfD(8,10) [OF c(4)] b i(1) by auto
    show "st k' (idle_thread k) \<noteq> Some THREAD_DYING" if "idle_thread k \<noteq> 0"
      using st' sched_wfD(12) [OF c(4) that] by simp
  qed (simp_all add: k'_def)
  moreover have "cur k' = cur k" "initial_thread k' = initial_thread k" by (simp_all add: k'_def)
  ultimately show thesis
    using st' tc sched_invD [OF inv] by (rule_tac that [of k']) (auto simp: sched_inv_def k'_def [symmetric])
qed

text \<open>The run queue while the running thread yields.\<close>

definition queue_with_cur :: "'a kernel_scheme \<Rightarrow> nat list" where
  "queue_with_cur k = ready_list k @ (if cur k = idle_thread k then [] else [cur k])"

lemma yield_can_switch: "sched_inv k \<Longrightarrow> queue_with_cur k \<noteq> [] \<or> idle_thread k \<noteq> 0"
  using sched_inv_cur [of k] by (auto simp: queue_with_cur_def sched_wfD thread_ok_def elim: sched_thread)

lemma thread_yield_inv:
  assumes inv: "sched_inv k" and "\<not> in_external_intr k"
  obtains k' where "thread_yield k = Some (level k, k')" "sched_inv k'" "level k' = INTR_OFF"
    "cur k' = (if queue_with_cur k = [] then idle_thread k else hd (queue_with_cur k))"
    "ready_list k' = tl (queue_with_cur k)" "idle_thread k' = idle_thread k" "\<not> in_external_intr k'"
    "kernel.more k' = kernel.more k" "core k' = core k"
    "\<forall>t. st k' t = (if t = cur k' then Some THREAD_RUNNING else if t = cur k then Some THREAD_READY else st k t)"
proof -
  note c = sched_inv_cur [OF inv]
  define k0 where "k0 = (if cur k \<noteq> idle_thread k then k\<lparr>level := INTR_OFF, ready_list := ready_list k @ [cur k]\<rparr>
    else k\<lparr>level := INTR_OFF\<rparr>)"
  define k1 where "k1 = upd_thread (cur k) (\<lambda>th. th\<lparr>status := THREAD_READY\<rparr>) k0"
  have st1: "st k1 u = (if u = cur k then Some THREAD_READY else st k u)" for u
    using c by (auto simp: k1_def k0_def st_def)
  have pre: "switch_pre k1" using yield_pre [OF inv] by (simp add: k1_def k0_def)
  have f: "cur k1 = cur k" "idle_thread k1 = idle_thread k" "ready_list k1 = queue_with_cur k"
      "in_external_intr k1 = in_external_intr k" "kernel.more k1 = kernel.more k" "core k1 = core k0"
    by (simp_all add: k1_def k0_def queue_with_cur_def)
  have f0: "core k0 = core k" by (simp add: k0_def core_def fun_eq_iff)
  have cs: "can_switch k1" using yield_can_switch [OF inv] f by (simp add: can_switch_def)
  have nx: "next_of k1 = (if queue_with_cur k = [] then idle_thread k else hd (queue_with_cur k))"
    using f by (simp add: next_of_def next_thread_to_run_def split: list.split)
  obtain k' where k': "schedule k1 = Some k'" "sched_inv k'" "switched k1 k'" by (rule schedule_inv [OF pre cs])
  have "thread_yield k = Some (level k, k')"
    using inv assms(2) k'(1) by (auto simp: thread_yield_def intr_context_def k1_def k0_def split: if_splits)
  moreover have "core k' = core k" using k'(3) st1 f f0 by (auto simp: switched_def fun_eq_iff)
  moreover have "st k' t = (if t = cur k' then Some THREAD_RUNNING else if t = cur k then Some THREAD_READY else st k t)" for t
    using k'(3) st1 f by (auto simp: switched_def)
  ultimately show thesis
    by (rule_tac that [of k']) (use k' f nx assms(2) in \<open>simp_all add: switched_def\<close>)
qed

lemma thread_exit_inv:
  assumes inv: "sched_inv k" and "\<not> in_external_intr k" "cur k \<noteq> idle_thread k" "can_switch k"
  obtains k' where "thread_exit_finish k = Some k'" "sched_inv k'" "cur k' = next_of k" "level k' = INTR_OFF"
    "ready_list k' = tl (ready_list k)" "all_list k' = remove1 (cur k) (all_list k)" "idle_thread k' = idle_thread k"
    "\<not> in_external_intr k'" "kernel.more k' = kernel.more k"
    "\<forall>t. st k' t = (if t = next_of k then Some THREAD_RUNNING
       else if t = cur k then (if t = initial_thread k then Some THREAD_DYING else None) else st k t)"
proof -
  note c = sched_inv_cur [OF inv]
  define k0 where "k0 = k\<lparr>level := INTR_OFF, all_list := remove1 (cur k) (all_list k)\<rparr>"
  define k1 where "k1 = upd_thread (cur k) (\<lambda>th. th\<lparr>status := THREAD_DYING\<rparr>) k0"
  have st1: "st k1 u = (if u = cur k then Some THREAD_DYING else st k u)" for u
    using c by (auto simp: k1_def k0_def st_def)
  have pre: "switch_pre k1" using exit_pre [OF inv assms(3)] by (simp add: k1_def k0_def)
  have cs: "can_switch k1" and f: "next_of k1 = next_of k" "cur k1 = cur k" "idle_thread k1 = idle_thread k"
      "ready_list k1 = ready_list k" "initial_thread k1 = initial_thread k" "all_list k1 = remove1 (cur k) (all_list k)"
    using assms(4) by (simp_all add: k1_def k0_def can_switch_def next_of_def next_thread_to_run_def split: list.split)
  obtain k' where k': "schedule k1 = Some k'" "sched_inv k'" "switched k1 k'" by (rule schedule_inv [OF pre cs])
  have "thread_current (k\<lparr>level := INTR_OFF\<rparr>) = Some (cur k)" "thread_current k0 = Some (cur k)"
    using thread_current_eq [OF inv] by (simp_all add: thread_current_def running_thread_def is_thread_def k0_def)
  then have "thread_exit_finish k = Some k'"
    using k'(1) by (simp add: thread_exit_finish_def k1_def k0_def)
  moreover have "st k' t = (if t = next_of k then Some THREAD_RUNNING
       else if t = cur k then (if t = initial_thread k then Some THREAD_DYING else None) else st k t)" for t
    using k'(3) st1 f sched_invD(2) [OF inv] by (auto simp: switched_def)
  ultimately show thesis
    by (rule_tac that [of k']) (use k' f assms(2) in \<open>simp_all add: switched_def k1_def k0_def\<close>)
qed

section \<open>Creation of threads\<close>

lemma palloc_get_page_ok:
  assumes "mmu_wf k"
  obtains (null) "palloc_get_page PAL_ZERO k = Some (0, k)"
    | (page) t kp up m where "palloc_get_page PAL_ZERO k = Some (t, k\<lparr>kernel_pool := kp, user_pool := up, ram := m\<rparr>)"
      "kernel_page t" "t \<notin> used_pages k" "t \<in> pool_pages (kernel_pool k)" "pool_pages kp = pool_pages (kernel_pool k)"
      "mmu_wf (k\<lparr>kernel_pool := kp, user_pool := up, ram := m\<rparr>)" "live_region (k\<lparr>kernel_pool := kp, user_pool := up, ram := m\<rparr>) (t, 1)"
      "\<And>a. live_region k a \<Longrightarrow> live_region (k\<lparr>kernel_pool := kp, user_pool := up, ram := m\<rparr>) a"
proof -
  have wf: "pmem_wf k" using assms by (simp add: mmu_wf_def)
  have f: "pool_for PAL_ZERO = KernelPool" by (simp add: pool_for_def)
  show thesis
  proof (rule palloc_get_cases [OF wf, of 1 PAL_ZERO], unfold f pool_at.simps)
    assume "palloc_get_multiple PAL_ZERO 1 k = (if PAL_ZERO AND PAL_ASSERT \<noteq> 0 then None else Some (0, k))"
    then show thesis using null by (simp add: palloc_get_page_def)
  next
    fix i s'
    let ?t = "base (kernel_pool k) + PGSIZE * i"
    assume g: "palloc_get_multiple PAL_ZERO 1 k = Some (?t, s')" "run_of (bm (used_map (kernel_pool k))) i 1 False"
      "pmem_wf s'" "geometry s' = geometry k" "used_pages s' = used_pages k \<union> region ?t 1"
    have pw: "pool_wf (kernel_pool k)" using pmem_wf_pool [OF wf, of KernelPool] by simp
    have i: "i + 1 \<le> bit_cnt (used_map (kernel_pool k))" using g(2) pw by (simp add: run_of_def pool_wf_def)
    obtain kp up m where s': "s' = k\<lparr>kernel_pool := kp, user_pool := up, ram := m\<rparr>" using palloc_get_frame [OF g(1)] by blast
    have addr: "?t mod PGSIZE = 0" "?t < 2 ^ 32" using page_address [OF pw i] by simp_all
    have "kernel_page ?t" using addr assms by (simp add: kernel_page_def mmu_wf_def)
    moreover have "?t \<notin> used_pages k"
      using region_used_run [OF wf refl, of 1 i KernelPool] i g(2) by (auto simp: run_of_def)
    moreover have "?t \<in> pool_pages (kernel_pool k)" using i by (auto simp: pool_pages_def region_def)
    moreover have gk: "geometry s' KernelPool = geometry k KernelPool" using g(4) by simp
    then have "mmu_wf s'" "pool_pages kp = pool_pages (kernel_pool k)"
      using assms g(3) by (simp_all add: mmu_wf_def geometry_def pool_pages_def s')
    moreover have "live_region s' (?t, 1)"
      by (rule live_regionI [of _ _ _ KernelPool i]) (use i g(4,5) in \<open>simp_all add: geometry_def\<close>)
    moreover have "live_region s' a" if "live_region k a" for a
      using that g(4,5) by (cases a) (auto intro: live_region_mono simp: live_region_def)
    moreover have "palloc_get_page PAL_ZERO k = Some (?t, s')" using g(1) by (simp add: palloc_get_page_def)
    ultimately show thesis unfolding s' by (rule_tac page) blast+
  qed simp
qed

lemma fresh_page_no_thread:
  assumes "sched_wf k" "t \<notin> used_pages k" "t \<in> pool_pages (kernel_pool k)"
  shows "threads k t = None" "t \<noteq> initial_thread k"
proof -
  show n: "t \<noteq> initial_thread k" using sched_wfD(4) [OF assms(1)] assms(3) by auto
  have "False" if "threads k t = Some th" for th
  proof -
    have "live_region k (t, 1)" using sched_wfD(5) [OF assms(1) that] n by (simp add: thread_ok_def)
    then show False using assms(2) region_ne [of 1 t] by (auto simp: live_region_def)
  qed
  then show "threads k t = None" by (cases "threads k t") auto
qed

lemma sched_inv_add:
  assumes inv: "sched_inv k" and mem: "mmu_wf K" "pool_pages (kernel_pool K) = pool_pages (kernel_pool k)"
      "live_region K (t, 1)" "\<And>a. live_region k a \<Longrightarrow> live_region K a" "init_page_dir K = init_page_dir k" "tss K = tss k"
    and new: "threads k t = None" "t \<noteq> initial_thread k" "t \<noteq> 0" "threads K = (threads k)(t \<mapsto> th)" "status th = THREAD_BLOCKED"
      "magic th = THREAD_MAGIC" "pagedir th = 0" "tid th = next_tid k" "next_tid K = next_tid k + 1"
    and same: "all_list K = all_list k @ [t]" "ready_list K = ready_list k" "cur K = cur k"
      "initial_thread K = initial_thread k" "idle_thread K = idle_thread k"
  shows "sched_inv K"
proof -
  note c = sched_inv_cur [OF inv]
  have st': "st K u = (if u = t then Some THREAD_BLOCKED else st k u)" for u using new by (simp add: st_def)
  have stn: "st k t = None" using new(1) by (simp add: st_def)
  obtain ch where ch: "threads k (cur k) = Some ch" "thread_ok k (cur k) ch" by (rule sched_thread [OF c(4) c(1)])
  then have pos: "0 < next_tid k" by (simp add: thread_ok_def)
  have tids: "0 < tid uh \<and> tid uh < next_tid k" if "threads k u = Some uh" for u uh
    using sched_wfD(5) [OF c(4) that] by (simp add: thread_ok_def)
  have "sched_wf K"
    unfolding sched_wf_def
  proof (intro conjI allI impI)
    show "mmu_wf K" "is_kernel_vaddr (init_page_dir K)" "tss K \<noteq> 0" "initial_thread K \<notin> pool_pages (kernel_pool K)"
      using mem same(4) sched_wfD(2-4) [OF c(4)] by simp_all
    show "thread_ok K u uh" if "threads K u = Some uh" for u uh
    proof (cases "u = t")
      case True
      then show ?thesis using that new mem(3) pos by (simp add: thread_ok_def)
    next
      case False
      then have "thread_ok k u uh" using that new(4) sched_wfD(5) [OF c(4)] by simp
      then show ?thesis using mem(4) same(4) new(9) by (simp add: thread_ok_def)
    qed
    show "u = v" if "threads K u = Some uh" "threads K v = Some vh" "tid uh = tid vh" for u v uh vh
    proof (cases "u = t \<or> v = t")
      case True
      then show ?thesis using that new(4,8) tids [of u uh] tids [of v vh] by (auto split: if_splits)
    next
      case False
      then show ?thesis using that new(4) sched_wfD(6) [OF c(4), of u uh v vh] by simp
    qed
    show "distinct (ready_list K)" "distinct (all_list K)"
      using sched_wfD(7,9,10) [OF c(4)] stn same by auto
    show "u \<in> set (ready_list K) \<longleftrightarrow> u \<noteq> idle_thread K \<and> st K u = Some THREAD_READY"
      "u \<in> set (all_list K) \<longleftrightarrow> st K u \<noteq> None \<and> st K u \<noteq> Some THREAD_DYING" for u
      using sched_wfD(8,10) [OF c(4)] stn same st' [of u] by auto
    show "st K (idle_thread K) \<noteq> None" "st K (idle_thread K) \<noteq> Some THREAD_DYING" if "idle_thread K \<noteq> 0"
      using sched_wfD(11,12) [OF c(4)] that same st' by auto
  qed
  moreover have "t \<noteq> cur k" using c(1) stn by auto
  ultimately show ?thesis using st' same sched_invD [OF inv] by (auto simp: sched_inv_def)
qed

lemma kernel_page_end: "kernel_page t \<Longrightarrow> t + PGSIZE \<le> 2 ^ 32"
proof -
  assume k: "kernel_page t"
  then obtain a where a: "t = PGSIZE * a" using kernel_page_mod(1) [OF k] by (metis dvdE mod_0_imp_dvd)
  then show ?thesis using k by (simp add: kernel_page_def)
qed

lemma frame_address:
  assumes "kernel_page t" "n \<le> PGSIZE" "m \<le> n" "0 < m"
  shows "((t + n) mod 2 ^ 32 + 2 ^ 32 - m) mod 2 ^ 32 = t + n - m"
proof -
  have "t + n \<le> 2 ^ 32" using kernel_page_end [OF assms(1)] assms(2) by linarith
  then consider "t + n = 2 ^ 32" | "t + n < 2 ^ 32" by linarith
  then show ?thesis
  proof cases
    case 1
    then have "m < 2 ^ 32 \<and> 0 < m" using assms by simp
    then show ?thesis using 1 by simp
  next
    case 2
    then have "(t + n) mod 2 ^ 32 = t + n" by simp
    then show ?thesis using 2 assms(3) mod_sub_le [of m "t + n" "2 ^ 32"] by simp
  qed
qed

definition new_thread :: "nat \<Rightarrow> string \<Rightarrow> int \<Rightarrow> int \<Rightarrow> nat \<Rightarrow> thread_status \<Rightarrow> thread" where
  "new_thread t nm pri i sp s = \<lparr>tid = i, status = s, name = first_word nm, stack = sp,
     priority = pri, pagedir = 0, next_fd = 2, file_descriptors = [], waiting = False, child_relations = [],
     parent_relation = 0, thread_sleep_time = 0, magic = THREAD_MAGIC\<rparr>"

lemma init_thread_eq:
  assumes "\<not> in_external_intr k" "t \<noteq> 0" "PRI_MIN \<le> pri" "pri \<le> PRI_MAX"
  shows "init_thread t nm pri k = Some (k\<lparr>threads := (threads k)(t \<mapsto> new_thread t nm pri 0 ((t + PGSIZE) mod 2 ^ 32) THREAD_BLOCKED),
     all_list := all_list k @ [t]\<rparr>)"
  using assms by (cases k) (simp add: init_thread_def new_thread_def)

lemma alloc_frame_eq:
  assumes "threads k t = Some (new_thread t nm pri i sp s)" "t \<noteq> 0" "sz mod 4 = 0"
  shows "alloc_frame t sz k = Some ((sp + 2 ^ 32 - sz) mod 2 ^ 32,
    k\<lparr>threads := (threads k)(t \<mapsto> new_thread t nm pri i ((sp + 2 ^ 32 - sz) mod 2 ^ 32) s)\<rparr>)"
  using assms by (simp add: alloc_frame_def is_thread_def upd_thread_def new_thread_def Let_def)

lemma simulate_fail_eq: "\<exists>b l. DEBUG_thread_create_simulate_fail k = (b, k\<lparr>thread_create_limit := l\<rparr>)"
  by (cases k) (auto simp: DEBUG_thread_create_simulate_fail_def Let_def)

lemma int_wrap_small: "- (2 ^ 31) \<le> x \<Longrightarrow> x < 2 ^ 31 \<Longrightarrow> int_wrap x = x"
  by (simp add: int_wrap_def)

text \<open>The words of the initial stack of a thread: entry to \<^verbatim>\<open>switch_entry\<close>, then to
  \<^verbatim>\<open>kernel_thread\<close> with the function and its argument.\<close>

definition initial_stack :: "(nat \<Rightarrow> nat) \<Rightarrow> nat \<Rightarrow> nat \<Rightarrow> nat \<Rightarrow> nat \<Rightarrow> nat \<Rightarrow> bool" where
  "initial_stack m t kernel_thread switch_entry function aux \<longleftrightarrow>
     m (t + 4048 + 20) = switch_entry \<and> m (t + 4080) = kernel_thread \<and>
     m (t + 4084) = 0 \<and> m (t + 4088) = function \<and> m (t + 4092) = aux"

definition create_ram :: "(nat \<Rightarrow> nat) \<Rightarrow> nat \<Rightarrow> nat \<Rightarrow> nat \<Rightarrow> nat \<Rightarrow> nat \<Rightarrow> nat \<Rightarrow> nat" where
  "create_ram m t kt se function aux =
     m(t + 4084 := 0, t + 4084 + 4 := function, t + 4084 + 8 := aux, t + 4080 := kt,
       t + 4048 + 20 := se, t + 4048 + 12 := 0)"

lemma thread_create_page:
  fixes kt se aux :: nat and nm :: string
  assumes "\<not> in_external_intr k" "fn \<noteq> 0" "PRI_MIN \<le> pri" "pri \<le> PRI_MAX" "0 < next_tid k" "next_tid k < 2 ^ 31 - 1"
    and fail: "DEBUG_thread_create_simulate_fail k = (False, k1)" "k1 = k\<lparr>thread_create_limit := l\<rparr>"
    and page: "palloc_get_page PAL_ZERO k1 = Some (t, k1\<lparr>kernel_pool := kp, user_pool := up, ram := m\<rparr>)" "kernel_page t"
  defines "K \<equiv> k1\<lparr>kernel_pool := kp, user_pool := up, ram := create_ram m t kt se fn aux,
     threads := (threads k)(t \<mapsto> new_thread t nm pri (next_tid k) (t + 4048) THREAD_BLOCKED),
     all_list := all_list k @ [t], next_tid := next_tid k + 1\<rparr>"
  shows "thread_create kt se nm pri fn aux k = do { k \<leftarrow> thread_unblock t K; Some (next_tid k1, k) }"
proof -
  have t0: "t \<noteq> 0" using kernel_page_mod(2) [OF page(2)] .
  have sp: "((t + PGSIZE) mod 2 ^ 32 + 2 ^ 32 - 12) mod 2 ^ 32 = t + 4084" "(t + 4084 + 2 ^ 32 - 4) mod 2 ^ 32 = t + 4080"
    "(t + 4080 + 2 ^ 32 - 32) mod 2 ^ 32 = t + 4048"
  proof -
    show "((t + PGSIZE) mod 2 ^ 32 + 2 ^ 32 - 12) mod 2 ^ 32 = t + 4084" using frame_address [OF page(2), of PGSIZE 12] by simp
    have lt: "t + 4084 < 2 ^ 32" using kernel_page_end [OF page(2)] by simp
    show "(t + 4084 + 2 ^ 32 - 4) mod 2 ^ 32 = t + 4080" using mod_sub_le [of 4 "t + 4084" "2 ^ 32"] lt by simp
    show "(t + 4080 + 2 ^ 32 - 32) mod 2 ^ 32 = t + 4048" using mod_sub_le [of 32 "t + 4080" "2 ^ 32"] lt by simp
  qed
  define s0 where "s0 = (t + PGSIZE) mod 2 ^ 32"
  have wrap: "int_wrap (next_tid k + 1) = next_tid k + 1" using assms(5,6) by (intro int_wrap_small) auto
  define T where "T = (\<lambda>i sp. (threads k)(t \<mapsto> new_thread t nm pri i sp THREAD_BLOCKED))"
  define K2 where "K2 = k1\<lparr>kernel_pool := kp, user_pool := up, ram := m, threads := T 0 s0,
    all_list := all_list k @ [t]\<rparr>"
  define K3 where "K3 = (\<lambda>m sp. k1\<lparr>kernel_pool := kp, user_pool := up, ram := m, threads := T (next_tid k) sp,
    all_list := all_list k @ [t], next_tid := next_tid k + 1\<rparr>)"
  have init: "init_thread t nm pri (k1\<lparr>kernel_pool := kp, user_pool := up, ram := m\<rparr>) = Some K2"
    using assms(1,3,4) t0 by (subst init_thread_eq) (simp_all add: K2_def T_def fail(2) s0_def)
  have tid: "allocate_tid K2 = (next_tid k, K2\<lparr>next_tid := next_tid k + 1\<rparr>)"
    "upd_thread t (\<lambda>th. th\<lparr>tid := next_tid k\<rparr>) (K2\<lparr>next_tid := next_tid k + 1\<rparr>) = K3 m s0"
    by (simp_all add: allocate_tid_def K2_def K3_def T_def fail(2) wrap upd_thread_def new_thread_def)
  have al: "alloc_frame t sz (K3 m sp) = Some ((sp + 2 ^ 32 - sz) mod 2 ^ 32, K3 m ((sp + 2 ^ 32 - sz) mod 2 ^ 32))"
    if "sz mod 4 = 0" for sz m sp
    using alloc_frame_eq [of "K3 m sp" t nm pri "next_tid k" sp THREAD_BLOCKED sz] t0 that by (simp add: K3_def T_def)
  have fr: "alloc_frame t 12 (K3 m s0) = Some (t + 4084, K3 m (t + 4084))"
    "alloc_frame t 4 (K3 m (t + 4084)) = Some (t + 4080, K3 m (t + 4080))"
    "alloc_frame t 32 (K3 m (t + 4080)) = Some (t + 4048, K3 m (t + 4048))" for m
    using al [of 12 m s0] al [of 4 m "t + 4084"] al [of 32 m "t + 4080"] sp [folded s0_def] by simp_all
  have st: "store a v (K3 m sp) = K3 (m(a := v)) sp" for a v m sp by (simp add: store_def K3_def)
  have K: "K = K3 (create_ram m t kt se fn aux) (t + 4048)" by (simp add: K_def K3_def T_def)
  have n1: "next_tid k1 = next_tid k" by (simp add: fail(2))
  show ?thesis
    unfolding thread_create_def fail(1) prod.case Let_def page(1) K n1
    using assms(2) t0 by (simp add: init tid fr st create_ram_def)
qed

lemma thread_create_inv:
  assumes inv: "sched_inv k" and "function \<noteq> 0" "PRI_MIN \<le> pri" "pri \<le> PRI_MAX" "\<not> in_external_intr k"
    and tids: "next_tid k < 2 ^ 31 - 1"
  obtains (fail) l where "thread_create kt se nm pri function aux k = Some (TID_ERROR, k\<lparr>thread_create_limit := l\<rparr>)"
    | (new) t k' where "thread_create kt se nm pri function aux k = Some (next_tid k, k')" "sched_inv k'"
      "threads k t = None" "threads k' = (threads k)(t \<mapsto> new_thread t nm pri (next_tid k) (t + 4048) THREAD_READY)"
      "ready_list k' = ready_list k @ [t]" "all_list k' = all_list k @ [t]" "cur k' = cur k" "level k' = level k"
      "initial_stack (ram k') t kt se function aux" "next_tid k' = next_tid k + 1" "kernel.more k' = kernel.more k"
      "in_external_intr k' = in_external_intr k" "idle_thread k' = idle_thread k"
      "thread_ticks k' = thread_ticks k" "intr_handlers k' = intr_handlers k"
proof -
  note c = sched_inv_cur [OF inv]
  obtain ch where "threads k (cur k) = Some ch" "thread_ok k (cur k) ch" by (rule sched_thread [OF c(4) c(1)])
  then have pos: "0 < next_tid k" by (simp add: thread_ok_def)
  obtain b l where d: "DEBUG_thread_create_simulate_fail k = (b, k\<lparr>thread_create_limit := l\<rparr>)"
    using simulate_fail_eq by blast
  define k1 where "k1 = k\<lparr>thread_create_limit := l\<rparr>"
  have mem: "mmu_wf k1" "used_pages k1 = used_pages k" "live_region k1 = live_region k" "kernel_pool k1 = kernel_pool k"
    using used_pages_cong [of k1 k] sched_wfD(1) [OF c(4)] by (simp_all add: k1_def)
  show thesis
  proof (cases b)
    case True
    then show thesis using fail d assms(2) by (simp add: thread_create_def)
  next
    case False
    show thesis
    proof (rule palloc_get_page_ok [OF mem(1)])
      assume "palloc_get_page PAL_ZERO k1 = Some (0, k1)"
      then show thesis using fail [of l] d False assms(2) by (simp add: thread_create_def k1_def)
    next
      fix t kp up m
      assume g: "palloc_get_page PAL_ZERO k1 = Some (t, k1\<lparr>kernel_pool := kp, user_pool := up, ram := m\<rparr>)"
        "kernel_page t" "t \<notin> used_pages k1" "t \<in> pool_pages (kernel_pool k1)" "pool_pages kp = pool_pages (kernel_pool k1)"
        "mmu_wf (k1\<lparr>kernel_pool := kp, user_pool := up, ram := m\<rparr>)" "live_region (k1\<lparr>kernel_pool := kp, user_pool := up, ram := m\<rparr>) (t, 1)"
        "\<And>a. live_region k1 a \<Longrightarrow> live_region (k1\<lparr>kernel_pool := kp, user_pool := up, ram := m\<rparr>) a"
      define K where "K = k1\<lparr>kernel_pool := kp, user_pool := up, ram := create_ram m t kt se function aux,
        threads := (threads k)(t \<mapsto> new_thread t nm pri (next_tid k) (t + 4048) THREAD_BLOCKED),
        all_list := all_list k @ [t], next_tid := next_tid k + 1\<rparr>"
      have fr: "threads k t = None" "t \<noteq> initial_thread k"
        using fresh_page_no_thread [OF c(4)] g(3,4) mem by auto
      have t0: "t \<noteq> 0" using kernel_page_mod(2) [OF g(2)] .
      have mK: "mmu_wf K" "live_region K = live_region (k1\<lparr>kernel_pool := kp, user_pool := up, ram := m\<rparr>)"
        using g(6) used_pages_cong [of K "k1\<lparr>kernel_pool := kp, user_pool := up, ram := m\<rparr>"] by (simp_all add: K_def)
      have inv': "sched_inv K"
      proof (rule sched_inv_add [OF inv mK(1), of t])
        show "live_region K a" if "live_region k a" for a unfolding mK(2) by (rule g(8)) (simp add: mem(3) that)
        show "live_region K (t, 1)" using g(7) mK(2) by simp
        show "threads K = (threads k)(t \<mapsto> new_thread t nm pri (next_tid k) (t + 4048) THREAD_BLOCKED)" by (simp add: K_def)
      qed (use fr t0 g(5) mem(4) in \<open>simp_all add: K_def k1_def new_thread_def\<close>)
      have "st K t = Some THREAD_BLOCKED" by (simp add: st_def K_def new_thread_def)
      moreover have "t \<noteq> idle_thread K"
        using sched_wfD(11) [OF c(4)] fr(1) t0 by (auto simp: K_def k1_def st_def)
      ultimately obtain k' where k': "thread_unblock t K = Some k'" "sched_inv k'"
        "k' = (upd_thread t (\<lambda>th. th\<lparr>status := THREAD_READY\<rparr>) K)\<lparr>ready_list := ready_list K @ [t]\<rparr>"
        by (rule thread_unblock_inv [OF inv']) (use assms(5) in \<open>simp add: K_def k1_def\<close>)
      have "thread_create kt se nm pri function aux k = Some (next_tid k, k')"
        using thread_create_page [OF assms(5,2,3,4) pos tids _ _ g(1,2), where kt = kt and se = se and aux = aux and nm = nm and l = l] d False k'(1)
        by (simp add: k1_def K_def)
      then show thesis
        by (rule new [OF _ k'(2) fr(1)])
          (simp_all add: k'(3) K_def k1_def new_thread_def initial_stack_def create_ram_def upd_thread_def)
    qed
  qed
qed

section \<open>Reachable scheduler states\<close>

text \<open>The state in which \<^verbatim>\<open>main\<close> calls \<^verbatim>\<open>thread_init\<close>: interrupts are off, there is no thread yet and
  no memory allocator either.\<close>

definition boot_state :: "'a kernel_scheme \<Rightarrow> bool" where
  "boot_state k \<longleftrightarrow> level k = INTR_OFF \<and> \<not> in_external_intr k \<and> cur k \<noteq> 0 \<and>
     threads k = Map.empty \<and> idle_thread k = 0 \<and> next_tid k = 1"

text \<open>The rest of the initialisation up to \<^verbatim>\<open>thread_start\<close> sets up the page allocator, the kernel page
  directory, the task-state segment and the interrupt vectors. It runs with interrupts off in the
  initial thread and leaves the scheduler alone. The page of the initial thread, which the loader
  chose, is below the pools.\<close>

definition boot_init :: "'a kernel_scheme \<Rightarrow> 'a kernel_scheme \<Rightarrow> bool" where
  "boot_init k k' \<longleftrightarrow> mmu_wf k' \<and> is_kernel_vaddr (init_page_dir k') \<and> tss k' \<noteq> 0 \<and>
     cur k' \<notin> pool_pages (kernel_pool k') \<and> \<not> in_external_intr k' \<and>
     level k' = level k \<and> threads k' = threads k \<and> cur k' = cur k \<and> ready_list k' = ready_list k \<and>
     all_list k' = all_list k \<and> idle_thread k' = idle_thread k \<and> initial_thread k' = initial_thread k \<and>
     next_tid k' = next_tid k"

text \<open>What the running thread does between its calls of the scheduler: it allocates pages, frees
  regions that hold no thread structure, writes to memory, switches address spaces and changes the
  members of its thread structure that belong to \<^verbatim>\<open>process.c\<close> and \<^verbatim>\<open>syscall.c\<close>.\<close>

inductive mem_step :: "'a kernel_scheme \<Rightarrow> 'a kernel_scheme \<Rightarrow> bool" where
  get: "palloc_get_multiple flags c k = Some (a, k') \<Longrightarrow> mem_step k k'"
| free: "live_region k (a, c) \<Longrightarrow> region a c \<inter> dom (threads k) = {} \<Longrightarrow> palloc_free_multiple a c k = Some k' \<Longrightarrow> mem_step k k'"
| poke: "mem_step k (k\<lparr>ram := m\<rparr>)"
| activate: "pagedir_activate pd k = Some k' \<Longrightarrow> mem_step k k'"
| process: "pd = 0 \<or> is_kernel_vaddr pd \<Longrightarrow> mem_step k (upd_thread (cur k) (\<lambda>th. th\<lparr>pagedir := pd, next_fd := n,
    file_descriptors := fds, waiting := w, child_relations := cs, parent_relation := p\<rparr>) k)"

text \<open>Everything a sequence of scheduler calls can lead to: changes of the interrupt level, the idle
  thread announcing itself, blocking, waking, yielding, exiting, creating threads, clock interrupts,
  which may preempt the running thread, and the steps above in between. \<^verbatim>\<open>process_exit\<close> is made of
  such steps; the exit of a thread ends with \<open>thread_exit_finish\<close>.\<close>

inductive sched_reach :: "nat \<Rightarrow> nat \<Rightarrow> 'a kernel_scheme \<Rightarrow> bool" for kt se where
  boot: "boot_state k \<Longrightarrow> thread_init k = Some k' \<Longrightarrow> boot_init k' k'' \<Longrightarrow> sched_reach kt se k''"
| level: "sched_reach kt se k \<Longrightarrow> intr_set_level l k = Some (old, k') \<Longrightarrow> sched_reach kt se k'"
| idle: "sched_reach kt se k \<Longrightarrow> idle_thread k = 0 \<Longrightarrow> sched_reach kt se (k\<lparr>idle_thread := cur k\<rparr>)"
| block: "sched_reach kt se k \<Longrightarrow> thread_block k = Some k' \<Longrightarrow> sched_reach kt se k'"
| unblock: "sched_reach kt se k \<Longrightarrow> t \<noteq> idle_thread k \<Longrightarrow> thread_unblock t k = Some k' \<Longrightarrow> sched_reach kt se k'"
| yield: "sched_reach kt se k \<Longrightarrow> thread_yield k = Some (old, k') \<Longrightarrow> sched_reach kt se k'"
| mem: "sched_reach kt se k \<Longrightarrow> mem_step k k' \<Longrightarrow> sched_reach kt se k'"
| exit: "sched_reach kt se k \<Longrightarrow> cur k \<noteq> idle_thread k \<Longrightarrow> thread_exit_finish k = Some k' \<Longrightarrow> sched_reach kt se k'"
| create: "sched_reach kt se k \<Longrightarrow> next_tid k < 2 ^ 31 - 1 \<Longrightarrow> function \<noteq> 0 \<Longrightarrow> PRI_MIN \<le> pri \<Longrightarrow> pri \<le> PRI_MAX \<Longrightarrow>
    thread_create kt se nm pri function aux k = Some (i, k') \<Longrightarrow> sched_reach kt se k'"
| tick: "sched_reach kt se k \<Longrightarrow> level k = INTR_ON \<Longrightarrow> intr_handlers k 0x20 \<noteq> 0 \<Longrightarrow>
    intr_handler (\<lambda>_. thread_tick) 0x20 (k\<lparr>level := INTR_OFF\<rparr>) = Some (b, k') \<Longrightarrow> sched_reach kt se k'"

lemma thread_init_eq:
  assumes "boot_state k"
  shows "thread_init k = Some (k\<lparr>threads := [cur k \<mapsto> new_thread (cur k) ''main'' PRI_DEFAULT 1 ((cur k + PGSIZE) mod 2 ^ 32) THREAD_RUNNING],
    ready_list := [], all_list := [cur k], initial_thread := cur k, next_tid := 2\<rparr>)"
  using assms by (simp add: boot_state_def thread_init_def intr_get_level_def running_thread_def init_thread_eq
      allocate_tid_def int_wrap_def upd_thread_def new_thread_def)

lemma boot_inv:
  assumes "boot_state k" "thread_init k = Some k'" "boot_init k' k''"
  shows "sched_inv k'' \<and> \<not> in_external_intr k''"
proof -
  have f: "cur k \<noteq> 0" "\<not> in_external_intr k''" "mmu_wf k''" "is_kernel_vaddr (init_page_dir k'')" "tss k'' \<noteq> 0"
      "cur k'' \<notin> pool_pages (kernel_pool k'')" "threads k'' = [cur k'' \<mapsto> new_thread (cur k) ''main'' PRI_DEFAULT 1 ((cur k + PGSIZE) mod 2 ^ 32) THREAD_RUNNING]"
      "ready_list k'' = []" "all_list k'' = [cur k'']" "initial_thread k'' = cur k''" "next_tid k'' = 2" "idle_thread k'' = 0" "cur k'' = cur k"
    using assms thread_init_eq [OF assms(1)] by (auto simp: boot_state_def boot_init_def)
  then have "st k'' t = (if t = cur k'' then Some THREAD_RUNNING else None)" for t by (simp add: st_def new_thread_def)
  moreover have "sched_wf k''"
    using f calculation by (auto simp: sched_wf_def thread_ok_def new_thread_def split: if_splits)
  ultimately show ?thesis using f by (simp add: sched_inv_def)
qed

text \<open>The invariant over a change of the memory and of the process members of the running thread.\<close>

lemma sched_inv_memory:
  assumes inv: "sched_inv k" and mem: "mmu_wf K" "pool_pages (kernel_pool K) = pool_pages (kernel_pool k)"
      "\<And>t. t \<in> dom (threads k) \<Longrightarrow> live_region k (t, 1) \<Longrightarrow> live_region K (t, 1)" "init_page_dir K = init_page_dir k" "tss K = tss k"
    and th: "threads K = (threads k)(cur k := map_option f (threads k (cur k)))"
      "\<And>th. magic (f th) = magic th \<and> tid (f th) = tid th \<and> status (f th) = status th \<and>
        (pagedir (f th) = pagedir th \<or> pagedir (f th) = 0 \<or> is_kernel_vaddr (pagedir (f th)))"
    and same: "next_tid K = next_tid k" "all_list K = all_list k" "ready_list K = ready_list k" "cur K = cur k"
      "initial_thread K = initial_thread k" "idle_thread K = idle_thread k"
  shows "sched_inv K" "st K = st k"
proof -
  note c = sched_inv_cur [OF inv]
  show st': "st K = st k" using th by (auto simp: st_def fun_eq_iff option.map_comp comp_def)
  have old: "\<exists>th'. threads k u = Some th' \<and> magic uh = magic th' \<and> tid uh = tid th' \<and>
      (pagedir uh = pagedir th' \<or> pagedir uh = 0 \<or> is_kernel_vaddr (pagedir uh))" if "threads K u = Some uh" for u uh
    using that th by (cases "u = cur k") auto
  have "sched_wf K"
    unfolding sched_wf_def st' same
  proof (intro conjI allI impI)
    show "mmu_wf K" "is_kernel_vaddr (init_page_dir K)" "tss K \<noteq> 0" "initial_thread k \<notin> pool_pages (kernel_pool K)"
      using mem sched_wfD(2-4) [OF c(4)] by simp_all
    show "thread_ok K u uh" if u: "threads K u = Some uh" for u uh
    proof -
      obtain th' where th': "threads k u = Some th'" "magic uh = magic th'" "tid uh = tid th'"
          "pagedir uh = pagedir th' \<or> pagedir uh = 0 \<or> is_kernel_vaddr (pagedir uh)" using old [OF u] by blast
      then have "thread_ok k u th'" using sched_wfD(5) [OF c(4)] by simp
      then show ?thesis using th' mem(3) [of u] same unfolding thread_ok_def by auto
    qed
    show "u = v" if "threads K u = Some uh" "threads K v = Some vh" "tid uh = tid vh" for u v uh vh
      using old [OF that(1)] old [OF that(2)] that(3) sched_wfD(6) [OF c(4), of u _ v] by auto
  qed (use sched_wfD(7-12) [OF c(4)] in blast)+
  then show "sched_inv K" using inv unfolding sched_inv_def st' same by simp
qed

lemma sched_inv_pools:
  assumes inv: "sched_inv k" and k': "k' = k\<lparr>kernel_pool := kp, user_pool := up, ram := m\<rparr>" and w: "pmem_wf k'"
    and g: "geometry k' = geometry k" and u: "used_pages k - R \<subseteq> used_pages k'" "R \<inter> dom (threads k) = {}"
  shows "sched_inv k' \<and> st k' = st k"
proof -
  have gk: "geometry k' KernelPool = geometry k KernelPool" using g by simp
  have "mmu_wf k'" "pool_pages (kernel_pool k') = pool_pages (kernel_pool k)"
    using sched_wfD(1) [OF sched_inv_cur(4) [OF inv]] w gk by (simp_all add: mmu_wf_def geometry_def pool_pages_def)
  moreover have "live_region k' (t, 1)" if "t \<in> dom (threads k)" "live_region k (t, 1)" for t
    using that u by (intro live_region_mono [OF that(2) g]) (auto simp: live_region_def)
  ultimately have "sched_inv k'" "st k' = st k"
    by (rule sched_inv_memory [OF inv, of k' "\<lambda>th. th"]; simp add: k' option.map_ident)+
  then show ?thesis by simp
qed

lemma mem_step_inv:
  assumes "mem_step k k'" "sched_inv k"
  shows "sched_inv k' \<and> st k' = st k \<and> cur k' = cur k \<and> level k' = level k \<and> ready_list k' = ready_list k \<and>
    idle_thread k' = idle_thread k \<and> in_external_intr k' = in_external_intr k \<and> kernel.more k' = kernel.more k"
proof -
  have wf: "mmu_wf k" "pmem_wf k" using sched_wfD(1) [OF sched_inv_cur(4) [OF assms(2)]] by (simp_all add: mmu_wf_def)
  show ?thesis using assms(1)
  proof cases
    case (get flags c a)
    obtain kp up m where f: "k' = k\<lparr>kernel_pool := kp, user_pool := up, ram := m\<rparr>" using palloc_get_frame [OF get] by blast
    have "pmem_wf k' \<and> geometry k' = geometry k \<and> used_pages k \<subseteq> used_pages k'"
    proof (cases "c = 0")
      case True
      then show ?thesis using get wf by (simp add: palloc_get_multiple_def)
    next
      case False
      then have "0 < c" by simp
      then show ?thesis by (rule palloc_get_cases [OF wf(2), of c flags]) (use get wf in \<open>auto split: if_splits\<close>)
    qed
    then have "sched_inv k' \<and> st k' = st k" using sched_inv_pools [OF assms(2) f, of "{}"] by simp
    then show ?thesis by (simp add: f)
  next
    case (free a c)
    obtain kp up m where f: "k' = k\<lparr>kernel_pool := kp, user_pool := up, ram := m\<rparr>" using palloc_free_frame [OF free(3)] by blast
    obtain s' where "palloc_free_multiple a c k = Some s'" "pmem_wf s'" "geometry s' = geometry k"
      "used_pages s' = used_pages k - region a c" by (rule live_region_free [OF wf(2) free(1)])
    then have "sched_inv k' \<and> st k' = st k" using sched_inv_pools [OF assms(2) f, of "region a c"] free by simp
    then show ?thesis by (simp add: f)
  next
    case (poke m)
    then have "sched_inv k'" using assms(2) by (subst sched_inv_cong [of _ k]) simp_all
    then show ?thesis using poke by (simp add: st_def fun_eq_iff)
  next
    case (activate pd)
    then obtain p where p: "k' = k\<lparr>cr3 := p, tlb_flushes := tlb_flushes k + 1\<rparr>"
      by (auto simp: pagedir_activate_def Option.bind_eq_Some_conv)
    then have "sched_inv k'" using assms(2) by (subst sched_inv_cong [of _ k]) simp_all
    then show ?thesis using p by (simp add: st_def fun_eq_iff)
  next
    case (process pd p cs w fds n)
    define f where "f = (\<lambda>th :: thread. th\<lparr>pagedir := pd, next_fd := n, file_descriptors := fds, waiting := w, child_relations := cs,
      parent_relation := p\<rparr>)"
    have "sched_inv (upd_thread (cur k) f k)" "st (upd_thread (cur k) f k) = st k"
      by (rule sched_inv_memory [OF assms(2), where f = f];
        use wf process(2) used_pages_cong [of "upd_thread (cur k) f k" k] in \<open>simp add: f_def\<close>)+
    then show ?thesis using process(1) by (simp add: f_def)
  qed
qed

lemma schedule_can_switch: "schedule k = Some k' \<Longrightarrow> can_switch k"
  by (cases "ready_list k")
    (auto simp: schedule_def can_switch_def next_thread_to_run_def is_thread_def panic_simps Option.bind_eq_Some_conv Let_def)

lemma can_switch_cong: "ready_list k' = ready_list k \<Longrightarrow> idle_thread k' = idle_thread k \<Longrightarrow> can_switch k' = can_switch k"
  by (simp add: can_switch_def)

lemma block_can_switch: "thread_block k = Some k' \<Longrightarrow> can_switch k"
  using can_switch_cong [of "upd_thread (cur k) f k" k for f]
  by (auto simp: thread_block_def panic_simps Option.bind_eq_Some_conv thread_current_def running_thread_def Let_def
      dest!: schedule_can_switch)

lemma exit_can_switch:
  assumes "thread_exit_finish k = Some k'"
  shows "can_switch k"
proof -
  obtain f where "schedule (upd_thread (cur k) f (k\<lparr>level := INTR_OFF, all_list := remove1 (cur k) (all_list k)\<rparr>)) = Some k'"
    using assms by (auto simp: thread_exit_finish_def panic_simps Option.bind_eq_Some_conv thread_current_def running_thread_def Let_def)
  from schedule_can_switch [OF this] show ?thesis by (simp add: can_switch_def)
qed

lemma thread_tick_inv:
  assumes "sched_inv k" "in_external_intr k"
  shows "\<exists>i u kt y. thread_tick k = Some (k\<lparr>idle_ticks := i, user_ticks := u, kernel_ticks := kt,
    thread_ticks := (thread_ticks k + 1) mod 2 ^ 32, yield_on_return := y\<rparr>) \<and>
    y = (yield_on_return k \<or> (thread_ticks k + 1) mod 2 ^ 32 \<ge> TIME_SLICE)"
proof -
  obtain th where "threads k (cur k) = Some th"
    by (rule sched_thread [OF sched_inv_cur(4,1) [OF assms(1)]])
  then show ?thesis
    using assms by (cases k) (auto simp: thread_tick_def intr_yield_on_return_def intr_context_def Let_def)
qed

lemma pic_end_of_interrupt_eq:
  "0x20 \<le> v \<Longrightarrow> v < 0x30 \<Longrightarrow> \<exists>l. pic_end_of_interrupt v k = Some (k\<lparr>port_log := l\<rparr>)"
  by (auto simp: pic_end_of_interrupt_def outb_def Let_def)

text \<open>A clock interrupt counts the tick; at the end of the time slice it switches to the head of the
  run queue.\<close>

lemma clock_interrupt:
  assumes inv: "sched_inv k" and ext: "\<not> in_external_intr k" and h: "intr_handlers k 0x20 \<noteq> 0"
  obtains k1 k' where "intr_handler (\<lambda>_. thread_tick) 0x20 (k\<lparr>level := INTR_OFF\<rparr>) =
      Some ((thread_ticks k + 1) mod 2 ^ 32 \<ge> TIME_SLICE, k')"
    "sched_inv k1" "\<not> in_external_intr k1" "cur k1 = cur k" "ready_list k1 = ready_list k" "idle_thread k1 = idle_thread k"
    "st k1 = st k" "core k1 = core k" "kernel.more k1 = kernel.more k" "level k1 = INTR_OFF"
    "thread_ticks k1 = (thread_ticks k + 1) mod 2 ^ 32" "intr_handlers k1 = intr_handlers k"
    "if (thread_ticks k + 1) mod 2 ^ 32 \<ge> TIME_SLICE then thread_yield k1 = Some (INTR_OFF, k') else k' = k1"
proof -
  define y where "y \<longleftrightarrow> (thread_ticks k + 1) mod 2 ^ 32 \<ge> TIME_SLICE"
  define n where "n = (thread_ticks k + 1) mod 2 ^ 32"
  define k0 where "k0 = k\<lparr>level := INTR_OFF, in_external_intr := True, yield_on_return := False\<rparr>"
  have "sched_inv k0" using inv by (subst sched_inv_cong [of _ k]) (simp_all add: k0_def)
  then obtain i u kt where t: "thread_tick k0 = Some (k0\<lparr>idle_ticks := i, user_ticks := u, kernel_ticks := kt,
      thread_ticks := n, yield_on_return := y\<rparr>)"
    using thread_tick_inv [of k0] by (auto simp: k0_def y_def n_def)
  define kt' where "kt' = k0\<lparr>idle_ticks := i, user_ticks := u, kernel_ticks := kt,
      thread_ticks := n, yield_on_return := y, in_external_intr := False\<rparr>"
  obtain l where l: "pic_end_of_interrupt 0x20 kt' = Some (kt'\<lparr>port_log := l\<rparr>)"
    using pic_end_of_interrupt_eq [of "0x20" kt'] by auto
  define k1 where "k1 = kt'\<lparr>port_log := l\<rparr>"
  have inv1: "sched_inv k1" using inv by (subst sched_inv_cong [of _ k]) (simp_all add: k1_def kt'_def k0_def)
  have f: "\<not> in_external_intr k1" "cur k1 = cur k" "ready_list k1 = ready_list k" "idle_thread k1 = idle_thread k"
    "kernel.more k1 = kernel.more k" "level k1 = INTR_OFF" "threads k1 = threads k" "yield_on_return k1 = y"
    "thread_ticks k1 = (thread_ticks k + 1) mod 2 ^ 32" "intr_handlers k1 = intr_handlers k"
    by (simp_all add: k1_def kt'_def k0_def n_def)
  have ho: "intr_handler (\<lambda>_. thread_tick) 0x20 (k\<lparr>level := INTR_OFF\<rparr>) =
      (if y then do { (_, k') \<leftarrow> thread_yield k1; Some (True, k') } else Some (False, k1))"
    unfolding intr_handler_def Let_def
    using h ext t l f(8) by (simp add: intr_get_level_def intr_context_def k0_def k1_def kt'_def)
  have s: "st k1 = st k" "core k1 = core k" using f(7) by (simp_all add: st_def core_def fun_eq_iff)
  show thesis
  proof (cases y)
    case True
    obtain k' where "thread_yield k1 = Some (level k1, k')" by (rule thread_yield_inv [OF inv1 f(1)])
    then show thesis using that [of k' k1] True ho inv1 f s unfolding y_def by simp
  next
    case False
    then show thesis using that [of k1 k1] False ho inv1 f s unfolding y_def by simp
  qed
qed

lemma thread_create_frame:
  assumes "sched_inv k" "function \<noteq> 0" "PRI_MIN \<le> pri" "pri \<le> PRI_MAX" "\<not> in_external_intr k" "next_tid k < 2 ^ 31 - 1"
  shows "\<exists>i k'. thread_create kt se nm pri function aux k = Some (i, k') \<and> sched_inv k' \<and> \<not> in_external_intr k'"
proof (rule thread_create_inv [OF assms, of kt se nm aux])
  fix l assume "thread_create kt se nm pri function aux k = Some (TID_ERROR, k\<lparr>thread_create_limit := l\<rparr>)"
  moreover have "sched_inv (k\<lparr>thread_create_limit := l\<rparr>)" using assms(1) by (subst sched_inv_cong [of _ k]) simp_all
  ultimately show ?thesis using assms(5) by simp
next
  fix t k' assume "thread_create kt se nm pri function aux k = Some (next_tid k, k')" "sched_inv k'"
    "in_external_intr k' = in_external_intr k"
  then show ?thesis using assms(5) by blast
qed

lemma sched_reach_inv: "sched_reach kt se k \<Longrightarrow> sched_inv k \<and> \<not> in_external_intr k"
proof (induction rule: sched_reach.induct)
  case (boot k k' k'')
  then show ?case using boot_inv by blast
next
  case (level k l old k')
  then show ?case by (cases l) (auto simp: intr_set_level_def intr_enable_def intr_context_def)
next
  case (idle k)
  then have inv: "sched_inv k" by simp
  note c = sched_inv_cur [OF inv]
  have "st (k\<lparr>idle_thread := cur k\<rparr>) = st k" by (simp add: st_def fun_eq_iff)
  moreover have "0 < t" if "st k t = Some THREAD_READY" for t
    using that by (rule_tac sched_thread [OF c(4) that]) (simp add: thread_ok_def)
  ultimately have "sched_wf (k\<lparr>idle_thread := cur k\<rparr>)"
    using c idle(2) used_pages_cong [of "k\<lparr>idle_thread := cur k\<rparr>" k] sched_wfD [OF c(4)]
    unfolding sched_wf_def thread_ok_def by auto
  then show ?case using idle inv by (simp add: sched_inv_def st_def)
next
  case (block k k')
  then have "level k = INTR_OFF" by (auto simp: thread_block_def panic_simps intr_get_level_def)
  then obtain k'' where "thread_block k = Some k''" "sched_inv k''" "\<not> in_external_intr k''"
    using block block_can_switch by (blast elim: thread_block_inv)
  then show ?case using block by simp
next
  case (unblock k t k')
  then have "st k t = Some THREAD_BLOCKED"
    by (auto simp: thread_unblock_def panic_simps Option.bind_eq_Some_conv st_def Let_def)
  then obtain k'' where "thread_unblock t k = Some k''" "sched_inv k''"
      "k'' = (upd_thread t (\<lambda>th. th\<lparr>status := THREAD_READY\<rparr>) k)\<lparr>ready_list := ready_list k @ [t]\<rparr>"
    using unblock by (blast elim: thread_unblock_inv)
  then show ?case using unblock by simp
next
  case (yield k old k')
  then obtain k'' where "thread_yield k = Some (level k, k'')" "sched_inv k''" "\<not> in_external_intr k''"
    by (blast elim: thread_yield_inv)
  then show ?case using yield by simp
next
  case (mem k k')
  then show ?case using mem_step_inv by metis
next
  case (exit k k')
  then obtain k'' where "thread_exit_finish k = Some k''" "sched_inv k''" "\<not> in_external_intr k''"
    using exit_can_switch by (blast elim: thread_exit_inv)
  then show ?case using exit by simp
next
  case (create k f pri nm aux i k')
  then show ?case using thread_create_frame [of k f pri kt se nm aux] by auto
next
  case (tick k b k')
  then have inv: "sched_inv k" "\<not> in_external_intr k" by simp_all
  show ?case
  proof (rule clock_interrupt [OF inv tick(3)])
    fix k1 k'' assume h: "intr_handler (\<lambda>_. thread_tick) 0x20 (k\<lparr>level := INTR_OFF\<rparr>) =
      Some ((thread_ticks k + 1) mod 2 ^ 32 \<ge> TIME_SLICE, k'')" "sched_inv k1" "\<not> in_external_intr k1"
      "if (thread_ticks k + 1) mod 2 ^ 32 \<ge> TIME_SLICE then thread_yield k1 = Some (INTR_OFF, k'') else k'' = k1"
    obtain k2 where "thread_yield k1 = Some (level k1, k2)" "sched_inv k2" "\<not> in_external_intr k2"
      by (rule thread_yield_inv [OF h(2,3)])
    then show ?thesis using h tick(4) by (auto split: if_splits)
  qed
qed

section \<open>Properties of the scheduler\<close>

text \<open>C18: In every state that scheduler calls, clock interrupts and the memory and process steps
  between them reach after the boot, exactly one thread runs,
  the run queue holds exactly the ready threads other than the idle thread, each once, the list of
  all threads holds exactly the threads that are not dying, thread identifiers are distinct, every
  thread structure is intact, and every thread other than the initial one owns an allocated page.\<close>

theorem scheduler_invariant: "sched_reach kt se k \<Longrightarrow> sched_inv k"
  by (simp add: sched_reach_inv)

text \<open>C19: In every reachable state, once the idle thread has been started, no scheduler operation
  fails an assertion when it is called as its comment requires: blocking with interrupts off,
  yielding, waking a blocked thread, creating a thread, and, in a thread other than the idle thread,
  what \<^verbatim>\<open>thread_exit\<close> does once \<^verbatim>\<open>process_exit\<close> has returned.\<close>

theorem scheduler_no_panic:
  assumes "sched_reach kt se k" "idle_thread k \<noteq> 0"
  shows "(level k = INTR_OFF \<longrightarrow> thread_block k \<noteq> None) \<and> thread_yield k \<noteq> None \<and>
    (cur k \<noteq> idle_thread k \<longrightarrow> thread_exit_finish k \<noteq> None) \<and>
    (\<forall>t. st k t = Some THREAD_BLOCKED \<longrightarrow> t \<noteq> idle_thread k \<longrightarrow> thread_unblock t k \<noteq> None) \<and>
    (\<forall>nm pri function aux. function \<noteq> 0 \<and> PRI_MIN \<le> pri \<and> pri \<le> PRI_MAX \<and> next_tid k < 2 ^ 31 - 1 \<longrightarrow>
      thread_create kt se nm pri function aux k \<noteq> None)"
proof -
  have inv: "sched_inv k" "\<not> in_external_intr k" using sched_reach_inv [OF assms(1)] by simp_all
  have cs: "can_switch k" using assms(2) by (simp add: can_switch_def)
  have "thread_block k \<noteq> None" if "level k = INTR_OFF"
    using thread_block_inv [OF inv(1) that inv(2) cs] by (metis option.distinct(1))
  moreover have "thread_yield k \<noteq> None" using thread_yield_inv [OF inv] by (metis option.distinct(1))
  moreover have "thread_exit_finish k \<noteq> None" if "cur k \<noteq> idle_thread k"
    using thread_exit_inv [OF inv that cs] by (metis option.distinct(1))
  moreover have "thread_unblock t k \<noteq> None" if "st k t = Some THREAD_BLOCKED" "t \<noteq> idle_thread k" for t
    using thread_unblock_inv [OF inv(1) that] inv(2) by (metis option.distinct(1))
  moreover have "thread_create kt se nm pri f aux k \<noteq> None"
    if "f \<noteq> 0 \<and> PRI_MIN \<le> pri \<and> pri \<le> PRI_MAX \<and> next_tid k < 2 ^ 31 - 1" for nm pri f aux
    using thread_create_frame [OF inv(1), of f pri kt se nm aux] that inv(2) by auto
  ultimately show ?thesis by blast
qed

primrec yields :: "nat \<Rightarrow> 'a kernel_scheme \<Rightarrow> 'a kernel_scheme option" where
  "yields 0 k = Some k"
| "yields (Suc n) k = do { (old, k) \<leftarrow> thread_yield k; yields n k }"

lemma yields_round_robin:
  "sched_inv k \<Longrightarrow> \<not> in_external_intr k \<Longrightarrow> i < length (ready_list k) \<Longrightarrow>
   \<exists>k'. yields (Suc i) k = Some k' \<and> cur k' = ready_list k ! i"
proof (induction i arbitrary: k)
  case 0
  show ?case
  proof (rule thread_yield_inv [OF 0(1,2)])
    fix k' assume "thread_yield k = Some (level k, k')"
      "cur k' = (if queue_with_cur k = [] then idle_thread k else hd (queue_with_cur k))"
    then show ?thesis using 0(3) by (cases "ready_list k") (auto simp: queue_with_cur_def)
  qed
next
  case (Suc i)
  show ?case
  proof (rule thread_yield_inv [OF Suc.prems(1,2)])
    fix k1 assume k1: "thread_yield k = Some (level k, k1)" "sched_inv k1" "\<not> in_external_intr k1"
      "ready_list k1 = tl (queue_with_cur k)"
    obtain t ts where r: "ready_list k = t # ts" using Suc.prems(3) by (cases "ready_list k") auto
    have rl: "ready_list k1 = ts @ (if cur k = idle_thread k then [] else [cur k])" using k1(4) r by (simp add: queue_with_cur_def)
    then have "i < length (ready_list k1)" "ready_list k1 ! i = ready_list k ! Suc i"
      using Suc.prems(3) r by (simp_all add: nth_append)
    then show ?thesis using Suc.IH [OF k1(2,3)] k1(1) by simp
  qed
qed

text \<open>C20: Scheduling is round robin and no ready thread is passed over: the thread at position \<open>i\<close>
  of the run queue of any reachable state runs after exactly \<open>i + 1\<close> yields, whoever yields.\<close>

theorem round_robin:
  "sched_reach kt se k \<Longrightarrow> i < length (ready_list k) \<Longrightarrow>
   \<exists>k'. yields (Suc i) k = Some k' \<and> cur k' = ready_list k ! i"
  using sched_reach_inv [of kt se k] yields_round_robin [of k i] by simp

text \<open>Clock interrupts that arrive while interrupts are on, and the return from them.\<close>

primrec clock_interrupts :: "nat \<Rightarrow> 'a kernel_scheme \<Rightarrow> 'a kernel_scheme option" where
  "clock_interrupts 0 k = Some k"
| "clock_interrupts (Suc n) k = do {
     (_, k) \<leftarrow> intr_handler (\<lambda>_. thread_tick) 0x20 (k\<lparr>level := INTR_OFF\<rparr>);
     clock_interrupts n (k\<lparr>level := INTR_ON\<rparr>) }"

lemma clock_interrupts_preempt:
  assumes "sched_inv k" "\<not> in_external_intr k" "intr_handlers k 0x20 \<noteq> 0" "ready_list k \<noteq> []"
    "thread_ticks k + n = TIME_SLICE" "0 < n"
  shows "\<exists>k'. clock_interrupts n k = Some k' \<and> cur k' = hd (ready_list k)"
  using assms
proof (induction n arbitrary: k)
  case (Suc n)
  show ?case
  proof (rule clock_interrupt [OF Suc.prems(1-3)])
    fix k1 k'
    assume h: "intr_handler (\<lambda>_. thread_tick) 0x20 (k\<lparr>level := INTR_OFF\<rparr>) =
        Some ((thread_ticks k + 1) mod 2 ^ 32 \<ge> TIME_SLICE, k')" "sched_inv k1" "\<not> in_external_intr k1"
      "ready_list k1 = ready_list k" "thread_ticks k1 = (thread_ticks k + 1) mod 2 ^ 32" "intr_handlers k1 = intr_handlers k"
      "if (thread_ticks k + 1) mod 2 ^ 32 \<ge> TIME_SLICE then thread_yield k1 = Some (INTR_OFF, k') else k' = k1"
    have t: "(thread_ticks k + 1) mod 2 ^ 32 = thread_ticks k + 1" using Suc.prems(5) by simp
    show ?thesis
    proof (cases n)
      case 0
      then have y: "thread_yield k1 = Some (INTR_OFF, k')" using h(7) t Suc.prems(5) by simp
      obtain k2 where "thread_yield k1 = Some (level k1, k2)"
          "cur k2 = (if queue_with_cur k1 = [] then idle_thread k1 else hd (queue_with_cur k1))"
        by (rule thread_yield_inv [OF h(2,3)])
      then have "cur k' = hd (ready_list k)" using y h(4) Suc.prems(4) by (simp add: queue_with_cur_def)
      then show ?thesis using h(1) 0 by simp
    next
      case (Suc m)
      then have "k' = k1" using h(7) t Suc.prems(5) by simp
      moreover have "\<exists>k''. clock_interrupts n (k1\<lparr>level := INTR_ON\<rparr>) = Some k'' \<and> cur k'' = hd (ready_list (k1\<lparr>level := INTR_ON\<rparr>))"
        by (rule Suc.IH) (use h(2-6) t Suc Suc.prems in simp_all)
      ultimately show ?thesis using h(1,4) by simp
    qed
  qed
qed simp

text \<open>C21: A running thread keeps the CPU for at most one time slice: after as many clock interrupts as
  are left of its slice of four ticks, the thread at the head of the run queue runs.\<close>

theorem preemption_bound:
  assumes "sched_reach kt se k" "intr_handlers k 0x20 \<noteq> 0" "ready_list k \<noteq> []" "thread_ticks k < TIME_SLICE"
  shows "\<exists>k'. clock_interrupts (TIME_SLICE - thread_ticks k) k = Some k' \<and> cur k' = hd (ready_list k)"
  using sched_reach_inv [OF assms(1)] clock_interrupts_preempt [of k "TIME_SLICE - thread_ticks k"] assms(2-4) by simp

text \<open>C22: \<^verbatim>\<open>thread_create\<close> either fails with \<^verbatim>\<open>TID_ERROR\<close> and changes nothing but the failure counter,
  or returns a new identifier for a thread in a page no thread had before: it is ready, last in the
  run queue, named after the first word of its command line, and its stack starts it in the given
  function with the given argument; every other thread is unchanged.\<close>

theorem thread_create_correct:
  assumes "sched_reach kt se k" "function \<noteq> 0" "PRI_MIN \<le> pri" "pri \<le> PRI_MAX" "next_tid k < 2 ^ 31 - 1"
  shows "(\<exists>l. thread_create kt se nm pri function aux k = Some (TID_ERROR, k\<lparr>thread_create_limit := l\<rparr>)) \<or>
    (\<exists>t k'. thread_create kt se nm pri function aux k = Some (next_tid k, k') \<and> sched_inv k' \<and> threads k t = None \<and>
      (\<forall>u th. threads k u = Some th \<longrightarrow> tid th \<noteq> next_tid k) \<and>
      threads k' = (threads k)(t \<mapsto> new_thread t nm pri (next_tid k) (t + 4048) THREAD_READY) \<and>
      ready_list k' = ready_list k @ [t] \<and> cur k' = cur k \<and> level k' = level k \<and>
      initial_stack (ram k') t kt se function aux)"
proof -
  have inv: "sched_inv k" "\<not> in_external_intr k" using sched_reach_inv [OF assms(1)] by simp_all
  have "tid th \<noteq> next_tid k" if "threads k u = Some th" for u th
    using sched_wfD(5) [OF sched_inv_cur(4) [OF inv(1)] that] by (simp add: thread_ok_def)
  then show ?thesis
    using thread_create_inv [OF inv(1) assms(2-4) inv(2) assms(5), of kt se nm aux] by metis
qed

section \<open>A booted system\<close>

definition demo_boot :: kernel where
  "demo_boot = intr.extend (demo_intr\<lparr>level := INTR_OFF, intr_handlers := (\<lambda>v. if v = 0x20 then 0xc0030000 else 0)\<rparr>)
     \<lparr>threads = Map.empty, cur = 0xc000e000, ready_list = [], all_list = [], idle_thread = 0, initial_thread = 0,
      next_tid = 1, idle_ticks = 0, kernel_ticks = 0, user_ticks = 0, thread_ticks = 0, thread_create_limit = 0,
      tss = 0xc0040000, tss_esp0 = 0\<rparr>"

lemma demo_boot_pools: "kernel_pool demo_boot = kernel_pool demo_mmu" "user_pool demo_boot = user_pool demo_mmu"
  by (simp_all add: demo_boot_def demo_intr_def intr.defs mmu.defs)

lemma demo_boot_state: "boot_state demo_boot"
  by (simp add: boot_state_def) (simp add: demo_boot_def demo_intr_def intr.defs mmu.defs)

lemma demo_boot_init:
  obtains k where "thread_init demo_boot = Some k" "boot_init k k"
    "k = demo_boot\<lparr>threads := [0xc000e000 \<mapsto> new_thread 0xc000e000 ''main'' PRI_DEFAULT 1 0xc000f000 THREAD_RUNNING],
      ready_list := [], all_list := [0xc000e000], initial_thread := 0xc000e000, next_tid := 2\<rparr>"
proof -
  have b: "cur demo_boot = 0xc000e000" by (simp add: demo_boot_def intr.defs)
  have "mmu_wf demo_boot" using used_pages_cong(3) [OF demo_boot_pools] demo_mmu_wf(1) by simp
  moreover have "0xc000e000 \<notin> pool_pages (kernel_pool demo_boot)"
    unfolding demo_boot_pools by (auto simp: demo_mmu_def pool_pages_def region_def)
  moreover have "is_kernel_vaddr (init_page_dir demo_boot)" "tss demo_boot \<noteq> 0" "\<not> in_external_intr demo_boot"
    by (simp_all add: demo_boot_def demo_intr_def demo_mmu_def intr.defs mmu.defs is_kernel_vaddr_def)
  moreover define k where "k = demo_boot\<lparr>threads := [0xc000e000 \<mapsto> new_thread 0xc000e000 ''main'' PRI_DEFAULT 1 0xc000f000 THREAD_RUNNING],
      ready_list := [], all_list := [0xc000e000], initial_thread := 0xc000e000, next_tid := 2\<rparr>"
  moreover have "mmu_wf k = mmu_wf demo_boot" by (rule used_pages_cong) (simp_all add: k_def)
  moreover have "thread_init demo_boot = Some k" using thread_init_eq [OF demo_boot_state] by (simp add: b k_def)
  ultimately show thesis by (intro that [of k]) (simp_all add: boot_init_def b)
qed

text \<open>The system after \<^verbatim>\<open>thread_init\<close>, with the main thread as idle thread, and with one more thread.\<close>

definition demo_main :: kernel where
  "demo_main = demo_boot\<lparr>threads := [0xc000e000 \<mapsto> new_thread 0xc000e000 ''main'' PRI_DEFAULT 1 0xc000f000 THREAD_RUNNING],
    ready_list := [], all_list := [0xc000e000], initial_thread := 0xc000e000, next_tid := 2, idle_thread := 0xc000e000\<rparr>"

lemma demo_main_fields: "idle_thread demo_main = 0xc000e000" "level demo_main = INTR_OFF" "cur demo_main = 0xc000e000"
  "intr_handlers demo_main 0x20 \<noteq> 0" "thread_ticks demo_main = 0" "next_tid demo_main = 2" "thread_create_limit demo_main = 0"
  "kernel_pool demo_main = kernel_pool demo_mmu" "user_pool demo_main = user_pool demo_mmu" "ready_list demo_main = []"
  "\<not> in_external_intr demo_main"
  by (simp_all add: demo_main_def demo_boot_def demo_intr_def intr.defs mmu.defs)

lemma demo_main_reach: "sched_reach kt se demo_main"
proof -
  have b: "cur demo_boot = 0xc000e000" "idle_thread demo_boot = 0" by (simp_all add: demo_boot_def intr.defs)
  obtain k where k: "thread_init demo_boot = Some k" "boot_init k k"
    "k = demo_boot\<lparr>threads := [0xc000e000 \<mapsto> new_thread 0xc000e000 ''main'' PRI_DEFAULT 1 0xc000f000 THREAD_RUNNING],
      ready_list := [], all_list := [0xc000e000], initial_thread := 0xc000e000, next_tid := 2\<rparr>"
    by (rule demo_boot_init)
  have "sched_reach kt se (k\<lparr>idle_thread := cur k\<rparr>)"
    by (rule sched_reach.idle [OF sched_reach.boot [OF demo_boot_state k(1,2)]]) (simp add: k(3) b)
  then show ?thesis by (simp add: k(3) b demo_main_def)
qed

text \<open>The kernel pool of this system has a free page, so the first \<^verbatim>\<open>thread_create\<close> succeeds.\<close>

lemma demo_page_free:
  obtains t kp up m where "palloc_get_page PAL_ZERO demo_main = Some (t, demo_main\<lparr>kernel_pool := kp, user_pool := up, ram := m\<rparr>)"
    "kernel_page t"
proof -
  have inv: "sched_inv demo_main" using sched_reach_inv [OF demo_main_reach] by simp
  have wf: "mmu_wf demo_main" "pmem_wf demo_main"
    using sched_wfD(1) [OF sched_inv_cur(4) [OF inv]] by (simp_all add: mmu_wf_def)
  have "\<not> bm (used_map (kernel_pool demo_mmu)) ! 1"
    by (simp add: demo_mmu_def nth_bm elem_idx_def)
  then have run: "run_of (bm (used_map (kernel_pool demo_mmu))) 1 1 False"
    by (simp add: run_of_def) (simp add: demo_mmu_def)
  have ne: "palloc_get_page PAL_ZERO demo_main \<noteq> Some (0, demo_main)"
  proof (rule palloc_get_cases [OF wf(2), of 1 PAL_ZERO])
    assume "\<forall>i. \<not> run_of (bm (used_map (pool_at demo_main (pool_for PAL_ZERO)))) i 1 False"
    then show ?thesis using run by (simp add: pool_for_def demo_main_fields)
  next
    fix i s' assume "palloc_get_multiple PAL_ZERO 1 demo_main = Some (base (pool_at demo_main (pool_for PAL_ZERO)) + PGSIZE * i, s')"
    then show ?thesis by (simp add: palloc_get_page_def pool_for_def demo_main_fields demo_mmu_def)
  qed simp
  show thesis
    by (rule palloc_get_page_ok [OF wf(1)]) (use ne that in blast)+
qed

lemma demo_create_succeeds: "thread_create 1 2 nm PRI_DEFAULT 3 4 demo_main \<noteq> Some (TID_ERROR, k)"
proof -
  obtain t kp up m where p: "palloc_get_page PAL_ZERO demo_main = Some (t, demo_main\<lparr>kernel_pool := kp, user_pool := up, ram := m\<rparr>)"
      "kernel_page t" by (rule demo_page_free)
  have d: "DEBUG_thread_create_simulate_fail demo_main = (False, demo_main)"
    by (simp add: DEBUG_thread_create_simulate_fail_def demo_main_fields)
  have l: "demo_main = demo_main\<lparr>thread_create_limit := 0\<rparr>" using demo_main_fields(7) by (cases demo_main) simp
  show ?thesis
    using thread_create_page [OF _ _ _ _ _ _ d l p, where fn = 3 and pri = PRI_DEFAULT and kt = 1 and se = 2 and aux = 4 and nm = nm]
      demo_main_fields by (auto simp: Option.bind_eq_Some_conv)
qed

lemma demo_create:
  obtains t k' where "thread_create 1 2 ''a.out x'' PRI_DEFAULT 3 4 demo_main = Some (2, k')" "sched_reach 1 2 k'"
    "ready_list k' = [t]" "thread_ticks k' = 0" "intr_handlers k' 0x20 \<noteq> 0"
proof -
  have inv: "sched_inv demo_main" using sched_reach_inv [OF demo_main_reach] by simp
  show thesis
  proof (rule thread_create_inv [OF inv, of 3 PRI_DEFAULT 1 2 "''a.out x''" 4])
    fix t k' assume "thread_create 1 2 ''a.out x'' PRI_DEFAULT 3 4 demo_main = Some (next_tid demo_main, k')"
      "ready_list k' = ready_list demo_main @ [t]" "thread_ticks k' = thread_ticks demo_main" "intr_handlers k' = intr_handlers demo_main"
    moreover from this have "sched_reach 1 2 k'"
      by (rule_tac sched_reach.create [OF demo_main_reach]) (simp_all add: demo_main_fields)
    ultimately show thesis by (rule_tac that [of k' t]) (simp_all add: demo_main_fields)
  qed (use demo_create_succeeds demo_main_fields in simp_all)
qed

theorem scheduler_invariant_witness: "sched_inv demo_main \<and> cur demo_main \<notin> set (ready_list demo_main)"
  using scheduler_invariant [OF demo_main_reach] sched_inv_cur(2) [of demo_main] by simp

theorem scheduler_no_panic_witness: "\<exists>k. thread_block demo_main = Some k"
  using scheduler_no_panic [OF demo_main_reach] by (simp add: demo_main_fields)

theorem round_robin_witness: "\<exists>k k' t. ready_list k = [t] \<and> yields 1 k = Some (k' :: kernel) \<and> cur k' = t"
proof (rule demo_create)
  fix t and k :: kernel assume k: "sched_reach 1 2 k" "ready_list k = [t]"
  then obtain k' where "yields (Suc 0) k = Some k'" "cur k' = ready_list k ! 0" using round_robin [OF k(1), of 0] by auto
  then have "ready_list k = [t] \<and> yields 1 k = Some k' \<and> cur k' = t" using k(2) by simp
  then show ?thesis by blast
qed

theorem preemption_bound_witness: "\<exists>k k' t. ready_list k = [t] \<and> clock_interrupts 4 k = Some (k' :: kernel) \<and> cur k' = t"
proof (rule demo_create)
  fix t and k :: kernel assume k: "sched_reach 1 2 k" "ready_list k = [t]" "thread_ticks k = 0" "intr_handlers k 0x20 \<noteq> 0"
  then obtain k' where "clock_interrupts 4 k = Some k'" "cur k' = t" using preemption_bound [OF k(1)] by auto
  then show ?thesis using k(2) by blast
qed

theorem thread_create_correct_witness:
  "\<exists>t k'. thread_create 1 2 ''a.out x'' PRI_DEFAULT 3 4 demo_main = Some (2, k') \<and>
     ready_list k' = [t] \<and> map_option name (threads k' t) = Some ''a.out'' \<and> initial_stack (ram k') t 1 2 3 4"
  using thread_create_correct [OF demo_main_reach, of 3 PRI_DEFAULT 1 2 "''a.out x''" 4] demo_create_succeeds [of "''a.out x''"]
  by (auto simp: demo_main_fields new_thread_def first_word_def)

end
