(* ===== verification/Synch.thy ===== *)
theory Synch
  imports Thread
begin

text \<open>
  Semaphores, locks and condition variables (\<^verbatim>\<open>threads/synch.c\<close>). A semaphore, lock or condition
  variable is the address of its structure; the structures are part of the kernel state. The
  semaphore of a lock is the second member of \<^verbatim>\<open>struct lock\<close>, four bytes into it.

  \<^verbatim>\<open>sema_down\<close> may block inside its loop. \<open>sema_down_iter\<close> is one evaluation of the loop
  condition with what follows it: either the semaphore is decremented and the interrupt level
  restored, or the caller is queued and blocked, and the state is that of the next thread. A
  blocked caller evaluates \<open>sema_down_iter\<close> again when it is resumed.
\<close>

record semaphore =
  "value" :: nat
  waiters :: "nat list"

record sync = kernel +
  semas :: "nat \<Rightarrow> semaphore"
  holder :: "nat \<Rightarrow> nat"
  conds :: "nat \<Rightarrow> nat list"

definition set_sema :: "nat \<Rightarrow> semaphore \<Rightarrow> 'a sync_scheme \<Rightarrow> 'a sync_scheme" where
  "set_sema a v s = s\<lparr>semas := (semas s)(a := v)\<rparr>"

section \<open>Semaphores\<close>

definition sema_init :: "nat \<Rightarrow> nat \<Rightarrow> 'a sync_scheme \<Rightarrow> 'a sync_scheme option" where
  "sema_init sema v s = do {
     ASSERT (sema \<noteq> 0);
     Some (set_sema sema \<lparr>value = v, waiters = []\<rparr> s)
   }"

definition sema_down_iter ::
  "nat \<Rightarrow> intr_level \<Rightarrow> 'a sync_scheme \<Rightarrow> (bool \<times> 'a sync_scheme) option" where
  "sema_down_iter sema old_level s =
     (let v = semas s sema
      in if value v = 0 then do {
           t \<leftarrow> thread_current s;
           s \<leftarrow> thread_block (set_sema sema (v\<lparr>waiters := waiters v @ [t]\<rparr>) s);
           Some (False, s)
         }
         else do {
           (_, s) \<leftarrow> intr_set_level old_level (set_sema sema (v\<lparr>value := value v - 1\<rparr>) s);
           Some (True, s)
         })"

definition sema_down :: "nat \<Rightarrow> 'a sync_scheme \<Rightarrow> (intr_level \<times> bool \<times> 'a sync_scheme) option" where
  "sema_down sema s = do {
     ASSERT (sema \<noteq> 0);
     ASSERT (\<not> intr_context s);
     let (old_level, s) = intr_disable s;
     (dn, s) \<leftarrow> sema_down_iter sema old_level s;
     Some (old_level, dn, s)
   }"

definition sema_try_down :: "nat \<Rightarrow> 'a sync_scheme \<Rightarrow> (bool \<times> 'a sync_scheme) option" where
  "sema_try_down sema s = do {
     ASSERT (sema \<noteq> 0);
     let (old_level, s) = intr_disable s;
     let v = semas s sema;
     let (success, s) = (if value v > 0 then (True, set_sema sema (v\<lparr>value := value v - 1\<rparr>) s) else (False, s));
     (_, s) \<leftarrow> intr_set_level old_level s;
     Some (success, s)
   }"

definition sema_up :: "nat \<Rightarrow> 'a sync_scheme \<Rightarrow> 'a sync_scheme option" where
  "sema_up sema s = do {
     ASSERT (sema \<noteq> 0);
     let (old_level, s) = intr_disable s;
     let v = semas s sema;
     s \<leftarrow> (case waiters v of [] \<Rightarrow> Some s
          | t # ts \<Rightarrow> thread_unblock t (set_sema sema (v\<lparr>waiters := ts\<rparr>) s));
     let v = semas s sema;
     let s = set_sema sema (v\<lparr>value := (value v + 1) mod 2 ^ 32\<rparr>) s;
     (_, s) \<leftarrow> intr_set_level old_level s;
     Some s
   }"

section \<open>Locks\<close>

definition lock_sema :: "nat \<Rightarrow> nat" where
  "lock_sema lock = lock + 4"

definition lock_init :: "nat \<Rightarrow> 'a sync_scheme \<Rightarrow> 'a sync_scheme option" where
  "lock_init lock s = do {
     ASSERT (lock \<noteq> 0);
     sema_init (lock_sema lock) 1 (s\<lparr>holder := (holder s)(lock := 0)\<rparr>)
   }"

definition lock_held_by_current_thread :: "nat \<Rightarrow> 'a sync_scheme \<Rightarrow> bool option" where
  "lock_held_by_current_thread lock s = do {
     ASSERT (lock \<noteq> 0);
     t \<leftarrow> thread_current s;
     Some (holder s lock = t)
   }"

text \<open>\<^verbatim>\<open>lock_acquire\<close> up to its call of \<^verbatim>\<open>sema_down\<close>, and the assignment after it.\<close>

definition lock_acquire_check :: "nat \<Rightarrow> 'a sync_scheme \<Rightarrow> unit option" where
  "lock_acquire_check lock s = do {
     ASSERT (lock \<noteq> 0);
     ASSERT (\<not> intr_context s);
     h \<leftarrow> lock_held_by_current_thread lock s;
     ASSERT (\<not> h)
   }"

definition lock_set_holder :: "nat \<Rightarrow> 'a sync_scheme \<Rightarrow> 'a sync_scheme option" where
  "lock_set_holder lock s = do {
     t \<leftarrow> thread_current s;
     Some (s\<lparr>holder := (holder s)(lock := t)\<rparr>)
   }"

text \<open>The whole function; the result \<open>False\<close> means that the caller is blocked in \<^verbatim>\<open>sema_down\<close>.\<close>

definition lock_acquire :: "nat \<Rightarrow> 'a sync_scheme \<Rightarrow> (bool \<times> 'a sync_scheme) option" where
  "lock_acquire lock s = do {
     lock_acquire_check lock s;
     (old_level, dn, s) \<leftarrow> sema_down (lock_sema lock) s;
     if dn then do { s \<leftarrow> lock_set_holder lock s; Some (True, s) } else Some (False, s)
   }"

definition lock_try_acquire :: "nat \<Rightarrow> 'a sync_scheme \<Rightarrow> (bool \<times> 'a sync_scheme) option" where
  "lock_try_acquire lock s = do {
     ASSERT (lock \<noteq> 0);
     h \<leftarrow> lock_held_by_current_thread lock s;
     ASSERT (\<not> h);
     (success, s) \<leftarrow> sema_try_down (lock_sema lock) s;
     if success then do { s \<leftarrow> lock_set_holder lock s; Some (True, s) } else Some (False, s)
   }"

text \<open>\<^verbatim>\<open>lock_release\<close> up to its call of \<^verbatim>\<open>sema_up\<close>, and the whole function.\<close>

definition lock_release_clear :: "nat \<Rightarrow> 'a sync_scheme \<Rightarrow> 'a sync_scheme option" where
  "lock_release_clear lock s = do {
     ASSERT (lock \<noteq> 0);
     h \<leftarrow> lock_held_by_current_thread lock s;
     ASSERT h;
     Some (s\<lparr>holder := (holder s)(lock := 0)\<rparr>)
   }"

definition lock_release :: "nat \<Rightarrow> 'a sync_scheme \<Rightarrow> 'a sync_scheme option" where
  "lock_release lock s = do {
     s \<leftarrow> lock_release_clear lock s;
     sema_up (lock_sema lock) s
   }"

section \<open>Condition variables\<close>

definition cond_init :: "nat \<Rightarrow> 'a sync_scheme \<Rightarrow> 'a sync_scheme option" where
  "cond_init cond s = do {
     ASSERT (cond \<noteq> 0);
     Some (s\<lparr>conds := (conds s)(cond := [])\<rparr>)
   }"

text \<open>\<^verbatim>\<open>cond_wait\<close> up to its call of \<^verbatim>\<open>lock_release\<close>; \<open>waiter\<close> is the semaphore on the stack of the
  caller.\<close>

definition cond_wait_enqueue :: "nat \<Rightarrow> nat \<Rightarrow> nat \<Rightarrow> 'a sync_scheme \<Rightarrow> 'a sync_scheme option" where
  "cond_wait_enqueue cond lock waiter s = do {
     ASSERT (cond \<noteq> 0);
     ASSERT (lock \<noteq> 0);
     ASSERT (\<not> intr_context s);
     h \<leftarrow> lock_held_by_current_thread lock s;
     ASSERT h;
     s \<leftarrow> sema_init waiter 0 s;
     Some (s\<lparr>conds := (conds s)(cond := conds s cond @ [waiter])\<rparr>)
   }"

definition cond_signal_check :: "nat \<Rightarrow> nat \<Rightarrow> 'a sync_scheme \<Rightarrow> unit option" where
  "cond_signal_check cond lock s = do {
     ASSERT (cond \<noteq> 0);
     ASSERT (lock \<noteq> 0);
     ASSERT (\<not> intr_context s);
     h \<leftarrow> lock_held_by_current_thread lock s;
     ASSERT h
   }"

definition cond_signal :: "nat \<Rightarrow> nat \<Rightarrow> 'a sync_scheme \<Rightarrow> 'a sync_scheme option" where
  "cond_signal cond lock s = do {
     cond_signal_check cond lock s;
     case conds s cond of [] \<Rightarrow> Some s
     | w # ws \<Rightarrow> sema_up w (s\<lparr>conds := (conds s)(cond := ws)\<rparr>)
   }"

definition cond_broadcast :: "nat \<Rightarrow> nat \<Rightarrow> 'a sync_scheme \<Rightarrow> 'a sync_scheme option" where
  "cond_broadcast cond lock s = do {
     ASSERT (cond \<noteq> 0);
     ASSERT (lock \<noteq> 0);
     for_each (conds s cond) (\<lambda>_ s. cond_signal cond lock s) s
   }"

section \<open>What the operations do\<close>

lemma more_sync:
  assumes "kernel.more s' = kernel.more s"
  shows "semas s' = semas s" "holder s' = holder s" "conds s' = conds s" "sync.more s' = sync.more s"
  using assms by (cases s; cases s'; simp)+

lemma set_sema_simps [simp]:
  "semas (set_sema a v s) = (semas s)(a := v)" "holder (set_sema a v s) = holder s" "conds (set_sema a v s) = conds s"
  "cur (set_sema a v s) = cur s" "level (set_sema a v s) = level s" "in_external_intr (set_sema a v s) = in_external_intr s"
  "ready_list (set_sema a v s) = ready_list s" "idle_thread (set_sema a v s) = idle_thread s" "threads (set_sema a v s) = threads s"
  "st (set_sema a v s) = st s" "can_switch (set_sema a v s) = can_switch s" "next_of (set_sema a v s) = next_of s"
  "core (set_sema a v s) = core s" "sync.more (set_sema a v s) = sync.more s" "thread_ticks (set_sema a v s) = thread_ticks s"
  by (simp_all add: set_sema_def st_def core_def fun_eq_iff can_switch_def next_of_def next_thread_to_run_def split: list.split)

lemma sched_inv_sync [simp]:
  "sched_inv (set_sema a v s) = sched_inv s" "sched_inv (s\<lparr>holder := h\<rparr>) = sched_inv s" "sched_inv (s\<lparr>conds := c\<rparr>) = sched_inv s"
  by (rule sched_inv_cong; simp add: set_sema_def)+

lemma st_level [simp]: "st (s\<lparr>level := l\<rparr>) = st s" "st (s\<lparr>holder := h\<rparr>) = st s" "st (s\<lparr>conds := c\<rparr>) = st s"
  by (simp_all add: st_def fun_eq_iff)

text \<open>A semaphore is decremented if it is positive; otherwise the caller is queued last and blocked
  and another thread runs.\<close>

lemma sema_down_iter_pos:
  assumes "0 < value (semas s a)" "\<not> in_external_intr s"
  shows "sema_down_iter a old s = Some (True, (set_sema a ((semas s a)\<lparr>value := value (semas s a) - 1\<rparr>) s)\<lparr>level := old\<rparr>)"
  using assms by (simp add: sema_down_iter_def Let_def)

lemma sema_down_iter_zero:
  assumes "sched_inv s" "value (semas s a) = 0" "\<not> in_external_intr s" "level s = INTR_OFF" "can_switch s"
  obtains s' where "sema_down_iter a old s = Some (False, s')" "sched_inv s'" "cur s' = next_of s" "level s' = INTR_OFF"
    "idle_thread s' = idle_thread s" "\<not> in_external_intr s'" "ready_list s' = tl (ready_list s)"
    "semas s' = (semas s)(a := (semas s a)\<lparr>waiters := waiters (semas s a) @ [cur s]\<rparr>)"
    "holder s' = holder s" "conds s' = conds s"
    "\<forall>t. st s' t = (if t = next_of s then Some THREAD_RUNNING else if t = cur s then Some THREAD_BLOCKED else st s t)"
proof -
  define s1 where "s1 = set_sema a ((semas s a)\<lparr>waiters := waiters (semas s a) @ [cur s]\<rparr>) s"
  have p: "sched_inv s1" "level s1 = INTR_OFF" "\<not> in_external_intr s1" "can_switch s1" using assms by (simp_all add: s1_def)
  obtain s' where s': "thread_block s1 = Some s'" "sched_inv s'" "cur s' = next_of s1" "level s' = INTR_OFF"
    "ready_list s' = tl (ready_list s1)" "idle_thread s' = idle_thread s1" "\<not> in_external_intr s'"
    "kernel.more s' = kernel.more s1" "core s' = core s1"
    "\<forall>t. st s' t = (if t = next_of s1 then Some THREAD_RUNNING else if t = cur s1 then Some THREAD_BLOCKED else st s1 t)"
    by (rule thread_block_inv [OF p])
  have "sema_down_iter a old s = Some (False, s')" using assms s'(1) by (simp add: sema_down_iter_def s1_def Let_def)
  then show thesis
    by (rule that) (use s' more_sync [OF s'(8)] in \<open>simp_all add: s1_def\<close>)
qed

lemma sema_up_eq:
  assumes inv: "sched_inv s" and a: "a \<noteq> 0" "\<not> in_external_intr s \<or> level s = INTR_OFF"
    and w: "\<And>t ts. waiters (semas s a) = t # ts \<Longrightarrow> st s t = Some THREAD_BLOCKED \<and> t \<noteq> idle_thread s"
  obtains s' where "sema_up a s = Some s'" "sched_inv s'" "cur s' = cur s" "level s' = level s" "idle_thread s' = idle_thread s"
    "in_external_intr s' = in_external_intr s" "holder s' = holder s" "conds s' = conds s"
    "semas s' = (semas s)(a := \<lparr>value = (value (semas s a) + 1) mod 2 ^ 32, waiters = tl (waiters (semas s a))\<rparr>)"
    "ready_list s' = ready_list s @ take 1 (waiters (semas s a))"
    "\<forall>t. st s' t = (if t \<in> set (take 1 (waiters (semas s a))) then Some THREAD_READY else st s t)"
proof -
  define v where "v = semas s a"
  define s1 where "s1 = (set_sema a (v\<lparr>waiters := tl (waiters v)\<rparr>) s)\<lparr>level := INTR_OFF\<rparr>"
  have p: "sched_inv s1" "\<not> in_external_intr s1 \<or> level s1 = INTR_OFF" using inv by (simp_all add: s1_def)
  show thesis
  proof (cases "waiters v")
    case Nil
    define s' where "s' = (set_sema a \<lparr>value = (value v + 1) mod 2 ^ 32, waiters = tl (waiters v)\<rparr> s)\<lparr>level := level s\<rparr>"
    have e: "v\<lparr>value := n\<rparr> = \<lparr>value = n, waiters = tl (waiters v)\<rparr>" for n using Nil by (cases v) simp
    have "sema_up a s = Some s'"
      using a Nil by (simp add: sema_up_def v_def [symmetric] e Let_def s'_def) (simp add: set_sema_def)
    then show thesis
      by (rule that) (use inv Nil in \<open>simp_all add: s'_def v_def [symmetric]\<close>)
  next
    case (Cons t ts)
    have wt: "st s t = Some THREAD_BLOCKED" "t \<noteq> idle_thread s" using w Cons by (simp_all add: v_def)
    then have wt1: "st s1 t = Some THREAD_BLOCKED" "t \<noteq> idle_thread s1" by (simp_all add: s1_def)
    obtain s2 where s2: "thread_unblock t s1 = Some s2" "sched_inv s2"
        "s2 = (upd_thread t (\<lambda>th. th\<lparr>status := THREAD_READY\<rparr>) s1)\<lparr>ready_list := ready_list s1 @ [t]\<rparr>"
        "\<forall>u. st s2 u = (if u = t then Some THREAD_READY else st s1 u)"
      by (rule thread_unblock_inv [OF p(1) wt1 p(2)])
    define s' where "s' = (set_sema a \<lparr>value = (value v + 1) mod 2 ^ 32, waiters = tl (waiters v)\<rparr> s2)\<lparr>level := level s\<rparr>"
    have f: "semas s2 = (semas s)(a := v\<lparr>waiters := ts\<rparr>)" "holder s2 = holder s" "conds s2 = conds s" "cur s2 = cur s"
      "idle_thread s2 = idle_thread s" "in_external_intr s2 = in_external_intr s" "ready_list s2 = ready_list s @ [t]"
      using Cons by (simp_all add: s2(3) s1_def upd_thread_def)
    have s1: "set_sema a (v\<lparr>waiters := ts\<rparr>) (s\<lparr>level := INTR_OFF\<rparr>) = s1"
      using Cons by (simp add: s1_def set_sema_def)
    have e: "v\<lparr>waiters := ws, value := n\<rparr> = \<lparr>value = n, waiters = ws\<rparr>" for ws n by (cases v) simp
    have "sema_up a s = Some s'"
      using a Cons s2(1) f by (auto simp: sema_up_def v_def [symmetric] s1 Let_def s'_def e)
    then show thesis
      by (rule that) (use s2 f Cons in \<open>simp_all add: s'_def v_def [symmetric] s1_def\<close>)
  qed
qed

end
