(* ===== verification/Interleaving.thy ===== *)
theory Interleaving
  imports Synch
begin

text \<open>
  Threads that use semaphores, locks and condition variables under preemption. The source calls
  of \<^verbatim>\<open>synch.c\<close> are cut into micro-operations at the points where another thread can run: every
  micro-operation is code that runs with interrupts off, or a single assignment. Each thread has
  a list of micro-operations it still has to execute; a clock interrupt can preempt the running
  thread between any two of them.

  The invariant of the resulting transition system gives mutual exclusion for locks and shows
  that no wake-up is lost.
\<close>

datatype mop =
    M_down nat "nat option"
  | M_loop nat intr_level "nat option"
  | M_acquire nat
  | M_try nat
  | M_hold nat
  | M_release nat
  | M_lock_up nat
  | M_up nat
  | M_cond_wait nat nat nat
  | M_signal nat nat
  | M_yield
  | M_level intr_level

text \<open>A successful \<^verbatim>\<open>sema_down\<close> is followed by the assignment of the holder if it was called by
  \<^verbatim>\<open>lock_acquire\<close>.\<close>

primrec after :: "nat option \<Rightarrow> mop list" where
  "after None = []"
| "after (Some lock) = [M_hold lock]"

text \<open>One micro-operation of the running thread: what it still has to do, and the new state.\<close>

primrec exec :: "mop \<Rightarrow> 'a sync_scheme \<Rightarrow> (mop list \<times> 'a sync_scheme) option" where
  "exec (M_down a nx) s = do {
     (old, dn, s) \<leftarrow> sema_down a s;
     Some (if dn then after nx else [M_loop a old nx], s) }"
| "exec (M_loop a old nx) s = do {
     (dn, s) \<leftarrow> sema_down_iter a old s;
     Some (if dn then after nx else [M_loop a old nx], s) }"
| "exec (M_acquire l) s = do {
     lock_acquire_check l s;
     Some ([M_down (lock_sema l) (Some l)], s) }"
| "exec (M_try l) s = do {
     ASSERT (l \<noteq> 0);
     h \<leftarrow> lock_held_by_current_thread l s;
     ASSERT (\<not> h);
     (success, s) \<leftarrow> sema_try_down (lock_sema l) s;
     Some (if success then [M_hold l] else [], s) }"
| "exec (M_hold l) s = do { s \<leftarrow> lock_set_holder l s; Some ([], s) }"
| "exec (M_release l) s = do { s \<leftarrow> lock_release_clear l s; Some ([M_lock_up l], s) }"
| "exec (M_lock_up l) s = do { s \<leftarrow> sema_up (lock_sema l) s; Some ([], s) }"
| "exec (M_up a) s = do { s \<leftarrow> sema_up a s; Some ([], s) }"
| "exec (M_cond_wait c l w) s = do {
     s \<leftarrow> cond_wait_enqueue c l w s;
     Some ([M_release l, M_down w None, M_acquire l], s) }"
| "exec (M_signal c l) s = do {
     cond_signal_check c l s;
     case conds s c of [] \<Rightarrow> Some ([], s)
     | w # ws \<Rightarrow> Some ([M_up w], s\<lparr>conds := (conds s)(c := ws)\<rparr>) }"
| "exec M_yield s = do { (old, s) \<leftarrow> thread_yield s; Some ([M_level old], s) }"
| "exec (M_level l) s = do { (_, s) \<leftarrow> intr_set_level l s; Some ([], s) }"

text \<open>Executed without interruption, the micro-operations are the functions of the source.\<close>

lemma exec_release: "lock_release l s = do { (_, s) \<leftarrow> exec (M_release l) s; (_, s) \<leftarrow> exec (M_lock_up l) s; Some s }"
  by (simp add: lock_release_def split: bind_split)

lemma exec_acquire:
  "lock_acquire l s = do {
     (_, s) \<leftarrow> exec (M_acquire l) s;
     (m, s) \<leftarrow> exec (M_down (lock_sema l) (Some l)) s;
     if m = [M_hold l] then do { (_, s) \<leftarrow> exec (M_hold l) s; Some (True, s) } else Some (False, s) }"
  by (auto simp: lock_acquire_def split: bind_split)

lemma exec_signal:
  "cond_signal c l s = do {
     (m, s) \<leftarrow> exec (M_signal c l) s;
     if m = [] then Some s else do { (_, s) \<leftarrow> exec (hd m) s; Some s } }"
  by (auto simp: cond_signal_def Option.bind_eq_None_conv Option.bind_eq_Some_conv split: bind_split list.split)

record sys =
  ks :: sync
  todo :: "nat \<Rightarrow> mop list"
  irets :: "nat set"

text \<open>Micro-operations that only appear while a call is being executed.\<close>

primrec static :: "mop \<Rightarrow> bool" where
  "static (M_down a nx) = True" | "static (M_loop a old nx) = False" | "static (M_acquire l) = True"
| "static (M_try l) = True" | "static (M_hold l) = False" | "static (M_release l) = True"
| "static (M_lock_up l) = False" | "static (M_up a) = True" | "static (M_cond_wait c l w) = True"
| "static (M_signal c l) = True" | "static M_yield = True" | "static (M_level l) = True"

text \<open>\<open>L\<close> are the locks of the system: their semaphores are used by the lock functions only.\<close>

primrec mop_ok :: "nat set \<Rightarrow> mop \<Rightarrow> bool" where
  "mop_ok L (M_down a nx) = (case nx of None \<Rightarrow> a \<notin> lock_sema ` L | Some l \<Rightarrow> l \<in> L \<and> a = lock_sema l)"
| "mop_ok L (M_loop a old nx) = (case nx of None \<Rightarrow> a \<notin> lock_sema ` L | Some l \<Rightarrow> l \<in> L \<and> a = lock_sema l)"
| "mop_ok L (M_acquire l) = (l \<in> L)" | "mop_ok L (M_try l) = (l \<in> L)" | "mop_ok L (M_hold l) = (l \<in> L)"
| "mop_ok L (M_release l) = (l \<in> L)" | "mop_ok L (M_lock_up l) = (l \<in> L)" | "mop_ok L (M_up a) = (a \<notin> lock_sema ` L)"
| "mop_ok L (M_cond_wait c l w) = (l \<in> L \<and> w \<notin> lock_sema ` L)" | "mop_ok L (M_signal c l) = (l \<in> L)"
| "mop_ok L M_yield = True" | "mop_ok L (M_level l) = True"

text \<open>The calls a thread can make.\<close>

definition api_call :: "nat set \<Rightarrow> mop \<Rightarrow> bool" where
  "api_call L m \<longleftrightarrow> static m \<and> mop_ok L m \<and> (case m of M_level _ \<Rightarrow> False | M_down _ nx \<Rightarrow> nx = None | _ \<Rightarrow> True)"

text \<open>The semaphore on the stack of a thread that calls \<^verbatim>\<open>cond_wait\<close> is not in use.\<close>

definition fresh_waiter :: "mop \<Rightarrow> 'a sync_scheme \<Rightarrow> bool" where
  "fresh_waiter m s \<longleftrightarrow> (case m of M_cond_wait c l w \<Rightarrow> waiters (semas s w) = [] | _ \<Rightarrow> True)"

text \<open>The steps of the system: the running thread starts a call or executes the next micro-operation,
  changes memory or its process members, creates a thread or ends; the clock interrupts it; an
  interrupted thread resumes; the idle thread blocks. The calls that \<^verbatim>\<open>process_exit\<close> makes are calls
  like any other, and a thread ends with the part of \<^verbatim>\<open>thread_exit\<close> after it, holding no lock.\<close>

inductive sys_step :: "nat set \<Rightarrow> sys \<Rightarrow> sys \<Rightarrow> bool" for L where
  call: "t = cur (ks S) \<Longrightarrow> t \<notin> irets S \<Longrightarrow> todo S t = [] \<Longrightarrow> t \<noteq> idle_thread (ks S) \<Longrightarrow> api_call L m \<Longrightarrow>
    sys_step L S (S\<lparr>todo := (todo S)(t := [m])\<rparr>)"
| run: "t = cur (ks S) \<Longrightarrow> t \<notin> irets S \<Longrightarrow> todo S t = m # ms \<Longrightarrow> fresh_waiter m (ks S) \<Longrightarrow> exec m (ks S) = Some (ms', s') \<Longrightarrow>
    sys_step L S (S\<lparr>ks := s', todo := (todo S)(t := ms' @ ms)\<rparr>)"
| clock: "level (ks S) = INTR_ON \<Longrightarrow> intr_handlers (ks S) 0x20 \<noteq> 0 \<Longrightarrow>
    intr_handler (\<lambda>_. thread_tick) 0x20 ((ks S)\<lparr>level := INTR_OFF\<rparr>) = Some (b, s') \<Longrightarrow>
    sys_step L S (if b then S\<lparr>ks := s', irets := insert (cur (ks S)) (irets S)\<rparr> else S\<lparr>ks := s'\<lparr>level := INTR_ON\<rparr>\<rparr>)"
| iret: "cur (ks S) \<in> irets S \<Longrightarrow>
    sys_step L S (S\<lparr>ks := (ks S)\<lparr>level := INTR_ON\<rparr>, irets := irets S - {cur (ks S)}\<rparr>)"
| idle: "t = cur (ks S) \<Longrightarrow> t = idle_thread (ks S) \<Longrightarrow> t \<notin> irets S \<Longrightarrow> thread_block ((ks S)\<lparr>level := INTR_OFF\<rparr>) = Some s' \<Longrightarrow>
    sys_step L S (S\<lparr>ks := s', irets := insert t (irets S)\<rparr>)"
| exit: "t = cur (ks S) \<Longrightarrow> t \<notin> irets S \<Longrightarrow> todo S t = [] \<Longrightarrow> t \<noteq> idle_thread (ks S) \<Longrightarrow> (\<forall>l \<in> L. holder (ks S) l \<noteq> t) \<Longrightarrow>
    thread_exit_finish (ks S) = Some s' \<Longrightarrow> sys_step L S (S\<lparr>ks := s'\<rparr>)"
| mem: "cur (ks S) \<notin> irets S \<Longrightarrow> todo S (cur (ks S)) = [] \<Longrightarrow> mem_step (ks S) s' \<Longrightarrow> sys_step L S (S\<lparr>ks := s'\<rparr>)"
| create: "t = cur (ks S) \<Longrightarrow> t \<notin> irets S \<Longrightarrow> todo S t = [] \<Longrightarrow> t \<noteq> idle_thread (ks S) \<Longrightarrow> next_tid (ks S) < 2 ^ 31 - 1 \<Longrightarrow> f \<noteq> 0 \<Longrightarrow> PRI_MIN \<le> pri \<Longrightarrow> pri \<le> PRI_MAX \<Longrightarrow>
    thread_create kt se nm pri f aux (ks S) = Some (i, s') \<Longrightarrow>
    sys_step L S (S\<lparr>ks := s', irets := irets S \<union> (dom (threads s') - dom (threads (ks S)))\<rparr>)"

text \<open>Initially no thread is inside a call and all locks are as \<^verbatim>\<open>lock_init\<close> leaves them.\<close>

definition sys_init :: "nat set \<Rightarrow> sys \<Rightarrow> bool" where
  "sys_init L S \<longleftrightarrow> sched_inv (ks S) \<and> \<not> in_external_intr (ks S) \<and> todo S = (\<lambda>_. []) \<and>
     (\<forall>a. waiters (semas (ks S) a) = []) \<and> (\<forall>c. conds (ks S) c = []) \<and>
     (\<forall>l \<in> L. holder (ks S) l = 0 \<and> value (semas (ks S) (lock_sema l)) = 1)"

inductive sys_reach :: "nat set \<Rightarrow> sys \<Rightarrow> bool" for L where
  init: "sys_init L S \<Longrightarrow> sys_reach L S"
| step: "sys_reach L S \<Longrightarrow> sys_step L S S' \<Longrightarrow> sys_reach L S'"

section \<open>The invariant\<close>

text \<open>A thread inside the loop of \<^verbatim>\<open>sema_down\<close>, and a thread that has decremented the semaphore of a
  lock and not yet incremented it again.\<close>

fun loop_head :: "mop list \<Rightarrow> nat option" where
  "loop_head (M_loop a old nx # ms) = Some a"
| "loop_head _ = None"

fun own_head :: "mop list \<Rightarrow> nat option" where
  "own_head (M_hold l # ms) = Some l"
| "own_head (M_lock_up l # ms) = Some l"
| "own_head _ = None"

definition looping :: "(nat \<Rightarrow> mop list) \<Rightarrow> nat \<Rightarrow> nat \<Rightarrow> bool" where
  "looping T t a \<longleftrightarrow> loop_head (T t) = Some a"

definition owning :: "(nat \<Rightarrow> nat) \<Rightarrow> (nat \<Rightarrow> mop list) \<Rightarrow> nat \<Rightarrow> nat \<Rightarrow> bool" where
  "owning h T l t \<longleftrightarrow> t \<noteq> 0 \<and> (h l = t \<or> own_head (T t) = Some l)"

definition lock_ok :: "(nat \<Rightarrow> semaphore) \<Rightarrow> (nat \<Rightarrow> nat) \<Rightarrow> (nat \<Rightarrow> mop list) \<Rightarrow> nat \<Rightarrow> bool" where
  "lock_ok sem h T l \<longleftrightarrow> (value (sem (lock_sema l)) = 1 \<and> (\<forall>t. \<not> owning h T l t) \<or>
     value (sem (lock_sema l)) = 0 \<and> (\<exists>u. \<forall>t. owning h T l t \<longleftrightarrow> t = u)) \<and>
     (\<forall>t. t \<noteq> 0 \<and> own_head (T t) = Some l \<longrightarrow> h l = 0)"

definition wait_ok :: "(nat \<Rightarrow> semaphore) \<Rightarrow> nat set \<Rightarrow> (nat \<Rightarrow> mop list) \<Rightarrow> nat \<Rightarrow> bool" where
  "wait_ok sem B T a \<longleftrightarrow> distinct (waiters (sem a)) \<and>
     (\<forall>t. t \<in> set (waiters (sem a)) \<longleftrightarrow> t \<in> B \<and> looping T t a) \<and>
     (waiters (sem a) \<noteq> [] \<longrightarrow> value (sem a) \<le> card {t. looping T t a \<and> t \<notin> B})"

definition prog_ok :: "nat set \<Rightarrow> mop list \<Rightarrow> bool" where
  "prog_ok L ms \<longleftrightarrow> (case ms of [] \<Rightarrow> True | m # ms \<Rightarrow> mop_ok L m \<and> list_all (\<lambda>m. static m \<and> mop_ok L m) ms)"

definition sync_ok :: "nat set \<Rightarrow> (nat \<Rightarrow> semaphore) \<Rightarrow> (nat \<Rightarrow> nat) \<Rightarrow> (nat \<Rightarrow> nat list) \<Rightarrow> nat set \<Rightarrow> (nat \<Rightarrow> mop list) \<Rightarrow> bool" where
  "sync_ok L sem h con B T \<longleftrightarrow> (\<forall>t. prog_ok L (T t)) \<and> (\<forall>c. \<forall>w \<in> set (con c). w \<notin> lock_sema ` L) \<and>
     (\<forall>a. wait_ok sem B T a) \<and> (\<forall>l \<in> L. lock_ok sem h T l) \<and> finite {t. T t \<noteq> []}"

definition blocked :: "'a kernel_scheme \<Rightarrow> nat set" where
  "blocked k = {t. st k t = Some THREAD_BLOCKED}"

definition sys_inv :: "nat set \<Rightarrow> sys \<Rightarrow> bool" where
  "sys_inv L S \<longleftrightarrow> sched_inv (ks S) \<and> \<not> in_external_intr (ks S) \<and>
     (\<forall>t. todo S t \<noteq> [] \<longrightarrow> st (ks S) t \<noteq> None \<and> t \<noteq> idle_thread (ks S) \<and> st (ks S) t \<noteq> Some THREAD_DYING) \<and>
     sync_ok L (semas (ks S)) (holder (ks S)) (conds (ks S)) (blocked (ks S)) (todo S)"

section \<open>Steps of the synchronisation state\<close>

lemma static_heads: "list_all (\<lambda>m. static m \<and> mop_ok L m) ms \<Longrightarrow> loop_head ms = None \<and> own_head ms = None \<and> prog_ok L ms"
proof (cases ms)
  case (Cons m ms')
  assume "list_all (\<lambda>m. static m \<and> mop_ok L m) ms"
  then show ?thesis using Cons by (cases m) (simp_all add: prog_ok_def)
qed (simp add: prog_ok_def)

lemma prog_okD: "prog_ok L (m # ms) \<Longrightarrow> mop_ok L m \<and> list_all (\<lambda>m. static m \<and> mop_ok L m) ms"
  by (simp add: prog_ok_def)

lemma finite_looping: "finite {t. T t \<noteq> []} \<Longrightarrow> finite {t. looping T t a \<and> P t}"
  by (erule finite_subset [rotated]) (auto simp: looping_def)

lemma finite_upd: "finite {t. T t \<noteq> []} \<Longrightarrow> finite {u. (T(t := n)) u \<noteq> []}"
  by (rule finite_subset [of _ "insert t {t. T t \<noteq> []}"]) auto

lemma wait_ok_same:
  assumes "wait_ok sem B T a" "sem' a = sem a" "\<And>u. looping T' u a \<longleftrightarrow> looping T u a" "\<And>u. looping T u a \<Longrightarrow> u \<in> B' \<longleftrightarrow> u \<in> B"
  shows "wait_ok sem' B' T' a"
proof -
  have "{t. looping T' t a \<and> t \<notin> B'} = {t. looping T t a \<and> t \<notin> B}" using assms(3,4) by auto
  then show ?thesis using assms by (auto simp: wait_ok_def)
qed

lemma lock_ok_same:
  assumes "lock_ok sem h T l" "value (sem' (lock_sema l)) = value (sem (lock_sema l))" "h' l = h l"
    "\<And>t. own_head (T' t) = Some l \<longleftrightarrow> own_head (T t) = Some l"
  shows "lock_ok sem' h' T' l"
proof -
  have "owning h' T' l t \<longleftrightarrow> owning h T l t" for t using assms by (simp add: owning_def)
  then show ?thesis using assms by (simp add: lock_ok_def)
qed

lemma sync_okD:
  assumes "sync_ok L sem h con B T"
  shows "prog_ok L (T t)" "w \<in> set (con c) \<Longrightarrow> w \<notin> lock_sema ` L" "wait_ok sem B T a" "l \<in> L \<Longrightarrow> lock_ok sem h T l"
    "finite {t. T t \<noteq> []}"
  using assms by (auto simp: sync_ok_def)

lemma sync_okI:
  assumes "\<And>t. prog_ok L (T t)" "\<And>w c. w \<in> set (con c) \<Longrightarrow> w \<notin> lock_sema ` L" "\<And>a. wait_ok sem B T a"
    "\<And>l. l \<in> L \<Longrightarrow> lock_ok sem h T l" "finite {t. T t \<noteq> []}"
  shows "sync_ok L sem h con B T"
  using assms by (simp add: sync_ok_def)

text \<open>The running thread moves on in its program without entering or leaving a loop or a lock.\<close>

lemma sync_ok_move:
  assumes ok: "sync_ok L sem h con B T" and n: "prog_ok L n" "loop_head n = loop_head (T t)" "own_head n = own_head (T t)"
  shows "sync_ok L sem h con B (T(t := n))"
proof (rule sync_okI)
  show "prog_ok L ((T(t := n)) u)" for u using sync_okD(1) [OF ok] n(1) by simp
  show "wait_ok sem B (T(t := n)) a" for a
    by (rule wait_ok_same [OF sync_okD(3) [OF ok]]) (use n(2) in \<open>auto simp: looping_def\<close>)
  show "lock_ok sem h (T(t := n)) l" if "l \<in> L" for l
    by (rule lock_ok_same [OF sync_okD(4) [OF ok that]]) (use n(3) in \<open>auto simp: owning_def\<close>)
qed (use sync_okD(2) [OF ok] finite_upd [OF sync_okD(5) [OF ok]] in auto)

text \<open>A semaphore is decremented.\<close>

lemma lock_sema_inj [simp]: "lock_sema l = lock_sema k \<longleftrightarrow> l = k"
  by (simp add: lock_sema_def)

lemma sync_ok_down:
  assumes ok: "sync_ok L sem h con B T" and t: "t \<notin> B" "t \<noteq> 0"
    and T: "loop_head (T t) = None \<or> loop_head (T t) = Some a" "own_head (T t) = None"
    and nx: "case nx of None \<Rightarrow> a \<notin> lock_sema ` L | Some l \<Rightarrow> l \<in> L \<and> a = lock_sema l"
    and ms: "list_all (\<lambda>m. static m \<and> mop_ok L m) ms"
    and pos: "0 < value (sem a)"
  shows "sync_ok L (sem(a := (sem a)\<lparr>value := value (sem a) - 1\<rparr>)) h con B (T(t := after nx @ ms))"
    (is "sync_ok L ?sem h con B ?T")
proof (rule sync_okI)
  have hd: "loop_head (after nx @ ms) = None" "own_head (after nx @ ms) = nx" "prog_ok L (after nx @ ms)"
    using static_heads [OF ms] ms nx by (cases nx; auto simp: prog_ok_def)+
  have fin: "finite {t. T t \<noteq> []}" using ok by (simp add: sync_ok_def)
  show "prog_ok L (?T u)" for u using ok hd(3) by (simp add: sync_ok_def)
  show "finite {u. ?T u \<noteq> []}" by (rule finite_upd [OF fin])
  show "w \<notin> lock_sema ` L" if "w \<in> set (con c)" for c w using ok that by (auto simp: sync_ok_def)
  show "wait_ok ?sem B ?T b" for b
  proof (cases "b = a")
    case False
    have "wait_ok sem B T b" using ok by (simp add: sync_ok_def)
    then show ?thesis by (rule wait_ok_same) (use False T hd in \<open>auto simp: looping_def\<close>)
  next
    case True
    have w: "wait_ok sem B T a" using ok by (simp add: sync_ok_def)
    have W: "{u. looping ?T u a \<and> u \<notin> B} = {u. looping T u a \<and> u \<notin> B} - {t}"
      using hd(1) by (auto simp: looping_def)
    have "card ({u. looping T u a \<and> u \<notin> B} - {t}) \<ge> card {u. looping T u a \<and> u \<notin> B} - 1"
      by (simp add: diff_le_mono2 card_Diff_singleton_if)
    moreover have "looping ?T u a \<longleftrightarrow> looping T u a" if "u \<in> B" for u using that t(1) by (auto simp: looping_def)
    ultimately show ?thesis using w unfolding True wait_ok_def W by auto
  qed
  show "lock_ok ?sem h ?T l" if l: "l \<in> L" for l
  proof -
    have old: "lock_ok sem h T l" using ok l by (simp add: sync_ok_def)
    show ?thesis
    proof (cases "nx = Some l")
      case True
      then have "a = lock_sema l" using nx by simp
      then have no: "value (sem a) = 1" "\<And>u. \<not> owning h T l u" using old pos by (auto simp: lock_ok_def)
      then have "owning h ?T l u \<longleftrightarrow> u = t" for u using hd(2) True t(2) by (auto simp: owning_def)
      moreover have "h l = 0" using no(2) [of "h l"] by (auto simp: owning_def)
      ultimately show ?thesis using no \<open>a = lock_sema l\<close> by (auto simp: lock_ok_def)
    next
      case False
      then have "a \<noteq> lock_sema l" using nx l by (cases nx) auto
      then show ?thesis using old False T(2) hd(2)
        by (rule_tac lock_ok_same [of sem h T]) (auto simp: owning_def)
    qed
  qed
qed

text \<open>The running thread is queued and blocks in the loop of \<^verbatim>\<open>sema_down\<close>.\<close>

lemma sync_ok_block:
  assumes ok: "sync_ok L sem h con B T" and t: "t \<notin> B"
    and T: "loop_head (T t) = None \<or> loop_head (T t) = Some a" "own_head (T t) = None"
    and nx: "case nx of None \<Rightarrow> a \<notin> lock_sema ` L | Some l \<Rightarrow> l \<in> L \<and> a = lock_sema l"
    and ms: "list_all (\<lambda>m. static m \<and> mop_ok L m) ms"
    and zero: "value (sem a) = 0"
  shows "sync_ok L (sem(a := (sem a)\<lparr>waiters := waiters (sem a) @ [t]\<rparr>)) h con (insert t B) (T(t := M_loop a old nx # ms))"
    (is "sync_ok L ?sem h con ?B ?T")
proof (rule sync_okI)
  show "prog_ok L (?T u)" for u using sync_okD(1) [OF ok] nx ms by (simp add: prog_ok_def)
  show "finite {u. ?T u \<noteq> []}" by (rule finite_upd [OF sync_okD(5) [OF ok]])
  show "w \<notin> lock_sema ` L" if "w \<in> set (con c)" for c w using sync_okD(2) [OF ok that] .
  show "wait_ok ?sem ?B ?T b" for b
  proof (cases "b = a")
    case False
    show ?thesis by (rule wait_ok_same [OF sync_okD(3) [OF ok]]) (use False T in \<open>auto simp: looping_def\<close>)
  next
    case True
    have w: "distinct (waiters (sem a))" "\<And>u. u \<in> set (waiters (sem a)) \<longleftrightarrow> u \<in> B \<and> looping T u a"
      using sync_okD(3) [OF ok, of a] by (simp_all add: wait_ok_def)
    then have "t \<notin> set (waiters (sem a))" using t by simp
    then show ?thesis using w zero unfolding True wait_ok_def by (auto simp: looping_def)
  qed
  show "lock_ok ?sem h ?T l" if "l \<in> L" for l
    by (rule lock_ok_same [OF sync_okD(4) [OF ok that]]) (use T(2) in \<open>auto simp: owning_def\<close>)
qed

text \<open>A semaphore is incremented and the first waiting thread, if any, is woken.\<close>

lemma wait_ok_up:
  assumes w: "wait_ok sem B T a" and fin: "finite {t. T t \<noteq> []}"
  defines "sem' \<equiv> sem(a := \<lparr>value = (value (sem a) + 1) mod 2 ^ 32, waiters = tl (waiters (sem a))\<rparr>)"
  defines "B' \<equiv> B - set (take 1 (waiters (sem a)))"
  shows "wait_ok sem' B' T a"
proof (cases "waiters (sem a)")
  case Nil
  then show ?thesis using w by (simp add: wait_ok_def sem'_def B'_def)
next
  case (Cons u us)
  have d: "distinct (u # us)" "\<And>x. x \<in> set (u # us) \<longleftrightarrow> x \<in> B \<and> looping T x a" "value (sem a) \<le> card {t. looping T t a \<and> t \<notin> B}"
    using w Cons by (simp_all add: wait_ok_def)
  have u: "u \<in> B" "looping T u a" using d(2) [of u] by simp_all
  then have "{t. looping T t a \<and> t \<notin> B'} = insert u {t. looping T t a \<and> t \<notin> B}" using Cons by (auto simp: B'_def)
  then have "card {t. looping T t a \<and> t \<notin> B'} = Suc (card {t. looping T t a \<and> t \<notin> B})"
    using u finite_looping [OF fin, of a "\<lambda>t. t \<notin> B"] by simp
  moreover have "(value (sem a) + 1) mod 2 ^ 32 \<le> Suc (value (sem a))" by (metis Suc_eq_plus1 mod_less_eq_dividend)
  ultimately have "(value (sem a) + 1) mod 2 ^ 32 \<le> card {t. looping T t a \<and> t \<notin> B'}" using d(3) by linarith
  moreover have "x \<in> set us \<longleftrightarrow> x \<in> B' \<and> looping T x a" for x using d(1) d(2) [of x] Cons by (auto simp: B'_def)
  ultimately show ?thesis using d(1) Cons by (simp add: wait_ok_def sem'_def)
qed

lemma wait_ok_up_other:
  assumes ok: "\<And>b. wait_ok sem B T b" and "b \<noteq> a"
  shows "wait_ok (sem(a := v)) (B - set (take 1 (waiters (sem a)))) T b"
proof (rule wait_ok_same [OF ok])
  fix u assume l: "looping T u b"
  then have "\<not> looping T u a" using assms(2) by (auto simp: looping_def)
  then have "u \<notin> set (waiters (sem a))" using ok [of a] by (simp add: wait_ok_def)
  then show "u \<in> B - set (take 1 (waiters (sem a))) \<longleftrightarrow> u \<in> B" by (auto dest: in_set_takeD)
qed (use assms in auto)

lemma sync_ok_up:
  assumes ok: "sync_ok L sem h con B T" and T: "T t = m # ms" "m = M_up a \<and> a \<notin> lock_sema ` L \<or> (\<exists>l \<in> L. m = M_lock_up l \<and> a = lock_sema l)"
    and t0: "t \<noteq> 0"
  shows "sync_ok L (sem(a := \<lparr>value = (value (sem a) + 1) mod 2 ^ 32, waiters = tl (waiters (sem a))\<rparr>)) h con
     (B - set (take 1 (waiters (sem a)))) (T(t := ms))" (is "sync_ok L ?sem h con ?B ?T")
proof (rule sync_okI)
  have st: "list_all (\<lambda>m. static m \<and> mop_ok L m) ms" using sync_okD(1) [OF ok, of t] T(1) by (simp add: prog_ok_def)
  note hd = static_heads [OF st]
  show "prog_ok L (?T u)" for u using sync_okD(1) [OF ok] hd by simp
  show "finite {u. ?T u \<noteq> []}" by (rule finite_upd [OF sync_okD(5) [OF ok]])
  show "w \<notin> lock_sema ` L" if "w \<in> set (con c)" for c w using sync_okD(2) [OF ok that] .
  have lo: "looping ?T u b \<longleftrightarrow> looping T u b" for u b using hd T by (auto simp: looping_def)
  have wo: "wait_ok ?sem ?B T b" for b
    using wait_ok_up [OF sync_okD(3,5) [OF ok]] wait_ok_up_other [OF sync_okD(3) [OF ok]] by (cases "b = a") auto
  show "wait_ok ?sem ?B ?T b" for b by (rule wait_ok_same [OF wo]) (use lo in simp_all)
  show "lock_ok ?sem h ?T l" if l: "l \<in> L" for l
  proof (cases "m = M_lock_up l")
    case True
    have "owning h T l t" and hl: "h l = 0" using t0 T(1) True sync_okD(4) [OF ok l] by (auto simp: owning_def lock_ok_def)
    then have o: "value (sem (lock_sema l)) = 0" "\<And>u. owning h T l u \<longleftrightarrow> u = t"
      using sync_okD(4) [OF ok l] by (auto simp: lock_ok_def)
    have no: "\<not> owning h ?T l u" for u using o(2) [of u] hd hl by (auto simp: owning_def)
    moreover have "a = lock_sema l" using T(2) True by auto
    ultimately show ?thesis using o(1) hl by (simp add: lock_ok_def)
  next
    case False
    then have "a \<noteq> lock_sema l" using T(2) l by auto
    then show ?thesis
      by (rule_tac lock_ok_same [OF sync_okD(4) [OF ok l]]) (use False T hd in \<open>auto simp: owning_def\<close>)
  qed
qed

text \<open>The holder of a lock is set and cleared.\<close>

lemma sync_ok_hold:
  assumes ok: "sync_ok L sem h con B T" and T: "T t = M_hold l # ms" and t0: "t \<noteq> 0"
  shows "sync_ok L sem (h(l := t)) con B (T(t := ms))" (is "sync_ok L sem ?h con B ?T")
proof (rule sync_okI)
  have st: "list_all (\<lambda>m. static m \<and> mop_ok L m) ms" and lL: "l \<in> L"
    using sync_okD(1) [OF ok, of t] T by (simp_all add: prog_ok_def)
  note hd = static_heads [OF st]
  show "prog_ok L (?T u)" for u using sync_okD(1) [OF ok] hd by simp
  show "finite {u. ?T u \<noteq> []}" by (rule finite_upd [OF sync_okD(5) [OF ok]])
  show "w \<notin> lock_sema ` L" if "w \<in> set (con c)" for c w using sync_okD(2) [OF ok that] .
  show "wait_ok sem B ?T a" for a
    by (rule wait_ok_same [OF sync_okD(3) [OF ok]]) (use hd T in \<open>auto simp: looping_def\<close>)
  show "lock_ok sem ?h ?T k" if k: "k \<in> L" for k
  proof (cases "k = l")
    case False
    then show ?thesis by (rule_tac lock_ok_same [OF sync_okD(4) [OF ok k]]) (use False T hd in auto)
  next
    case True
    have "owning h T l t" using T t0 by (simp add: owning_def)
    then have o: "value (sem (lock_sema l)) = 0" "\<And>u. owning h T l u \<longleftrightarrow> u = t"
      using sync_okD(4) [OF ok lL] by (auto simp: lock_ok_def)
    have own: "owning ?h ?T l u \<longleftrightarrow> u = t" for u using o(2) [of u] hd t0 by (auto simp: owning_def)
    have none: "own_head (?T u) \<noteq> Some l" if "u \<noteq> 0" for u using o(2) [of u] hd that by (auto simp: owning_def)
    show ?thesis unfolding True lock_ok_def using o(1) own none by blast
  qed
qed

lemma sync_ok_release:
  assumes ok: "sync_ok L sem h con B T" and T: "T t = M_release l # ms" and t0: "t \<noteq> 0" and h: "h l = t"
  shows "sync_ok L sem (h(l := 0)) con B (T(t := M_lock_up l # ms))" (is "sync_ok L sem ?h con B ?T")
proof (rule sync_okI)
  have st: "list_all (\<lambda>m. static m \<and> mop_ok L m) ms" and lL: "l \<in> L"
    using sync_okD(1) [OF ok, of t] T by (simp_all add: prog_ok_def)
  show "prog_ok L (?T u)" for u using sync_okD(1) [OF ok] st lL by (simp add: prog_ok_def)
  show "finite {u. ?T u \<noteq> []}" by (rule finite_upd [OF sync_okD(5) [OF ok]])
  show "w \<notin> lock_sema ` L" if "w \<in> set (con c)" for c w using sync_okD(2) [OF ok that] .
  show "wait_ok sem B ?T a" for a
    by (rule wait_ok_same [OF sync_okD(3) [OF ok]]) (use T in \<open>auto simp: looping_def\<close>)
  show "lock_ok sem ?h ?T k" if k: "k \<in> L" for k
  proof (cases "k = l")
    case False
    then show ?thesis by (rule_tac lock_ok_same [OF sync_okD(4) [OF ok k]]) (use False T in auto)
  next
    case True
    have "owning h T l t" using h t0 by (simp add: owning_def)
    then have o: "value (sem (lock_sema l)) = 0" "\<And>u. owning h T l u \<longleftrightarrow> u = t"
      using sync_okD(4) [OF ok lL] by (auto simp: lock_ok_def)
    have "owning ?h ?T l u \<longleftrightarrow> u = t" for u using o(2) [of u] t0 by (auto simp: owning_def)
    then show ?thesis unfolding True lock_ok_def using o(1) by auto
  qed
qed

text \<open>A thread prepares to wait on a condition variable.\<close>

lemma sync_ok_cond_wait:
  assumes ok: "sync_ok L sem h con B T" and T: "T t = M_cond_wait c l w # ms" and w: "waiters (sem w) = []"
  shows "sync_ok L (sem(w := \<lparr>value = 0, waiters = []\<rparr>)) h (con(c := con c @ [w])) B
    (T(t := M_release l # M_down w None # M_acquire l # ms))" (is "sync_ok L ?sem h ?con B ?T")
proof (rule sync_okI)
  have st: "list_all (\<lambda>m. static m \<and> mop_ok L m) ms" and lL: "l \<in> L" "w \<notin> lock_sema ` L"
    using sync_okD(1) [OF ok, of t] T by (simp_all add: prog_ok_def)
  show "prog_ok L (?T u)" for u using sync_okD(1) [OF ok] st lL by (simp add: prog_ok_def)
  show "finite {u. ?T u \<noteq> []}" by (rule finite_upd [OF sync_okD(5) [OF ok]])
  show "x \<notin> lock_sema ` L" if "x \<in> set (?con d)" for d x
    using sync_okD(2) [OF ok] that lL(2) by (auto split: if_splits)
  have lo: "looping ?T u a \<longleftrightarrow> looping T u a" for u a using T by (auto simp: looping_def)
  show "wait_ok ?sem B ?T a" for a
  proof (cases "a = w")
    case True
    then show ?thesis using sync_okD(3) [OF ok, of w] w lo by (auto simp: wait_ok_def)
  qed (rule wait_ok_same [OF sync_okD(3) [OF ok]], use lo in auto)
  show "lock_ok ?sem h ?T k" if k: "k \<in> L" for k
    by (rule lock_ok_same [OF sync_okD(4) [OF ok k]]) (use T k lL in auto)
qed

section \<open>Every step keeps the invariant\<close>

lemma sync_ok_cong:
  assumes ok: "sync_ok L sem h con B T" and B: "\<And>u. T u \<noteq> [] \<Longrightarrow> u \<in> B' \<longleftrightarrow> u \<in> B"
  shows "sync_ok L sem h con B' T"
proof (rule sync_okI)
  have "T u \<noteq> []" if "looping T u a" for u a using that by (auto simp: looping_def)
  then show "wait_ok sem B' T a" for a
    by (rule_tac wait_ok_same [OF sync_okD(3) [OF ok]]) (use B in auto)
qed (use sync_okD [OF ok] in auto)

definition alive :: "'a kernel_scheme \<Rightarrow> nat \<Rightarrow> bool" where
  "alive k t \<longleftrightarrow> st k t \<noteq> None \<and> st k t \<noteq> Some THREAD_DYING"

lemma sys_invI:
  assumes "sched_inv s" "\<not> in_external_intr s" "\<And>t. T t \<noteq> [] \<Longrightarrow> alive s t \<and> t \<noteq> idle_thread s"
    "sync_ok L (semas s) (holder s) (conds s) B T" "\<And>t. T t \<noteq> [] \<Longrightarrow> t \<in> B \<longleftrightarrow> st s t = Some THREAD_BLOCKED"
  shows "sys_inv L \<lparr>ks = s, todo = T, irets = I\<rparr>"
proof -
  have "sync_ok L (semas s) (holder s) (conds s) (blocked s) T"
    using assms(5) by (rule_tac sync_ok_cong [OF assms(4)]) (auto simp: blocked_def)
  then show ?thesis using assms(1-3) by (auto simp: sys_inv_def alive_def)
qed

lemma sys_invD:
  assumes "sys_inv L S"
  shows "sched_inv (ks S)" "\<not> in_external_intr (ks S)" "todo S t \<noteq> [] \<Longrightarrow> alive (ks S) t" "todo S t \<noteq> [] \<Longrightarrow> t \<noteq> idle_thread (ks S)"
    "sync_ok L (semas (ks S)) (holder (ks S)) (conds (ks S)) (blocked (ks S)) (todo S)"
  using assms by (auto simp: sys_inv_def alive_def)

lemma cur_facts:
  assumes "sched_inv s"
  shows "cur s \<noteq> 0" "cur s \<notin> blocked s" "alive s (cur s)"
  using sched_inv_cur [OF assms] by (auto simp: blocked_def alive_def thread_ok_def elim: sched_thread)

lemma iter_cases:
  assumes inv: "sched_inv s" "\<not> in_external_intr s" and it: "sema_down_iter a old s = Some (d, s')"
  obtains (taken) "d" "0 < value (semas s a)" "s' = (set_sema a ((semas s a)\<lparr>value := value (semas s a) - 1\<rparr>) s)\<lparr>level := old\<rparr>"
    | (blocks) "\<not> d" "value (semas s a) = 0" "sched_inv s'" "cur s' = next_of s" "can_switch s"
      "idle_thread s' = idle_thread s" "\<not> in_external_intr s'"
      "semas s' = (semas s)(a := (semas s a)\<lparr>waiters := waiters (semas s a) @ [cur s]\<rparr>)"
      "holder s' = holder s" "conds s' = conds s"
      "\<forall>t. st s' t = (if t = next_of s then Some THREAD_RUNNING else if t = cur s then Some THREAD_BLOCKED else st s t)"
proof (cases "value (semas s a) = 0")
  case False
  then show thesis using taken it sema_down_iter_pos [of s a old] inv(2) by simp
next
  case True
  then obtain s1 where b: "thread_block (set_sema a ((semas s a)\<lparr>waiters := waiters (semas s a) @ [cur s]\<rparr>) s) = Some s1"
    using it inv(1) by (auto simp: sema_down_iter_def Let_def Option.bind_eq_Some_conv)
  then have l: "level s = INTR_OFF" by (auto simp: thread_block_def panic_simps intr_get_level_def)
  have cs: "can_switch s" using block_can_switch [OF b] by simp
  obtain s2 where s2: "sema_down_iter a old s = Some (False, s2)" "sched_inv s2" "cur s2 = next_of s" "level s2 = INTR_OFF"
    "idle_thread s2 = idle_thread s" "\<not> in_external_intr s2" "ready_list s2 = tl (ready_list s)"
    "semas s2 = (semas s)(a := (semas s a)\<lparr>waiters := waiters (semas s a) @ [cur s]\<rparr>)"
    "holder s2 = holder s" "conds s2 = conds s"
    "\<forall>t. st s2 t = (if t = next_of s then Some THREAD_RUNNING else if t = cur s then Some THREAD_BLOCKED else st s t)"
    by (rule sema_down_iter_zero [OF inv(1) True inv(2) l cs])
  then show thesis using blocks it True cs by simp
qed

lemma down_step:
  assumes inv: "sched_inv s" "\<not> in_external_intr s" "\<And>t. T t \<noteq> [] \<Longrightarrow> alive s t \<and> t \<noteq> idle_thread s"
    and ok: "sync_ok L (semas s) (holder s) (conds s) (blocked s) T"
    and it: "sema_down_iter a old s = Some (d, s')"
    and T: "T (cur s) = m # ms" "m = M_down a nx \<or> m = M_loop a lv nx"
  shows "sys_inv L \<lparr>ks = s', todo = T(cur s := (if d then after nx else [M_loop a old nx]) @ ms), irets = I\<rparr>"
proof -
  have hd: "loop_head (T (cur s)) = None \<or> loop_head (T (cur s)) = Some a" "own_head (T (cur s)) = None" using T by auto
  have p: "case nx of None \<Rightarrow> a \<notin> lock_sema ` L | Some l \<Rightarrow> l \<in> L \<and> a = lock_sema l" "list_all (\<lambda>m. static m \<and> mop_ok L m) ms"
    using prog_okD [of L m ms] sync_okD(1) [OF ok, of "cur s"] T by auto
  note c = cur_facts [OF inv(1)]
  have ci: "cur s \<noteq> idle_thread s" using inv(3) [of "cur s"] T by simp
  show ?thesis
  proof (rule iter_cases [OF inv(1,2) it])
    assume t: "d" "0 < value (semas s a)" "s' = (set_sema a ((semas s a)\<lparr>value := value (semas s a) - 1\<rparr>) s)\<lparr>level := old\<rparr>"
    show ?thesis
    proof (rule sys_invI [where B = "blocked s"])
      show "sync_ok L (semas s') (holder s') (conds s') (blocked s) (T(cur s := (if d then after nx else [M_loop a old nx]) @ ms))"
        using sync_ok_down [OF ok c(2,1) hd p t(2)] t(1,3) by simp
      show "alive s' u \<and> u \<noteq> idle_thread s'" if "(T(cur s := (if d then after nx else [M_loop a old nx]) @ ms)) u \<noteq> []" for u
        using that inv(3) [of u] T c(3) ci t(3) by (cases "u = cur s") (auto simp: alive_def)
    qed (use inv t(3) in \<open>auto simp: blocked_def\<close>)
  next
    assume b: "\<not> d" "value (semas s a) = 0" "sched_inv s'" "cur s' = next_of s" "can_switch s"
      "idle_thread s' = idle_thread s" "\<not> in_external_intr s'"
      "semas s' = (semas s)(a := (semas s a)\<lparr>waiters := waiters (semas s a) @ [cur s]\<rparr>)"
      "holder s' = holder s" "conds s' = conds s"
      "\<forall>t. st s' t = (if t = next_of s then Some THREAD_RUNNING else if t = cur s then Some THREAD_BLOCKED else st s t)"
    obtain ns where ns: "st s (next_of s) = Some ns" "ns = THREAD_READY \<or> next_of s = idle_thread s"
      by (rule next_of_thread [OF sched_inv_cur(4) [OF inv(1)] b(5)])
    have nc: "next_of s \<noteq> cur s" using ns ci sched_inv_cur(1) [OF inv(1)] by auto
    show ?thesis
    proof (rule sys_invI [where B = "insert (cur s) (blocked s)"])
      show "sync_ok L (semas s') (holder s') (conds s') (insert (cur s) (blocked s)) (T(cur s := (if d then after nx else [M_loop a old nx]) @ ms))"
        using sync_ok_block [OF ok c(2) hd p b(2), of old] b by simp
      show "alive s' u \<and> u \<noteq> idle_thread s'" if "(T(cur s := (if d then after nx else [M_loop a old nx]) @ ms)) u \<noteq> []" for u
        using that inv(3) [of u] T ci b(6,11) by (cases "u = cur s") (auto simp: alive_def)
      show "u \<in> insert (cur s) (blocked s) \<longleftrightarrow> st s' u = Some THREAD_BLOCKED"
        if "(T(cur s := (if d then after nx else [M_loop a old nx]) @ ms)) u \<noteq> []" for u
        using that inv(3) [of u] ns nc b(11) by (auto simp: blocked_def split: if_splits)
    qed (use b in auto)
  qed
qed

lemma up_step:
  assumes inv: "sched_inv s" "\<not> in_external_intr s" "\<And>t. T t \<noteq> [] \<Longrightarrow> alive s t \<and> t \<noteq> idle_thread s"
    and ok: "sync_ok L (semas s) (holder s) (conds s) (blocked s) T"
    and up: "sema_up a s = Some s'"
    and T: "T (cur s) = m # ms" "m = M_up a \<and> a \<notin> lock_sema ` L \<or> (\<exists>l \<in> L. m = M_lock_up l \<and> a = lock_sema l)"
  shows "sys_inv L \<lparr>ks = s', todo = T(cur s := ms), irets = I\<rparr>"
proof -
  note c = cur_facts [OF inv(1)]
  have wt: "st s t = Some THREAD_BLOCKED \<and> t \<noteq> idle_thread s" if "t \<in> set (waiters (semas s a))" for t
  proof -
    have "t \<in> blocked s" "looping T t a" using that sync_okD(3) [OF ok, of a] by (simp_all add: wait_ok_def)
    moreover from this have "T t \<noteq> []" by (auto simp: looping_def)
    ultimately show ?thesis using inv(3) [of t] by (simp add: blocked_def)
  qed
  have a0: "a \<noteq> 0" using up by (auto simp: sema_up_def panic_simps)
  obtain s2 where s2: "sema_up a s = Some s2" "sched_inv s2" "cur s2 = cur s" "level s2 = level s" "idle_thread s2 = idle_thread s"
    "in_external_intr s2 = in_external_intr s" "holder s2 = holder s" "conds s2 = conds s"
    "semas s2 = (semas s)(a := \<lparr>value = (value (semas s a) + 1) mod 2 ^ 32, waiters = tl (waiters (semas s a))\<rparr>)"
    "ready_list s2 = ready_list s @ take 1 (waiters (semas s a))"
    "\<forall>t. st s2 t = (if t \<in> set (take 1 (waiters (semas s a))) then Some THREAD_READY else st s t)"
    by (rule sema_up_eq [OF inv(1) a0]) (use inv(2) wt in auto)
  have e: "s' = s2" using up s2(1) by simp
  have ci: "cur s \<noteq> idle_thread s" using inv(3) [of "cur s"] T by simp
  show ?thesis unfolding e
  proof (rule sys_invI [where B = "blocked s - set (take 1 (waiters (semas s a)))"])
    show "sync_ok L (semas s2) (holder s2) (conds s2) (blocked s - set (take 1 (waiters (semas s a)))) (T(cur s := ms))"
      using sync_ok_up [OF ok T c(1)] s2(7-9) by simp
    show "alive s2 u \<and> u \<noteq> idle_thread s2" if "(T(cur s := ms)) u \<noteq> []" for u
    proof (cases "u = cur s")
      case True
      then show ?thesis using c(3) ci s2(5,11) by (auto simp: alive_def)
    next
      case False
      then show ?thesis using that inv(3) [of u] s2(5,11) by (auto simp: alive_def)
    qed
    show "u \<in> blocked s - set (take 1 (waiters (semas s a))) \<longleftrightarrow> st s2 u = Some THREAD_BLOCKED" for u
      using s2(11) by (auto simp: blocked_def)
  qed (use s2 inv(2) in auto)
qed

text \<open>A step of the program of the running thread that leaves the scheduler state as it is.\<close>

lemma move_step:
  assumes inv: "sched_inv s" "\<not> in_external_intr s" "\<And>t. T t \<noteq> [] \<Longrightarrow> alive s t \<and> t \<noteq> idle_thread s"
    and T: "T (cur s) \<noteq> []" and s': "sched_inv s'" "\<not> in_external_intr s'" "st s' = st s" "idle_thread s' = idle_thread s"
    and ok: "sync_ok L (semas s') (holder s') (conds s') (blocked s) (T(cur s := n))"
  shows "sys_inv L \<lparr>ks = s', todo = T(cur s := n), irets = I\<rparr>"
proof (rule sys_invI [OF s'(1,2) _ ok])
  show "alive s' u \<and> u \<noteq> idle_thread s'" if "(T(cur s := n)) u \<noteq> []" for u
    using that inv(3) [of u] T s'(3,4) by (cases "u = cur s") (auto simp: alive_def)
qed (use s'(3) in \<open>auto simp: blocked_def\<close>)

text \<open>A change of the running thread that leaves every thread inside a call blocked or not blocked as
  it was.\<close>

lemma switch_step:
  assumes inv: "\<And>t. T t \<noteq> [] \<Longrightarrow> alive s t \<and> t \<noteq> idle_thread s"
    and ok: "sync_ok L (semas s) (holder s) (conds s) (blocked s) T"
    and s': "sched_inv s'" "\<not> in_external_intr s'" "idle_thread s' = idle_thread s" "kernel.more s' = kernel.more s"
    and st: "\<And>t. T t \<noteq> [] \<Longrightarrow> alive s' t \<and> (st s' t = Some THREAD_BLOCKED \<longleftrightarrow> st s t = Some THREAD_BLOCKED)"
  shows "sys_inv L \<lparr>ks = s', todo = T, irets = I\<rparr>"
  by (rule sys_invI [where B = "blocked s"]) (use inv ok s' st more_sync [OF s'(4)] in \<open>auto simp: blocked_def\<close>)

lemma yield_step:
  assumes inv: "sched_inv s" "\<not> in_external_intr s" "\<And>t. T t \<noteq> [] \<Longrightarrow> alive s t \<and> t \<noteq> idle_thread s"
    and ok: "sync_ok L (semas s) (holder s) (conds s) (blocked s) T"
    and y: "thread_yield s = Some (old, s')"
  shows "sys_inv L \<lparr>ks = s', todo = T, irets = I\<rparr>"
proof -
  obtain s2 where s2: "thread_yield s = Some (level s, s2)" "sched_inv s2" "level s2 = INTR_OFF"
    "cur s2 = (if queue_with_cur s = [] then idle_thread s else hd (queue_with_cur s))"
    "ready_list s2 = tl (queue_with_cur s)" "idle_thread s2 = idle_thread s" "\<not> in_external_intr s2"
    "kernel.more s2 = kernel.more s" "core s2 = core s"
    "\<forall>t. st s2 t = (if t = cur s2 then Some THREAD_RUNNING else if t = cur s then Some THREAD_READY else st s t)"
    by (rule thread_yield_inv [OF inv(1,2)])
  have e: "s' = s2" using y s2(1) by simp
  have q: "st s t \<noteq> Some THREAD_BLOCKED" if "t \<in> set (queue_with_cur s)" for t
  proof -
    have "t \<in> set (ready_list s) \<or> t = cur s" using that by (auto simp: queue_with_cur_def split: if_splits)
    then show ?thesis
      using sched_inv_cur(1) [OF inv(1)] sched_wfD(8) [OF sched_inv_cur(4) [OF inv(1)], of t] by (elim disjE) simp_all
  qed
  have n: "st s (cur s2) \<noteq> Some THREAD_BLOCKED" if "cur s2 \<noteq> idle_thread s"
  proof -
    have "cur s2 \<in> set (queue_with_cur s)" using that s2(4) by (simp split: if_splits)
    then show ?thesis by (rule q)
  qed
  show ?thesis unfolding e
  proof (rule switch_step [OF inv(3) ok s2(2,7,6,8)])
    fix t assume t: "T t \<noteq> []"
    have st: "st s2 t = (if t = cur s2 then Some THREAD_RUNNING else if t = cur s then Some THREAD_READY else st s t)"
      using s2(10) by blast
    have "alive s t" "t = cur s2 \<Longrightarrow> st s t \<noteq> Some THREAD_BLOCKED" "t = cur s \<Longrightarrow> st s t \<noteq> Some THREAD_BLOCKED"
      using inv(3) [OF t] n sched_inv_cur(1) [OF inv(1)] by auto
    then show "alive s2 t \<and> (st s2 t = Some THREAD_BLOCKED \<longleftrightarrow> st s t = Some THREAD_BLOCKED)"
      unfolding alive_def st by simp
  qed auto
qed

end
