(* ===== verification/Mutual_Exclusion.thy ===== *)
theory Mutual_Exclusion
  imports Interleaving
begin

text \<open>
  Every step of the interleaved threads keeps the invariant of \<^theory_text>\<open>Interleaving\<close>. From it follow
  mutual exclusion for locks and the absence of lost wake-ups for semaphores.
\<close>

lemma sync_ok_conds:
  assumes ok: "sync_ok L sem h con B T" and "\<And>c. set (con' c) \<subseteq> set (con c)"
  shows "sync_ok L sem h con' B T"
proof (rule sync_okI)
  show "w \<notin> lock_sema ` L" if "w \<in> set (con' c)" for w c using that assms(2) [of c] sync_okD(2) [OF ok, of w c] by blast
qed (use sync_okD [OF ok] in auto)

lemma held_eq: "lock_held_by_current_thread l s = Some b \<Longrightarrow> sched_inv s \<Longrightarrow> l \<noteq> 0 \<and> b = (holder s l = cur s)"
  by (auto simp: lock_held_by_current_thread_def panic_simps Option.bind_eq_Some_conv )

lemma try_cases:
  assumes "sema_try_down a s = Some (b, s')" "\<not> in_external_intr s"
  shows "if b then 0 < value (semas s a) \<and> s' = set_sema a ((semas s a)\<lparr>value := value (semas s a) - 1\<rparr>) s else s' = s"
  using assms by (auto simp: sema_try_down_def panic_simps Option.bind_eq_Some_conv Let_def set_sema_def split: if_splits)

lemma program_cont:
  assumes "prog_ok L (m # ms)" "\<And>m'. m' \<in> set ns \<Longrightarrow> static m' \<and> mop_ok L m'"
  shows "prog_ok L (ns @ ms)" "loop_head (ns @ ms) = None" "own_head (ns @ ms) = None"
proof -
  have "list_all (\<lambda>m. static m \<and> mop_ok L m) (ns @ ms)"
    using prog_okD [OF assms(1)] assms(2) by (auto simp: list_all_iff)
  from static_heads [OF this] show "prog_ok L (ns @ ms)" "loop_head (ns @ ms) = None" "own_head (ns @ ms) = None" by simp_all
qed

lemma exec_step:
  fixes s :: sync
  assumes inv: "sched_inv s" "\<not> in_external_intr s" "\<And>t. T t \<noteq> [] \<Longrightarrow> alive s t \<and> t \<noteq> idle_thread s"
    and ok: "sync_ok L (semas s) (holder s) (conds s) (blocked s) T"
    and T: "T (cur s) = m # ms" and fresh: "fresh_waiter m s" and ex: "exec m s = Some (ms', s')"
  shows "sys_inv L \<lparr>ks = s', todo = T(cur s := ms' @ ms), irets = I\<rparr>"
proof -
  have pr: "prog_ok L (m # ms)" using sync_okD(1) [OF ok, of "cur s"] T by simp
  have T0: "T (cur s) \<noteq> []" using T by simp
  note c = cur_facts [OF inv(1)]
  note move = move_step [of s T, OF inv T0]
  have go: "sync_ok L (semas s) (holder s) (conds s) (blocked s) (T(cur s := ns @ ms))"
    if "loop_head [m] = None" "own_head [m] = None" "\<And>m'. m' \<in> set ns \<Longrightarrow> static m' \<and> mop_ok L m'" for ns
    using that(1,2) T program_cont [OF pr, of ns] that(3) by (intro sync_ok_move [OF ok]) (cases m; simp)+
  show ?thesis
  proof (cases m)
    case (M_down a nx)
    then obtain d where it: "sema_down_iter a (level s) (s\<lparr>level := INTR_OFF\<rparr>) = Some (d, s')"
        "ms' = (if d then after nx else [M_loop a (level s) nx])"
      using ex by (auto simp: sema_down_def panic_simps Option.bind_eq_Some_conv split: if_splits)
    show ?thesis
      using down_step [of "s\<lparr>level := INTR_OFF\<rparr>" T L a "level s" d s' m ms nx] inv ok it T M_down
      by (simp add: alive_def blocked_def)
  next
    case (M_loop a old nx)
    then obtain d where it: "sema_down_iter a old s = Some (d, s')" "ms' = (if d then after nx else [M_loop a old nx])"
      using ex by (auto simp: Option.bind_eq_Some_conv split: if_splits)
    show ?thesis using down_step [of s T, OF inv ok it(1) T] M_loop it(2) by simp
  next
    case (M_acquire l)
    then have "s' = s" "ms' = [M_down (lock_sema l) (Some l)]" "l \<in> L"
      using ex pr by (auto simp: Option.bind_eq_Some_conv prog_ok_def)
    then show ?thesis using move [of s] inv go [of ms'] M_acquire by simp
  next
    case (M_yield)
    then obtain old where y: "thread_yield s = Some (old, s')" "ms' = [M_level old]"
      using ex by (auto simp: Option.bind_eq_Some_conv)
    show ?thesis
      by (rule yield_step [OF inv(1,2) _ _ y(1)]) (use inv(3) T0 go [of ms'] y(2) M_yield in \<open>auto split: if_splits\<close>)
  next
    case (M_level l)
    then have "s' = s\<lparr>level := l\<rparr>" "ms' = []" using ex inv(2) by (auto simp: Option.bind_eq_Some_conv)
    then show ?thesis using move [of s'] inv go [of ms'] M_level by simp
  next
    case (M_up a)
    then have "sema_up a s = Some s'" "ms' = []" "a \<notin> lock_sema ` L"
      using ex pr by (auto simp: Option.bind_eq_Some_conv prog_ok_def)
    then show ?thesis using up_step [of s T, OF inv ok _ T] M_up by simp
  next
    case (M_lock_up l)
    then have "sema_up (lock_sema l) s = Some s'" "ms' = []" "l \<in> L"
      using ex pr by (auto simp: Option.bind_eq_Some_conv prog_ok_def)
    then show ?thesis using up_step [of s T, OF inv ok _ T] M_lock_up by simp
  next
    case (M_hold l)
    then have "s' = s\<lparr>holder := (holder s)(l := cur s)\<rparr>" "ms' = []"
      using ex inv(1) by (auto simp: Option.bind_eq_Some_conv lock_set_holder_def)
    then show ?thesis using move [of s'] inv sync_ok_hold [OF ok _ c(1)] T M_hold by simp
  next
    case (M_release l)
    then have "s' = s\<lparr>holder := (holder s)(l := 0)\<rparr>" "ms' = [M_lock_up l]" "holder s l = cur s"
      using ex inv(1) by (auto simp: Option.bind_eq_Some_conv lock_release_clear_def panic_simps dest: held_eq)
    then show ?thesis using move [of s'] inv sync_ok_release [OF ok _ c(1)] T M_release by simp
  next
    case (M_cond_wait cv l w)
    then have "s' = (set_sema w \<lparr>value = 0, waiters = []\<rparr> s)\<lparr>conds := (conds s)(cv := conds s cv @ [w])\<rparr>"
        "ms' = [M_release l, M_down w None, M_acquire l]" "waiters (semas s w) = []"
      using ex fresh by (auto simp: Option.bind_eq_Some_conv cond_wait_enqueue_def sema_init_def panic_simps fresh_waiter_def)
    then show ?thesis using move [of s'] inv sync_ok_cond_wait [OF ok] T M_cond_wait by simp
  next
    case (M_try l)
    then obtain b where b: "sema_try_down (lock_sema l) s = Some (b, s')" "ms' = (if b then [M_hold l] else [])"
      and l: "l \<in> L" using ex pr by (auto simp: Option.bind_eq_Some_conv panic_simps prog_ok_def)
    show ?thesis
    proof (cases b)
      case True
      have "sync_ok L (semas s') (holder s') (conds s') (blocked s) (T(cur s := ms' @ ms))"
        using sync_ok_down [OF ok c(2,1), of "lock_sema l" "Some l" ms] T M_try l prog_okD [OF pr]
          try_cases [OF b(1) inv(2)] True b(2) by simp
      then show ?thesis using move [of s'] inv try_cases [OF b(1) inv(2)] True by simp
    next
      case False
      then show ?thesis using move [of s'] inv try_cases [OF b(1) inv(2)] b(2) go [of ms'] M_try by simp
    qed
  next
    case (M_signal cv l)
    define s2 where "s2 = s\<lparr>conds := (conds s)(cv := tl (conds s cv))\<rparr>"
    have e: "s' = s2 \<and> ms' = map M_up (take 1 (conds s cv))"
    proof (cases "conds s cv")
      case Nil
      then have "s2 = s" using fun_upd_idem [of "conds s" cv "[]"] by (simp add: s2_def)
      then show ?thesis using ex M_signal Nil by (simp add: Option.bind_eq_Some_conv)
    next
      case (Cons w ws)
      then show ?thesis using ex M_signal by (simp add: Option.bind_eq_Some_conv s2_def)
    qed
    have "mop_ok L m'" if "m' \<in> set ms'" for m'
      using that e sync_okD(2) [OF ok, of _ cv] by (auto dest: in_set_takeD)
    then have "sync_ok L (semas s) (holder s) (conds s) (blocked s) (T(cur s := ms' @ ms))"
      using e M_signal by (intro go) auto
    then have "sync_ok L (semas s) (holder s) (conds s2) (blocked s) (T(cur s := ms' @ ms))"
      by (rule sync_ok_conds) (cases "conds s cv"; auto simp: s2_def)
    then show ?thesis using move [of s'] inv e by (simp add: s2_def)
  qed
qed

lemma create_step:
  fixes s :: sync
  assumes inv: "sched_inv s" "\<not> in_external_intr s" "\<And>t. T t \<noteq> [] \<Longrightarrow> alive s t \<and> t \<noteq> idle_thread s"
    and ok: "sync_ok L (semas s) (holder s) (conds s) (blocked s) T"
    and p: "f \<noteq> 0" "PRI_MIN \<le> pri" "pri \<le> PRI_MAX" "next_tid s < 2 ^ 31 - 1"
    and cr: "thread_create kt se nm pri f aux s = Some (i, s')"
  shows "sys_inv L \<lparr>ks = s', todo = T, irets = I\<rparr>"
proof (rule thread_create_inv [OF inv(1) p(1-3) inv(2) p(4), of kt se nm aux])
  fix l assume "thread_create kt se nm pri f aux s = Some (TID_ERROR, s\<lparr>thread_create_limit := l\<rparr>)"
  then have e: "s' = s\<lparr>thread_create_limit := l\<rparr>" using cr by simp
  have "sched_inv s'" using inv(1) by (subst sched_inv_cong [of _ s]) (simp_all add: e)
  moreover have "st s' = st s" by (simp add: e st_def fun_eq_iff)
  ultimately show ?thesis by (intro switch_step [OF inv(3) ok]) (use inv in \<open>simp_all add: e alive_def\<close>)
next
  fix t s2 assume n: "thread_create kt se nm pri f aux s = Some (next_tid s, s2)" "sched_inv s2" "threads s t = None"
    "threads s2 = (threads s)(t \<mapsto> new_thread t nm pri (next_tid s) (t + 4048) THREAD_READY)"
    "kernel.more s2 = kernel.more s" "in_external_intr s2 = in_external_intr s" "idle_thread s2 = idle_thread s"
  have e: "s' = s2" using n(1) cr by simp
  have "st s2 u = st s u" if "T u \<noteq> []" for u
    using inv(3) [OF that] n(3,4) by (auto simp: st_def alive_def)
  then show ?thesis unfolding e
    by (intro switch_step [OF inv(3) ok]) (use n inv in \<open>auto simp: alive_def\<close>)
qed

lemma idle_step:
  fixes s :: sync
  assumes inv: "sched_inv s" "\<not> in_external_intr s" "\<And>t. T t \<noteq> [] \<Longrightarrow> alive s t \<and> t \<noteq> idle_thread s"
    and ok: "sync_ok L (semas s) (holder s) (conds s) (blocked s) T"
    and idle: "cur s = idle_thread s" and b: "thread_block (s\<lparr>level := INTR_OFF\<rparr>) = Some s'"
  shows "sys_inv L \<lparr>ks = s', todo = T, irets = I\<rparr>"
proof -
  define s0 where "s0 = s\<lparr>level := INTR_OFF\<rparr>"
  have f: "sched_inv s0" "level s0 = INTR_OFF" "\<not> in_external_intr s0" "can_switch s0" "st s0 = st s" "cur s0 = cur s"
    "idle_thread s0 = idle_thread s" "kernel.more s0 = kernel.more s"
    using inv(1,2) block_can_switch [OF b] by (simp_all add: s0_def)
  obtain s2 where s2: "thread_block s0 = Some s2" "sched_inv s2" "cur s2 = next_of s0" "level s2 = INTR_OFF"
    "ready_list s2 = tl (ready_list s0)" "idle_thread s2 = idle_thread s0" "\<not> in_external_intr s2"
    "kernel.more s2 = kernel.more s0" "core s2 = core s0"
    "\<forall>t. st s2 t = (if t = next_of s0 then Some THREAD_RUNNING else if t = cur s0 then Some THREAD_BLOCKED else st s0 t)"
    by (rule thread_block_inv [OF f(1-4)])
  have e: "s' = s2" using b s2(1) by (simp add: s0_def)
  obtain ns where ns: "st s0 (next_of s0) = Some ns" "ns = THREAD_READY \<or> next_of s0 = idle_thread s0"
    by (rule next_of_thread [OF sched_inv_cur(4) [OF f(1)] f(4)])
  show ?thesis unfolding e
    by (rule switch_step [OF inv(3) ok]) (use s2 f ns inv(3) idle in \<open>auto simp: alive_def\<close>)
qed

lemma exit_step:
  fixes s :: sync
  assumes inv: "sched_inv s" "\<not> in_external_intr s" "\<And>t. T t \<noteq> [] \<Longrightarrow> alive s t \<and> t \<noteq> idle_thread s"
    and ok: "sync_ok L (semas s) (holder s) (conds s) (blocked s) T"
    and p: "T (cur s) = []" "cur s \<noteq> idle_thread s" and x: "thread_exit_finish s = Some s'"
  shows "sys_inv L \<lparr>ks = s', todo = T, irets = I\<rparr>"
proof -
  obtain s2 where s2: "thread_exit_finish s = Some s2" "sched_inv s2" "cur s2 = next_of s" "level s2 = INTR_OFF"
    "ready_list s2 = tl (ready_list s)" "all_list s2 = remove1 (cur s) (all_list s)" "idle_thread s2 = idle_thread s"
    "\<not> in_external_intr s2" "kernel.more s2 = kernel.more s"
    "\<forall>t. st s2 t = (if t = next_of s then Some THREAD_RUNNING
       else if t = cur s then (if t = initial_thread s then Some THREAD_DYING else None) else st s t)"
    by (rule thread_exit_inv [OF inv(1,2) p(2) exit_can_switch [OF x]])
  have e: "s' = s2" using x s2(1) by simp
  obtain ns where ns: "st s (next_of s) = Some ns" "ns = THREAD_READY \<or> next_of s = idle_thread s"
    by (rule next_of_thread [OF sched_inv_cur(4) [OF inv(1)] exit_can_switch [OF x]])
  show ?thesis unfolding e
  proof (rule switch_step [OF inv(3) ok s2(2,8,7,9)])
    fix t assume t: "T t \<noteq> []"
    then have "t \<noteq> cur s" using p(1) by auto
    then show "alive s2 t \<and> (st s2 t = Some THREAD_BLOCKED \<longleftrightarrow> st s t = Some THREAD_BLOCKED)"
      using s2(10) [THEN spec, of t] inv(3) [OF t] ns by (auto simp: alive_def)
  qed auto
qed

lemma clock_step:
  fixes s :: sync
  assumes inv: "sched_inv s" "\<not> in_external_intr s" "\<And>t. T t \<noteq> [] \<Longrightarrow> alive s t \<and> t \<noteq> idle_thread s"
    and ok: "sync_ok L (semas s) (holder s) (conds s) (blocked s) T" and h: "intr_handlers s 0x20 \<noteq> 0"
    and i: "intr_handler (\<lambda>_. thread_tick) 0x20 (s\<lparr>level := INTR_OFF\<rparr>) = Some (b, s')"
  shows "sys_inv L \<lparr>ks = (if b then s' else s'\<lparr>level := INTR_ON\<rparr>), todo = T, irets = I\<rparr>"
proof (rule clock_interrupt [OF inv(1,2) h])
  fix s1 s2
  assume c: "intr_handler (\<lambda>_. thread_tick) 0x20 (s\<lparr>level := INTR_OFF\<rparr>) = Some ((thread_ticks s + 1) mod 2 ^ 32 \<ge> TIME_SLICE, s2)"
    "sched_inv s1" "\<not> in_external_intr s1" "idle_thread s1 = idle_thread s" "st s1 = st s" "kernel.more s1 = kernel.more s"
    "if (thread_ticks s + 1) mod 2 ^ 32 \<ge> TIME_SLICE then thread_yield s1 = Some (INTR_OFF, s2) else s2 = s1"
  have e: "b = ((thread_ticks s + 1) mod 2 ^ 32 \<ge> TIME_SLICE)" "s' = s2" using i c(1) by simp_all
  have a1: "alive s1 t \<and> t \<noteq> idle_thread s1" if "T t \<noteq> []" for t using inv(3) [OF that] c(4,5) by (simp add: alive_def)
  have b1: "sync_ok L (semas s1) (holder s1) (conds s1) (blocked s1) T"
    using ok more_sync [OF c(6)] c(5) by (simp add: blocked_def)
  show ?thesis
  proof (cases b)
    case True
    then show ?thesis using yield_step [OF c(2,3) a1 b1, of INTR_OFF s2] c(7) e by simp
  next
    case False
    then have "s' = s1" using c(7) e by simp
    then show ?thesis using False switch_step [of T s1 L "s1\<lparr>level := INTR_ON\<rparr>", OF a1 b1] c a1 by (simp add: alive_def)
  qed
qed

lemma sys_inv_eq: "sys_inv L \<lparr>ks = ks S, todo = todo S, irets = I\<rparr> = sys_inv L S"
  by (simp add: sys_inv_def)

lemma sys_step_inv:
  assumes "sys_step L S S'" "sys_inv L S"
  shows "sys_inv L S'"
proof -
  note D = sys_invD [OF assms(2)]
  have al: "alive (ks S) t \<and> t \<noteq> idle_thread (ks S)" if "todo S t \<noteq> []" for t using D(3,4) that by blast
  note steps = D(1,2) al D(5)
  have "sys_inv L \<lparr>ks = ks S', todo = todo S', irets = {}\<rparr>" using assms(1)
  proof cases
    case (call t m)
    have "sync_ok L (semas (ks S)) (holder (ks S)) (conds (ks S)) (blocked (ks S)) ((todo S)(t := [m]))"
      using call by (intro sync_ok_move [OF D(5)]) (cases m; simp add: api_call_def prog_ok_def)+
    moreover have "alive (ks S) u \<and> u \<noteq> idle_thread (ks S)" if "((todo S)(t := [m])) u \<noteq> []" for u
      using that al call cur_facts(3) [OF D(1)] by (auto split: if_splits)
    ultimately show ?thesis using D(1,2) call(1) by (intro sys_invI) (auto simp: blocked_def)
  next
    case (run t m ms ms' s')
    then show ?thesis using exec_step [OF steps, of m ms ms' s' "{}"] by simp
  next
    case (clock b s')
    then show ?thesis using clock_step [OF steps, of b s' "{}"] by (simp split: if_splits)
  next
    case iret
    have "sys_inv L \<lparr>ks = (ks S)\<lparr>level := INTR_ON\<rparr>, todo = todo S, irets = {}\<rparr>"
      by (rule switch_step [OF al D(5)]) (use D al in \<open>auto simp: alive_def\<close>)
    then show ?thesis using iret by simp
  next
    case (idle t s')
    then show ?thesis using idle_step [OF steps, of s' "{}"] by simp
  next
    case (exit t s')
    then show ?thesis using exit_step [OF steps, of s' "{}"] by simp
  next
    case (mem s')
    have m: "sched_inv s'" "st s' = st (ks S)" "idle_thread s' = idle_thread (ks S)" "\<not> in_external_intr s'"
      "kernel.more s' = kernel.more (ks S)" using mem_step_inv [OF mem(4) D(1)] D(2) by simp_all
    have "sys_inv L \<lparr>ks = s', todo = todo S, irets = {}\<rparr>"
      by (rule switch_step [OF al D(5)]) (use m al in \<open>auto simp: alive_def\<close>)
    then show ?thesis using mem(1) by simp
  next
    case (create t f pri kt se nm aux i s')
    then show ?thesis using create_step [OF steps, of f pri kt se nm aux i s' "{}"] by simp
  qed
  then show ?thesis by (simp add: sys_inv_eq)
qed

lemma sys_init_inv: "sys_init L S \<Longrightarrow> sys_inv L S"
  by (auto simp: sys_init_def sys_inv_def sync_ok_def prog_ok_def wait_ok_def lock_ok_def looping_def owning_def)

lemma sys_reach_inv: "sys_reach L S \<Longrightarrow> sys_inv L S"
  by (induction rule: sys_reach.induct) (auto intro: sys_init_inv sys_step_inv)

section \<open>Properties\<close>

text \<open>A thread is in the section a lock protects from the decrement of its semaphore in
  \<^verbatim>\<open>lock_acquire\<close> or \<^verbatim>\<open>lock_try_acquire\<close> to the increment in \<^verbatim>\<open>lock_release\<close>.\<close>

definition in_section :: "sys \<Rightarrow> nat \<Rightarrow> nat \<Rightarrow> bool" where
  "in_section S l t \<longleftrightarrow> owning (holder (ks S)) (todo S) l t"

text \<open>C25: Mutual exclusion. However the calls of the threads are interleaved and preempted, at most
  one thread is in the section of a lock; the semaphore of the lock is 0 exactly then and 1
  otherwise, and the recorded holder is a thread in the section.\<close>

theorem lock_mutual_exclusion:
  assumes "sys_reach L S" "l \<in> L"
  shows "(\<forall>t u. in_section S l t \<and> in_section S l u \<longrightarrow> t = u)
    \<and> value (semas (ks S) (lock_sema l)) = (if \<exists>t. in_section S l t then 0 else 1)
    \<and> (holder (ks S) l \<noteq> 0 \<longrightarrow> in_section S l (holder (ks S) l))"
proof -
  have "lock_ok (semas (ks S)) (holder (ks S)) (todo S) l"
    using sys_invD(5) [OF sys_reach_inv [OF assms(1)]] assms(2) by (rule sync_okD(4))
  then consider "value (semas (ks S) (lock_sema l)) = 1" "\<forall>t. \<not> in_section S l t"
    | u where "value (semas (ks S) (lock_sema l)) = 0" "\<forall>t. in_section S l t \<longleftrightarrow> t = u"
    unfolding lock_ok_def in_section_def by blast
  moreover have "holder (ks S) l \<noteq> 0 \<longrightarrow> in_section S l (holder (ks S) l)" by (simp add: in_section_def owning_def)
  ultimately show ?thesis by cases auto
qed

text \<open>C26: No lost wake-up. In every reachable state the waiters of a semaphore are exactly the threads
  blocked in its \<^verbatim>\<open>sema_down\<close>, each queued once; while threads wait, the value does not exceed the
  number of threads already woken that still have to test it, so that it is 0 once these have run.
  Incrementing the semaphore succeeds and makes the thread that waited longest ready.\<close>

theorem sema_no_lost_wakeup:
  assumes "sys_reach L S"
  defines "s \<equiv> ks S"
  shows "distinct (waiters (semas s a))
    \<and> (\<forall>t. t \<in> set (waiters (semas s a)) \<longleftrightarrow> st s t = Some THREAD_BLOCKED \<and> looping (todo S) t a)
    \<and> (waiters (semas s a) \<noteq> [] \<longrightarrow>
         value (semas s a) \<le> card {t. looping (todo S) t a \<and> st s t \<noteq> Some THREAD_BLOCKED})
    \<and> (a \<noteq> 0 \<longrightarrow> (\<exists>s'. sema_up a s = Some s' \<and> ready_list s' = ready_list s @ take 1 (waiters (semas s a))
         \<and> waiters (semas s' a) = tl (waiters (semas s a))
         \<and> value (semas s' a) = (value (semas s a) + 1) mod 2 ^ 32
         \<and> (\<forall>t \<in> set (take 1 (waiters (semas s a))). st s' t = Some THREAD_READY)))"
proof -
  note I = sys_invD [OF sys_reach_inv [OF assms(1)]]
  have w: "wait_ok (semas s) (blocked s) (todo S) a" using sync_okD(3) [OF I(5)] by (simp add: s_def)
  have ws: "\<forall>t. t \<in> set (waiters (semas s a)) \<longleftrightarrow> st s t = Some THREAD_BLOCKED \<and> looping (todo S) t a"
    using w by (simp add: wait_ok_def blocked_def)
  have q: "st s t = Some THREAD_BLOCKED \<and> t \<noteq> idle_thread s" if "waiters (semas s a) = t # ts" for t ts
  proof -
    have "st s t = Some THREAD_BLOCKED" "looping (todo S) t a" using ws that by auto
    moreover from this have "todo S t \<noteq> []" by (auto simp: looping_def)
    ultimately show ?thesis using I(4) by (simp add: s_def)
  qed
  have up: "\<exists>s'. sema_up a s = Some s' \<and> ready_list s' = ready_list s @ take 1 (waiters (semas s a))
         \<and> waiters (semas s' a) = tl (waiters (semas s a)) \<and> value (semas s' a) = (value (semas s a) + 1) mod 2 ^ 32
         \<and> (\<forall>t \<in> set (take 1 (waiters (semas s a))). st s' t = Some THREAD_READY)" if a0: "a \<noteq> 0"
  proof -
    have i: "sched_inv s" "\<not> in_external_intr s \<or> level s = INTR_OFF" using I by (simp_all add: s_def)
    show ?thesis by (rule sema_up_eq [OF i(1) a0 i(2) q]) auto
  qed
  show ?thesis using w ws up by (simp add: wait_ok_def blocked_def)
qed

text \<open>Two witnesses: the first thread takes a lock, and is preempted right after.\<close>

definition demo_sys :: "kernel \<Rightarrow> sys" where
  "demo_sys k = \<lparr>ks = kernel.extend k (sync.fields (\<lambda>_. \<lparr>value = 1, waiters = []\<rparr>) (\<lambda>_. 0) (\<lambda>_. [])),
     todo = (\<lambda>_. []), irets = {}\<rparr>"

lemma demo_sys_reach:
  obtains k where "sched_inv k" "\<not> in_external_intr k" "idle_thread k = 0" "cur k = 0xc000e000" "sys_reach L (demo_sys k)"
proof -
  have b: "idle_thread demo_boot = 0" "cur demo_boot = 0xc000e000" by (simp_all add: demo_boot_def intr.defs)
  obtain k where i: "thread_init demo_boot = Some k" "boot_init k k" and k: "idle_thread k = 0" "cur k = 0xc000e000"
    by (rule demo_boot_init) (simp add: b)
  then have inv: "sched_inv k" "\<not> in_external_intr k"
    using sched_reach_inv [OF sched_reach.boot [OF demo_boot_state i]] by simp_all
  have "sched_inv (ks (demo_sys k))"
    using inv(1) by (subst sched_inv_cong [of _ k]) (simp_all add: demo_sys_def kernel.defs sync.defs)
  then have "sys_init L (demo_sys k)"
    using inv(2) by (simp add: sys_init_def) (simp add: demo_sys_def kernel.defs sync.defs)
  then show thesis using that inv k by (blast intro: sys_reach.init)
qed

lemma demo_try:
  obtains S where "sys_reach {8} S" "in_section S 8 0xc000e000"
proof -
  obtain k where k: "sched_inv k" "\<not> in_external_intr k" "idle_thread k = 0" "cur k = 0xc000e000" "sys_reach {8} (demo_sys k)"
    by (rule demo_sys_reach)
  define s where "s = ks (demo_sys k)"
  have f: "cur s = 0xc000e000" "idle_thread s = 0" "\<not> in_external_intr s" "holder s 8 = 0" "value (semas s 12) = 1"
    using k by (simp_all add: s_def demo_sys_def kernel.defs sync.defs)
  have inv: "sched_inv s" using sys_invD(1) [OF sys_reach_inv [OF k(5)]] by (simp add: s_def)
  define S1 where "S1 = (demo_sys k)\<lparr>todo := (todo (demo_sys k))(0xc000e000 := [M_try 8])\<rparr>"
  have S1: "ks S1 = s" "todo S1 0xc000e000 = [M_try 8]" "irets S1 = {}" by (simp_all add: S1_def s_def demo_sys_def)
  have "sys_step {8} (demo_sys k) S1" unfolding S1_def
    by (rule sys_step.call) (use f in \<open>simp_all add: s_def [symmetric] api_call_def\<close>, simp_all add: demo_sys_def)
  then have r1: "sys_reach {8} S1" by (rule sys_reach.step [OF k(5)])
  obtain s' where ex: "exec (M_try 8) s = Some ([M_hold 8], s')"
    using f inv by (simp add: lock_held_by_current_thread_def sema_try_down_def Let_def lock_sema_def)
  have "sys_step {8} S1 (S1\<lparr>ks := s', todo := (todo S1)(0xc000e000 := [M_hold 8] @ [])\<rparr>)"
    by (rule sys_step.run [where m = "M_try 8"]) (use S1 f ex in \<open>simp_all add: fresh_waiter_def\<close>)
  then have "sys_reach {8} (S1\<lparr>ks := s', todo := (todo S1)(0xc000e000 := [M_hold 8] @ [])\<rparr>)"
    by (rule sys_reach.step [OF r1])
  then show thesis by (rule that) (simp add: in_section_def owning_def)
qed

theorem lock_mutual_exclusion_witness:
  "\<exists>S. in_section S 8 0xc000e000 \<and> (\<forall>t. in_section S 8 t \<longrightarrow> t = 0xc000e000) \<and> value (semas (ks S) 12) = 0"
proof -
  obtain S where S: "sys_reach {8} S" "in_section S 8 0xc000e000" by (rule demo_try)
  have "value (semas (ks S) 12) = 0" "\<forall>t. in_section S 8 t \<longrightarrow> t = 0xc000e000"
    using lock_mutual_exclusion [OF S(1), of 8] S(2) by (auto simp: lock_sema_def)
  then show ?thesis using S(2) by blast
qed

theorem sema_no_lost_wakeup_witness:
  "\<exists>(S :: sys) s'. waiters (semas (ks S) 4) = [] \<and> sema_up 4 (ks S) = Some s' \<and> value (semas s' 4) = 2"
proof -
  obtain k where k: "sys_reach {} (demo_sys k)" by (rule demo_sys_reach)
  have f: "semas (ks (demo_sys k)) 4 = \<lparr>value = 1, waiters = []\<rparr>" by (simp add: demo_sys_def kernel.defs sync.defs)
  from sema_no_lost_wakeup [OF k, of 4] obtain s' where "sema_up 4 (ks (demo_sys k)) = Some s'" "value (semas s' 4) = 2"
    by (auto simp: f)
  then show ?thesis using f by (intro exI [of _ "demo_sys k"] exI [of _ s']) simp
qed

end
