(* ===== verification/Intq.thy ===== *)
theory Intq
  imports Synch
begin

text \<open>
  Interrupt queues (\<^verbatim>\<open>devices/intq.c\<close>): circular byte buffers shared by threads and interrupt
  handlers. The operations take the queue structure and the kernel state and return both.

  \<^verbatim>\<open>intq_getc\<close> and \<^verbatim>\<open>intq_putc\<close> wait in a loop. One evaluation of the loop (\<open>intq_getc_iter\<close>,
  \<open>intq_putc_iter\<close>) either finishes, or blocks the caller on the queue's lock, or acquires the lock
  and blocks the caller as the waiting thread of the queue. A caller that waited releases the lock
  and evaluates the loop again when it is woken (\<open>intq_getc_resume\<close>, \<open>intq_putc_resume\<close>).

  The contract of a bounded first-in first-out queue is the locale \<open>bounded_fifo\<close>; the circular
  buffer is an instance of it with room for 63 bytes, and \<open>run_wakes\<close> describes the wake-ups.
\<close>

definition INTQ_BUFSIZE :: nat where "INTQ_BUFSIZE = 64"

record intq =
  lock :: nat
  not_full :: nat
  not_empty :: nat
  buf :: "u8 list"
  head :: nat
  tail :: nat

text \<open>The two conditions a thread can wait for, standing for the addresses of the members
  \<^verbatim>\<open>not_empty\<close> and \<^verbatim>\<open>not_full\<close>.\<close>

datatype condition = Not_Empty | Not_Full

datatype 'r outcome = Finished 'r | Blocked_On_Lock | Waiting

definition intq_next :: "nat \<Rightarrow> nat" where
  "intq_next pos = (pos + 1) mod INTQ_BUFSIZE"

definition intq_init :: "intq \<Rightarrow> 'a sync_scheme \<Rightarrow> (intq \<times> 'a sync_scheme) option" where
  "intq_init q s = do {
     s \<leftarrow> lock_init (lock q) s;
     Some (q\<lparr>not_full := 0, not_empty := 0, head := 0, tail := 0\<rparr>, s)
   }"

definition intq_empty :: "intq \<Rightarrow> 'a sync_scheme \<Rightarrow> bool option" where
  "intq_empty q s = do { ASSERT (intr_get_level s = INTR_OFF); Some (head q = tail q) }"

definition intq_full :: "intq \<Rightarrow> 'a sync_scheme \<Rightarrow> bool option" where
  "intq_full q s = do { ASSERT (intr_get_level s = INTR_OFF); Some (intq_next (head q) = tail q) }"

text \<open>The assertion of \<^verbatim>\<open>wait\<close> and \<^verbatim>\<open>signal\<close>: the condition does not hold, or holds.\<close>

definition condition_false :: "condition \<Rightarrow> intq \<Rightarrow> 'a sync_scheme \<Rightarrow> bool option" where
  "condition_false c q s = (case c of Not_Empty \<Rightarrow> intq_empty q s | Not_Full \<Rightarrow> intq_full q s)"

definition set_waiter :: "condition \<Rightarrow> nat \<Rightarrow> intq \<Rightarrow> intq" where
  "set_waiter c t q = (case c of Not_Empty \<Rightarrow> q\<lparr>not_empty := t\<rparr> | Not_Full \<Rightarrow> q\<lparr>not_full := t\<rparr>)"

definition waiter :: "condition \<Rightarrow> intq \<Rightarrow> nat" where
  "waiter c q = (case c of Not_Empty \<Rightarrow> not_empty q | Not_Full \<Rightarrow> not_full q)"

definition intq_wait :: "condition \<Rightarrow> intq \<Rightarrow> 'a sync_scheme \<Rightarrow> (intq \<times> 'a sync_scheme) option" where
  "intq_wait c q s = do {
     ASSERT (\<not> intr_context s);
     ASSERT (intr_get_level s = INTR_OFF);
     f \<leftarrow> condition_false c q s;
     ASSERT f;
     t \<leftarrow> thread_current s;
     s \<leftarrow> thread_block s;
     Some (set_waiter c t q, s)
   }"

definition intq_signal :: "condition \<Rightarrow> intq \<Rightarrow> 'a sync_scheme \<Rightarrow> (intq \<times> 'a sync_scheme) option" where
  "intq_signal c q s = do {
     ASSERT (intr_get_level s = INTR_OFF);
     f \<leftarrow> condition_false c q s;
     ASSERT (\<not> f);
     if waiter c q \<noteq> 0 then do {
       s \<leftarrow> thread_unblock (waiter c q) s;
       Some (set_waiter c 0 q, s)
     } else Some (q, s)
   }"

text \<open>The body of the waiting loops.\<close>

definition intq_block :: "condition \<Rightarrow> intq \<Rightarrow> 'a sync_scheme \<Rightarrow> ('r outcome \<times> intq \<times> 'a sync_scheme) option" where
  "intq_block c q s = do {
     ASSERT (\<not> intr_context s);
     (got, s) \<leftarrow> lock_acquire (lock q) s;
     if got then do { (q, s) \<leftarrow> intq_wait c q s; Some (Waiting, q, s) } else Some (Blocked_On_Lock, q, s)
   }"

definition intq_getc_iter :: "intq \<Rightarrow> 'a sync_scheme \<Rightarrow> (u8 outcome \<times> intq \<times> 'a sync_scheme) option" where
  "intq_getc_iter q s = do {
     ASSERT (intr_get_level s = INTR_OFF);
     e \<leftarrow> intq_empty q s;
     if e then intq_block Not_Empty q s
     else do {
       let byte = buf q ! tail q;
       let q = q\<lparr>tail := intq_next (tail q)\<rparr>;
       (q, s) \<leftarrow> intq_signal Not_Full q s;
       Some (Finished byte, q, s)
     }
   }"

definition intq_putc_iter :: "u8 \<Rightarrow> intq \<Rightarrow> 'a sync_scheme \<Rightarrow> (unit outcome \<times> intq \<times> 'a sync_scheme) option" where
  "intq_putc_iter byte q s = do {
     ASSERT (intr_get_level s = INTR_OFF);
     f \<leftarrow> intq_full q s;
     if f then intq_block Not_Full q s
     else do {
       let q = q\<lparr>buf := (buf q)[head q := byte]\<rparr>;
       let q = q\<lparr>head := intq_next (head q)\<rparr>;
       (q, s) \<leftarrow> intq_signal Not_Empty q s;
       Some (Finished (), q, s)
     }
   }"

definition intq_getc_resume :: "intq \<Rightarrow> 'a sync_scheme \<Rightarrow> (u8 outcome \<times> intq \<times> 'a sync_scheme) option" where
  "intq_getc_resume q s = do { s \<leftarrow> lock_release (lock q) s; intq_getc_iter q s }"

definition intq_putc_resume :: "u8 \<Rightarrow> intq \<Rightarrow> 'a sync_scheme \<Rightarrow> (unit outcome \<times> intq \<times> 'a sync_scheme) option" where
  "intq_putc_resume byte q s = do { s \<leftarrow> lock_release (lock q) s; intq_putc_iter byte q s }"

text \<open>The calls that do not wait, as in an interrupt handler.\<close>

definition intq_getc :: "intq \<Rightarrow> 'a sync_scheme \<Rightarrow> (u8 \<times> intq \<times> 'a sync_scheme) option" where
  "intq_getc q s = do {
     (r, q, s) \<leftarrow> intq_getc_iter q s;
     case r of Finished b \<Rightarrow> Some (b, q, s) | _ \<Rightarrow> None
   }"

definition intq_putc :: "u8 \<Rightarrow> intq \<Rightarrow> 'a sync_scheme \<Rightarrow> (intq \<times> 'a sync_scheme) option" where
  "intq_putc byte q s = do {
     (r, q, s) \<leftarrow> intq_putc_iter byte q s;
     case r of Finished _ \<Rightarrow> Some (q, s) | _ \<Rightarrow> None
   }"

section \<open>Bounded queues\<close>

datatype 'e queue_op = Put 'e | Get

fun spec_ops :: "nat \<Rightarrow> 'e queue_op list \<Rightarrow> 'e list \<Rightarrow> ('e list \<times> 'e list) option" where
  "spec_ops cap [] q = Some ([], q)"
| "spec_ops cap (Put e # ops) q = (if length q < cap then spec_ops cap ops (q @ [e]) else None)"
| "spec_ops cap (Get # ops) q = (case q of [] \<Rightarrow> None
     | x # q \<Rightarrow> do { (out, q) \<leftarrow> spec_ops cap ops q; Some (x # out, q) })"

fun run_ops :: "('e \<Rightarrow> 's \<Rightarrow> 's option) \<Rightarrow> ('s \<Rightarrow> ('e \<times> 's) option) \<Rightarrow> 'e queue_op list \<Rightarrow> 's \<Rightarrow> ('e list \<times> 's) option" where
  "run_ops put get [] s = Some ([], s)"
| "run_ops put get (Put e # ops) s = do { s \<leftarrow> put e s; run_ops put get ops s }"
| "run_ops put get (Get # ops) s = do { (x, s) \<leftarrow> get s; (out, s) \<leftarrow> run_ops put get ops s; Some (x # out, s) }"

locale bounded_fifo =
  fixes cap :: nat and ok :: "'s \<Rightarrow> bool" and contents :: "'s \<Rightarrow> 'e list"
    and put :: "'e \<Rightarrow> 's \<Rightarrow> 's option" and get :: "'s \<Rightarrow> ('e \<times> 's) option"
  assumes put: "ok s \<Longrightarrow> length (contents s) < cap \<Longrightarrow> \<exists>s'. put e s = Some s' \<and> ok s' \<and> contents s' = contents s @ [e]"
    and get: "ok s \<Longrightarrow> contents s = x # xs \<Longrightarrow> \<exists>s'. get s = Some (x, s') \<and> ok s' \<and> contents s' = xs"
begin

lemma run_refines_spec:
  "ok s \<Longrightarrow> spec_ops cap ops (contents s) = Some (out, q) \<Longrightarrow>
   \<exists>s'. run_ops put get ops s = Some (out, s') \<and> ok s' \<and> contents s' = q"
proof (induction ops arbitrary: s out q)
  case (Cons op ops)
  show ?case
  proof (cases op)
    case (Put e)
    then have "length (contents s) < cap" and sp: "spec_ops cap ops (contents s @ [e]) = Some (out, q)"
      using Cons.prems(2) by (simp_all split: if_splits)
    then obtain s' where "put e s = Some s'" "ok s'" "contents s' = contents s @ [e]" using put [OF Cons.prems(1)] by blast
    then show ?thesis using Cons.IH [of s' out q] sp Put by simp
  next
    case Get
    then obtain x xs out' where x: "contents s = x # xs" "spec_ops cap ops xs = Some (out', q)" "out = x # out'"
      using Cons.prems(2) by (auto simp: Option.bind_eq_Some_conv split: list.splits)
    then obtain s' where "get s = Some (x, s')" "ok s'" "contents s' = xs" using get [OF Cons.prems(1)] by blast
    then show ?thesis using Cons.IH [of s' out' q] x Get by auto
  qed
qed simp

end

section \<open>The circular buffer as a queue\<close>

definition intq_wf :: "intq \<Rightarrow> bool" where
  "intq_wf q \<longleftrightarrow> length (buf q) = INTQ_BUFSIZE \<and> head q < INTQ_BUFSIZE \<and> tail q < INTQ_BUFSIZE"

definition intq_len :: "intq \<Rightarrow> nat" where
  "intq_len q = (head q + INTQ_BUFSIZE - tail q) mod INTQ_BUFSIZE"

definition intq_contents :: "intq \<Rightarrow> u8 list" where
  "intq_contents q = map (\<lambda>i. buf q ! ((tail q + i) mod INTQ_BUFSIZE)) [0..<intq_len q]"

lemma intq_len_less: "intq_len q < INTQ_BUFSIZE"
  by (simp add: intq_len_def INTQ_BUFSIZE_def)

lemma len_contents [simp]: "length (intq_contents q) = intq_len q"
  by (simp add: intq_contents_def)

lemma intq_len_0: "intq_wf q \<Longrightarrow> head q = tail q \<longleftrightarrow> intq_len q = 0"
  by (cases "head q < tail q") (auto simp: intq_wf_def intq_len_def INTQ_BUFSIZE_def mod_if)

lemma intq_len_full: "intq_wf q \<Longrightarrow> intq_next (head q) = tail q \<longleftrightarrow> intq_len q = INTQ_BUFSIZE - 1"
  by (cases "head q < tail q") (auto simp: intq_wf_def intq_len_def INTQ_BUFSIZE_def intq_next_def mod_if)

lemma head_pos: "intq_wf q \<Longrightarrow> (tail q + intq_len q) mod INTQ_BUFSIZE = head q"
  by (cases "head q < tail q") (auto simp: intq_wf_def intq_len_def INTQ_BUFSIZE_def mod_if)

lemma mod_add_inj:
  assumes "i < m" "j < m" "((t :: nat) + i) mod m = (t + j) mod m"
  shows "i = j"
proof -
  have "i' = j'" if "i' \<le> j'" "j' < m" "(t + j') mod m = (t + i') mod m" for i' j'
    using that mod_eq_dvd_iff_nat [of "t + i'" "t + j'" m] by (auto dest: dvd_imp_le)
  then show ?thesis using assms by (metis nat_le_linear)
qed

lemma contents_put:
  fixes b :: u8
  assumes wf: "intq_wf q" and nf: "intq_next (head q) \<noteq> tail q"
  defines "q' \<equiv> q\<lparr>buf := (buf q)[head q := b], head := intq_next (head q)\<rparr>"
  shows "intq_wf q'" "intq_contents q' = intq_contents q @ [b]"
proof -
  show "intq_wf q'" using wf by (simp add: q'_def intq_wf_def intq_next_def INTQ_BUFSIZE_def)
  have len: "intq_len q' = Suc (intq_len q)"
    using wf nf by (cases "head q < tail q") (auto simp: q'_def intq_wf_def intq_len_def INTQ_BUFSIZE_def intq_next_def mod_if)
  have "head q \<noteq> (tail q + i) mod INTQ_BUFSIZE" if "i < intq_len q" for i
    using mod_add_inj [of i INTQ_BUFSIZE "intq_len q" "tail q"] that intq_len_less [of q] head_pos [OF wf] by auto
  moreover have "head q < length (buf q)" using wf by (simp add: intq_wf_def)
  ultimately show "intq_contents q' = intq_contents q @ [b]"
    using head_pos [OF wf] unfolding intq_contents_def len by (simp add: q'_def)
qed

lemma contents_get:
  assumes wf: "intq_wf q" and ne: "head q \<noteq> tail q"
  shows "intq_wf (q\<lparr>tail := intq_next (tail q)\<rparr>)"
    "intq_contents q = buf q ! tail q # intq_contents (q\<lparr>tail := intq_next (tail q)\<rparr>)"
proof -
  show "intq_wf (q\<lparr>tail := intq_next (tail q)\<rparr>)" using wf by (simp add: intq_wf_def intq_next_def INTQ_BUFSIZE_def)
  have len: "intq_len q = Suc (intq_len (q\<lparr>tail := intq_next (tail q)\<rparr>))"
    using wf ne by (cases "head q < tail q") (auto simp: intq_wf_def intq_len_def INTQ_BUFSIZE_def intq_next_def mod_if)
  have "tail q mod INTQ_BUFSIZE = tail q" using wf by (simp add: intq_wf_def)
  then show "intq_contents q = buf q ! tail q # intq_contents (q\<lparr>tail := intq_next (tail q)\<rparr>)"
    unfolding intq_contents_def len
    by (simp add: upt_conv_Cons map_Suc_upt [symmetric] del: upt_Suc) (simp add: intq_next_def mod_simps)
qed

text \<open>Waiting threads are blocked, and the two conditions have different waiting threads.\<close>

definition intq_ok :: "intq \<times> 'a sync_scheme \<Rightarrow> bool" where
  "intq_ok = (\<lambda>(q, s). intq_wf q \<and> sched_inv s \<and> level s = INTR_OFF \<and>
     (\<forall>c. waiter c q \<noteq> 0 \<longrightarrow> st s (waiter c q) = Some THREAD_BLOCKED \<and> waiter c q \<noteq> idle_thread s) \<and>
     (waiter Not_Empty q \<noteq> 0 \<longrightarrow> waiter Not_Empty q \<noteq> waiter Not_Full q))"

lemma waiter_simps [simp]:
  "waiter c (set_waiter d t q) = (if c = d then t else waiter c q)"
  "intq_wf (set_waiter d t q) = intq_wf q" "intq_contents (set_waiter d t q) = intq_contents q"
  "waiter c (q\<lparr>head := h\<rparr>) = waiter c q" "waiter c (q\<lparr>tail := h\<rparr>) = waiter c q" "waiter c (q\<lparr>buf := bs\<rparr>) = waiter c q"
  by (cases c; cases d; simp add: waiter_def set_waiter_def intq_wf_def intq_contents_def intq_len_def)+

text \<open>The effect on the rest of the kernel: at most a waiting thread is made ready.\<close>

definition woke :: "nat \<Rightarrow> 'a sync_scheme \<Rightarrow> 'a sync_scheme \<Rightarrow> bool" where
  "woke w s s' \<longleftrightarrow> ready_list s' = ready_list s @ (if w = 0 then [] else [w])
     \<and> (\<forall>u. st s' u = (if u = w \<and> w \<noteq> 0 then Some THREAD_READY else st s u)) \<and> idle_thread s' = idle_thread s
     \<and> level s' = level s \<and> in_external_intr s' = in_external_intr s \<and> kernel.more s' = kernel.more s \<and> port_log s' = port_log s"

lemma signal_ok:
  assumes ok: "intq_ok (q, s)" and c: "condition_false c q s = Some False"
  shows "\<exists>q' s'. intq_signal c q s = Some (q', s') \<and> intq_ok (q', s') \<and> intq_contents q' = intq_contents q
    \<and> (\<forall>d. waiter d q' = (if d = c then 0 else waiter d q)) \<and> woke (waiter c q) s s'"
proof -
  have i: "sched_inv s" "level s = INTR_OFF" using ok by (simp_all add: intq_ok_def)
  show ?thesis
  proof (cases "waiter c q = 0")
    case True
    then show ?thesis using ok c i by (simp add: intq_signal_def intr_get_level_def woke_def)
  next
    case False
    then have w: "st s (waiter c q) = Some THREAD_BLOCKED" "waiter c q \<noteq> idle_thread s" using ok by (auto simp: intq_ok_def)
    obtain s' where s': "thread_unblock (waiter c q) s = Some s'" "sched_inv s'"
      "s' = (upd_thread (waiter c q) (\<lambda>th. th\<lparr>status := THREAD_READY\<rparr>) s)\<lparr>ready_list := ready_list s @ [waiter c q]\<rparr>"
      "\<forall>u. st s' u = (if u = waiter c q then Some THREAD_READY else st s u)"
      by (rule thread_unblock_inv [OF i(1) w]) (use i in auto)
    have f: "level s' = INTR_OFF" "idle_thread s' = idle_thread s" "ready_list s' = ready_list s @ [waiter c q]"
      using i by (simp_all add: s'(3))
    have "waiter d q \<noteq> waiter c q" if "waiter d q \<noteq> 0" "d \<noteq> c" for d
      using ok that by (cases c; cases d) (auto simp: intq_ok_def)
    then have "st s' (waiter d (set_waiter c 0 q)) = Some THREAD_BLOCKED \<and> waiter d (set_waiter c 0 q) \<noteq> idle_thread s'"
      if "waiter d (set_waiter c 0 q) \<noteq> 0" for d
      using that ok s'(4) f(2) by (simp add: intq_ok_def split: if_splits)
    then have "intq_ok (set_waiter c 0 q, s')"
      using ok s'(2) f(1) by (simp add: intq_ok_def split: if_splits)
    moreover have "woke (waiter c q) s s'" using False s'(4) f i by (simp add: woke_def s'(3)) (simp add: upd_thread_def)
    ultimately show ?thesis using False c i s'(1) by (simp add: intq_signal_def intr_get_level_def)
  qed
qed

lemma intq_putc_ok:
  assumes ok: "intq_ok (q, s)" and nf: "length (intq_contents q) < INTQ_BUFSIZE - 1"
  shows "\<exists>q' s'. intq_putc b q s = Some (q', s') \<and> intq_ok (q', s') \<and> intq_contents q' = intq_contents q @ [b]
    \<and> (\<forall>d. waiter d q' = (if d = Not_Empty then 0 else waiter d q)) \<and> woke (waiter Not_Empty q) s s'"
proof -
  have i: "intq_wf q" "level s = INTR_OFF" using ok by (simp_all add: intq_ok_def)
  have nn: "intq_next (head q) \<noteq> tail q" using intq_len_full [OF i(1)] nf by simp
  let ?q = "q\<lparr>buf := (buf q)[head q := b], head := intq_next (head q)\<rparr>"
  note p = contents_put [OF i(1) nn, of b]
  have ok': "intq_ok (?q, s)" using ok p(1) by (simp add: intq_ok_def)
  have "intq_contents ?q \<noteq> []" using p(2) by simp
  then have "head ?q \<noteq> tail ?q" using intq_len_0 [OF p(1)] by (metis len_contents length_0_conv)
  then have "condition_false Not_Empty ?q s = Some False"
    using i by (simp add: condition_false_def intq_empty_def intr_get_level_def)
  from signal_ok [OF ok' this] show ?thesis
    using i nn p(2) by (auto simp: intq_putc_def intq_putc_iter_def intq_full_def intr_get_level_def Let_def)
qed

lemma intq_getc_ok:
  assumes ok: "intq_ok (q, s)" and ne: "intq_contents q = b # bs"
  shows "\<exists>q' s'. intq_getc q s = Some (b, q', s') \<and> intq_ok (q', s') \<and> intq_contents q' = bs
    \<and> (\<forall>d. waiter d q' = (if d = Not_Full then 0 else waiter d q)) \<and> woke (waiter Not_Full q) s s'"
proof -
  have i: "intq_wf q" "level s = INTR_OFF" using ok by (simp_all add: intq_ok_def)
  have nn: "head q \<noteq> tail q" using intq_len_0 [OF i(1)] ne by (metis len_contents length_0_conv list.distinct(1))
  let ?q = "q\<lparr>tail := intq_next (tail q)\<rparr>"
  note p = contents_get [OF i(1) nn]
  have ok': "intq_ok (?q, s)" using ok p(1) by (simp add: intq_ok_def)
  have "Suc (length (intq_contents ?q)) = length (intq_contents q)" using p(2) by simp
  then have "intq_len ?q \<noteq> INTQ_BUFSIZE - 1" using intq_len_less [of q] by simp
  then have "condition_false Not_Full ?q s = Some False"
    using i intq_len_full [OF p(1)] by (simp add: condition_false_def intq_full_def intr_get_level_def)
  from signal_ok [OF ok' this] show ?thesis
    using i nn p(2) ne by (auto simp: intq_getc_def intq_getc_iter_def intq_empty_def intr_get_level_def Let_def)
qed

interpretation intq_fifo: bounded_fifo "INTQ_BUFSIZE - 1" intq_ok "\<lambda>(q, s). intq_contents q"
  "\<lambda>b (q, s). intq_putc b q s" "\<lambda>(q, s). intq_getc q s"
proof (unfold_locales, goal_cases)
  case (1 p e)
  then show ?case using intq_putc_ok [of "fst p" "snd p" e] by (cases p) auto
next
  case (2 p x xs)
  then show ?case using intq_getc_ok [of "fst p" "snd p" x xs] by (cases p) auto
qed

text \<open>The threads that a sequence of calls wakes, in order, when \<open>ne\<close> waits for a byte and \<open>nf\<close> for room
  (0 for nobody): the first insertion wakes \<open>ne\<close>, the first removal \<open>nf\<close>.\<close>

fun wakes :: "'e queue_op list \<Rightarrow> nat \<Rightarrow> nat \<Rightarrow> nat list" where
  "wakes [] ne nf = []"
| "wakes (Put e # ops) ne nf = (if ne = 0 then [] else [ne]) @ wakes ops 0 nf"
| "wakes (Get # ops) ne nf = (if nf = 0 then [] else [nf]) @ wakes ops ne 0"

lemma run_wakes:
  assumes "intq_ok (q, s)" "spec_ops (INTQ_BUFSIZE - 1) ops (intq_contents q) = Some (out, c)"
    "run_ops (\<lambda>b (q, s). intq_putc b q s) (\<lambda>(q, s). intq_getc q s) ops (q, s) = Some (out', q', s')"
  shows "ready_list s' = ready_list s @ wakes ops (waiter Not_Empty q) (waiter Not_Full q)
    \<and> (\<forall>u. st s' u = (if u \<in> set (wakes ops (waiter Not_Empty q) (waiter Not_Full q)) then Some THREAD_READY else st s u))
    \<and> waiter Not_Empty q' = (if \<exists>b. Put b \<in> set ops then 0 else waiter Not_Empty q)
    \<and> waiter Not_Full q' = (if Get \<in> set ops then 0 else waiter Not_Full q)"
  using assms
proof (induction ops arbitrary: q s out out' c)
  case (Cons op ops)
  show ?case
  proof (cases op)
    case (Put b)
    then have "length (intq_contents q) < INTQ_BUFSIZE - 1"
      and sp: "spec_ops (INTQ_BUFSIZE - 1) ops (intq_contents q @ [b]) = Some (out, c)"
      using Cons.prems(2) by (simp_all split: if_splits)
    then obtain q1 s1 where q1: "intq_putc b q s = Some (q1, s1)" "intq_ok (q1, s1)" "intq_contents q1 = intq_contents q @ [b]"
      "\<forall>d. waiter d q1 = (if d = Not_Empty then 0 else waiter d q)" "woke (waiter Not_Empty q) s s1"
      using intq_putc_ok [OF Cons.prems(1)] by blast
    have "run_ops (\<lambda>b (q, s). intq_putc b q s) (\<lambda>(q, s). intq_getc q s) ops (q1, s1) = Some (out', q', s')"
      using Cons.prems(3) q1(1) Put by simp
    from Cons.IH [OF q1(2) _ this] sp q1(3-5) show ?thesis by (auto simp: Put woke_def)
  next
    case Get
    then obtain x xs o1 where x: "intq_contents q = x # xs" and sp: "spec_ops (INTQ_BUFSIZE - 1) ops xs = Some (o1, c)"
      using Cons.prems(2) by (auto simp: Option.bind_eq_Some_conv split: list.splits)
    then obtain q1 s1 where q1: "intq_getc q s = Some (x, q1, s1)" "intq_ok (q1, s1)" "intq_contents q1 = xs"
      "\<forall>d. waiter d q1 = (if d = Not_Full then 0 else waiter d q)" "woke (waiter Not_Full q) s s1"
      using intq_getc_ok [OF Cons.prems(1)] by blast
    obtain o2 where "run_ops (\<lambda>b (q, s). intq_putc b q s) (\<lambda>(q, s). intq_getc q s) ops (q1, s1) = Some (o2, q', s')"
      using Cons.prems(3) q1(1) Get by (auto simp: Option.bind_eq_Some_conv)
    from Cons.IH [OF q1(2) _ this] sp q1(3-5) show ?thesis by (auto simp: Get woke_def)
  qed
qed simp

text \<open>C30: The interrupt queue refines a bounded first-in first-out queue of 63 bytes: any sequence of
  \<^verbatim>\<open>intq_putc\<close> and \<^verbatim>\<open>intq_getc\<close> calls that the abstract queue allows runs without blocking and
  without a failed assertion, gives the same bytes, and leaves the abstract contents. The first
  insertion makes the thread that waits for a byte ready and clears the entry of that thread, the first removal
  the thread that waits for room, in the order of the calls; no other thread changes its state.
  The scheduler invariant and the waiting threads stay consistent.\<close>

theorem intq_refines_fifo:
  assumes "intq_ok (q, s)" "spec_ops (INTQ_BUFSIZE - 1) ops (intq_contents q) = Some (out, c)"
  shows "\<exists>q' s'. run_ops (\<lambda>b (q, s). intq_putc b q s) (\<lambda>(q, s). intq_getc q s) ops (q, s) = Some (out, q', s')
     \<and> intq_ok (q', s') \<and> intq_contents q' = c
     \<and> ready_list s' = ready_list s @ wakes ops (waiter Not_Empty q) (waiter Not_Full q)
     \<and> (\<forall>u. st s' u = (if u \<in> set (wakes ops (waiter Not_Empty q) (waiter Not_Full q)) then Some THREAD_READY else st s u))
     \<and> waiter Not_Empty q' = (if \<exists>b. Put b \<in> set ops then 0 else waiter Not_Empty q)
     \<and> waiter Not_Full q' = (if Get \<in> set ops then 0 else waiter Not_Full q)"
proof -
  obtain q' s' where r: "run_ops (\<lambda>b (q, s). intq_putc b q s) (\<lambda>(q, s). intq_getc q s) ops (q, s) = Some (out, q', s')"
    "intq_ok (q', s')" "intq_contents q' = c"
    using intq_fifo.run_refines_spec [of "(q, s)" ops out c] assms by auto
  then show ?thesis using run_wakes [OF assms r(1)] by blast
qed

definition demo_intq :: intq where
  "demo_intq = \<lparr>lock = 8, not_full = 0, not_empty = 0, buf = replicate 64 0, head = 63, tail = 63\<rparr>"

theorem intq_refines_fifo_witness:
  "\<exists>(s :: sync) q' s'. run_ops (\<lambda>b (q, s). intq_putc b q s) (\<lambda>(q, s). intq_getc q s) [Put 65, Put 66, Get] (demo_intq, s)
     = Some ([65], q', s') \<and> intq_contents q' = [66]"
proof -
  let ?s = "kernel.extend demo_main (sync.fields (\<lambda>_. \<lparr>value = 1, waiters = []\<rparr>) (\<lambda>_. 0) (\<lambda>_. []))"
  have "sched_inv ?s"
    using sched_reach_inv [OF demo_main_reach] by (subst sched_inv_cong [of _ demo_main]) (simp_all add: kernel.defs sync.defs)
  moreover have "level ?s = INTR_OFF" using demo_main_fields(2) by (simp add: kernel.defs sync.defs)
  moreover have w: "waiter c demo_intq = 0" for c by (cases c) (simp_all add: waiter_def demo_intq_def)
  ultimately have "intq_ok (demo_intq, ?s)"
    by (simp add: intq_ok_def) (simp add: intq_wf_def demo_intq_def INTQ_BUFSIZE_def)
  moreover have "spec_ops (INTQ_BUFSIZE - 1) [Put 65, Put 66, Get] (intq_contents demo_intq) = Some ([65], [66])"
    by (simp add: intq_contents_def intq_len_def demo_intq_def INTQ_BUFSIZE_def)
  ultimately show ?thesis using intq_refines_fifo [of demo_intq ?s] by blast
qed

end
