(* ===== verification/Timer.thy ===== *)
theory Timer
  imports Klist_Sort Arith Synch
begin

text \<open>
  The timer (\<^verbatim>\<open>devices/timer.c\<close>) and the interval timer chip it programs (\<^verbatim>\<open>devices/pit.c\<close>).

  Sleeping threads are kept in a list ordered by the tick at which they wake up. The field
  \<open>sleeping_threads\<close> is the sequence of threads of that list; \<open>insert_ordered\<close> is what
  \<^verbatim>\<open>list_insert_ordered\<close> does to the sequence (lemma \<open>sleep_insert_rep\<close> connects it to the
  pointer program), and the comparison function is shown to satisfy the contract of an ordered
  list. Ticks are of type \<^verbatim>\<open>int64_t\<close> and never overflow in practice; the wake-up time of a
  thread is an \<^verbatim>\<open>int\<close>, so the sum is truncated to 32 bits.

  How many clock ticks pass while a loop of a given length runs is a property of the machine; it
  is the argument \<open>tick_after\<close> of the calibration. Signed 64-bit division is the library
  routine of \<^theory_text>\<open>Arith\<close>.
\<close>

record timer = sync +
  ticks :: int
  TIMER_FREQ :: nat
  loops_per_tick :: nat
  sleeping_threads :: "nat list"

section \<open>The interval timer chip\<close>

definition PIT_HZ :: int where "PIT_HZ = 1193180"
definition PIT_PORT_CONTROL :: nat where "PIT_PORT_CONTROL = 0x43"
definition PIT_PORT_COUNTER :: "nat \<Rightarrow> nat" where "PIT_PORT_COUNTER channel = 0x40 + channel"

text \<open>The counter value, a \<^verbatim>\<open>uint16_t\<close>.\<close>

definition pit_count :: "int \<Rightarrow> nat" where
  "pit_count frequency =
     (if frequency < 19 then 0
      else if frequency > PIT_HZ then 2
      else nat (((PIT_HZ + frequency div 2) div frequency) mod 2 ^ 16))"

definition pit_configure_channel :: "nat \<Rightarrow> nat \<Rightarrow> int \<Rightarrow> 'a intr_scheme \<Rightarrow> 'a intr_scheme option" where
  "pit_configure_channel channel mode frequency s = do {
     ASSERT (channel = 0 \<or> channel = 2);
     ASSERT (mode = 2 \<or> mode = 3);
     let count = pit_count frequency;
     let (old_level, s) = intr_disable s;
     let s = outb PIT_PORT_CONTROL (or (or (channel * 64) 0x30) (mode * 2)) s;
     let s = outb (PIT_PORT_COUNTER channel) (count mod 2 ^ 8) s;
     let s = outb (PIT_PORT_COUNTER channel) (count div 2 ^ 8) s;
     (_, s) \<leftarrow> intr_set_level old_level s;
     Some s
   }"

section \<open>Sleeping\<close>

definition sleep_time :: "(nat \<rightharpoonup> thread) \<Rightarrow> nat \<Rightarrow> int" where
  "sleep_time ths t = (case ths t of None \<Rightarrow> 0 | Some th \<Rightarrow> thread_sleep_time th)"

definition thread_sleep_time_comparator :: "(nat \<rightharpoonup> thread) \<Rightarrow> nat \<Rightarrow> nat \<Rightarrow> bool" where
  "thread_sleep_time_comparator ths a b \<longleftrightarrow> sleep_time ths a < sleep_time ths b"

definition insert_ordered :: "('a \<Rightarrow> 'a \<Rightarrow> bool) \<Rightarrow> 'a \<Rightarrow> 'a list \<Rightarrow> 'a list" where
  "insert_ordered lt e xs = takeWhile (\<lambda>x. \<not> lt e x) xs @ e # dropWhile (\<lambda>x. \<not> lt e x) xs"

definition timer_init :: "(nat \<Rightarrow> u32) \<Rightarrow> nat \<Rightarrow> nat \<Rightarrow> 'a timer_scheme \<Rightarrow> 'a timer_scheme option" where
  "timer_init intr_stubs handler timer_freq s = do {
     let s = s\<lparr>TIMER_FREQ := timer_freq, sleeping_threads := []\<rparr>;
     s \<leftarrow> pit_configure_channel 0 2 (int timer_freq) s;
     intr_register_ext intr_stubs 0x20 handler ''8254 Timer'' s
   }"

definition timer_ticks :: "'a timer_scheme \<Rightarrow> (int \<times> 'a timer_scheme) option" where
  "timer_ticks s = do {
     let (old_level, s) = intr_disable s;
     let t = ticks s;
     (_, s) \<leftarrow> intr_set_level old_level s;
     Some (t, s)
   }"

definition timer_elapsed :: "int \<Rightarrow> 'a timer_scheme \<Rightarrow> (int \<times> 'a timer_scheme) option" where
  "timer_elapsed since s = do { (t, s) \<leftarrow> timer_ticks s; Some (t - since, s) }"

text \<open>\<^verbatim>\<open>timer_sleep\<close> up to the switch to another thread, as one step: a tick or a preemption between the
  reading of the clock and \<^verbatim>\<open>intr_disable\<close>, where interrupts are on, is not part of it. When the caller
  runs again it executes \<^verbatim>\<open>intr_enable\<close>.\<close>

definition timer_sleep :: "int \<Rightarrow> 'a timer_scheme \<Rightarrow> 'a timer_scheme option" where
  "timer_sleep n s = do {
     (start, s) \<leftarrow> timer_ticks s;
     t \<leftarrow> thread_current s;
     ASSERT (intr_get_level s = INTR_ON);
     let s = upd_thread t (\<lambda>th. th\<lparr>thread_sleep_time := to_int32 (start + n)\<rparr>) s;
     let (_, s) = intr_disable s;
     let s = s\<lparr>sleeping_threads :=
       insert_ordered (thread_sleep_time_comparator (threads s)) t (sleeping_threads s)\<rparr>;
     thread_block s
   }"

text \<open>The loop of the interrupt handler over the list of sleeping threads.\<close>

fun wake :: "nat list \<Rightarrow> 'a timer_scheme \<Rightarrow> 'a timer_scheme option" where
  "wake [] s = Some s"
| "wake (t # ts) s = do {
     th \<leftarrow> threads s t;
     if ticks s \<ge> thread_sleep_time th
     then do { s \<leftarrow> thread_unblock t (s\<lparr>sleeping_threads := ts\<rparr>); wake ts s }
     else Some s
   }"

definition timer_interrupt :: "'a timer_scheme \<Rightarrow> 'a timer_scheme option" where
  "timer_interrupt s = do {
     let s = s\<lparr>ticks := ticks s + 1\<rparr>;
     s \<leftarrow> thread_tick s;
     wake (sleeping_threads s) s
   }"

section \<open>Delays\<close>

text \<open>The number of iterations of the delay loop.\<close>

definition busy_wait :: "int \<Rightarrow> nat" where
  "busy_wait loops = nat loops"

definition real_time_delay :: "int \<Rightarrow> int \<Rightarrow> 'a timer_scheme \<Rightarrow> nat option" where
  "real_time_delay num denom s = do {
     ASSERT (denom mod 1000 = 0);
     q \<leftarrow> divdi3 (to_int64 (int (loops_per_tick s) * num)) 1000;
     r \<leftarrow> divdi3 (to_int64 (q * int (TIMER_FREQ s))) (denom sdiv 1000);
     Some (busy_wait r)
   }"

text \<open>Either the caller sleeps and the result is the state of the next thread, or it loops for a
  number of iterations.\<close>

definition real_time_sleep :: "int \<Rightarrow> int \<Rightarrow> 'a timer_scheme \<Rightarrow> ('a timer_scheme + nat) option" where
  "real_time_sleep num denom s = do {
     n \<leftarrow> divdi3 (to_int64 (num * int (TIMER_FREQ s))) denom;
     ASSERT (intr_get_level s = INTR_ON);
     if n > 0 then do { s \<leftarrow> timer_sleep n s; Some (Inl s) }
     else do { l \<leftarrow> real_time_delay num denom s; Some (Inr l) }
   }"

definition timer_msleep :: "int \<Rightarrow> 'a timer_scheme \<Rightarrow> ('a timer_scheme + nat) option" where
  "timer_msleep ms s = real_time_sleep ms 1000 s"

definition timer_usleep :: "int \<Rightarrow> 'a timer_scheme \<Rightarrow> ('a timer_scheme + nat) option" where
  "timer_usleep us s = real_time_sleep us (1000 * 1000) s"

definition timer_nsleep :: "int \<Rightarrow> 'a timer_scheme \<Rightarrow> ('a timer_scheme + nat) option" where
  "timer_nsleep ns s = real_time_sleep ns (1000 * 1000 * 1000) s"

definition timer_mdelay :: "int \<Rightarrow> 'a timer_scheme \<Rightarrow> nat option" where
  "timer_mdelay ms s = real_time_delay ms 1000 s"

definition timer_udelay :: "int \<Rightarrow> 'a timer_scheme \<Rightarrow> nat option" where
  "timer_udelay us s = real_time_delay us (1000 * 1000) s"

definition timer_ndelay :: "int \<Rightarrow> 'a timer_scheme \<Rightarrow> nat option" where
  "timer_ndelay ns s = real_time_delay ns (1000 * 1000 * 1000) s"

section \<open>Calibration\<close>

text \<open>\<open>tick_after n\<close> is the number of ticks counted while \<open>n\<close> iterations run, starting right after a
  tick. The loop of \<^verbatim>\<open>too_many_loops\<close> that waits for that tick is not modelled as a loop: it ends when
  the interrupt handler has counted one more tick, and \<open>start\<close> is the count it leaves with. The result does
  not depend on that count, so the calibration does not carry the ticks from one call to the next.\<close>

definition too_many_loops :: "(nat \<Rightarrow> int) \<Rightarrow> nat \<Rightarrow> 'a timer_scheme \<Rightarrow> bool" where
  "too_many_loops tick_after loops s \<longleftrightarrow>
     (let start = ticks s + 1 in start \<noteq> start + tick_after (busy_wait (int loops)))"

partial_function (option) calibrate_double :: "(nat \<Rightarrow> bool) \<Rightarrow> nat \<Rightarrow> nat option" where
  "calibrate_double too_many loops =
     (if \<not> too_many (loops * 2 mod 2 ^ 32) then do {
        let loops = loops * 2 mod 2 ^ 32;
        ASSERT (loops \<noteq> 0);
        calibrate_double too_many loops
      }
      else Some loops)"

partial_function (option) calibrate_refine :: "(nat \<Rightarrow> bool) \<Rightarrow> nat \<Rightarrow> nat \<Rightarrow> nat \<Rightarrow> nat option" where
  "calibrate_refine too_many high_bit test_bit loops =
     (if test_bit \<noteq> high_bit div 2 ^ 10
      then calibrate_refine too_many high_bit (test_bit div 2)
        (if \<not> too_many (or loops test_bit) then or loops test_bit else loops)
      else Some loops)"

definition timer_calibrate :: "(nat \<Rightarrow> int) \<Rightarrow> 'a timer_scheme \<Rightarrow> 'a timer_scheme option" where
  "timer_calibrate tick_after s = do {
     ASSERT (intr_get_level s = INTR_ON);
     loops \<leftarrow> calibrate_double (\<lambda>l. too_many_loops tick_after l s) (2 ^ 10);
     let high_bit = loops;
     loops \<leftarrow> calibrate_refine (\<lambda>l. too_many_loops tick_after l s) high_bit (high_bit div 2) loops;
     Some (s\<lparr>loops_per_tick := loops\<rparr>)
   }"

section \<open>Ordered insertion\<close>

context weak_order
begin

lemma insert_ordered_sorted:
  assumes "sorted_wrt (\<lambda>x y. \<not> lt y x) xs"
  shows "sorted_wrt (\<lambda>x y. \<not> lt y x) (insert_ordered lt e xs)"
proof -
  have "sorted_wrt (\<lambda>x y. \<not> lt y x) (takeWhile (\<lambda>x. \<not> lt e x) xs @ dropWhile (\<lambda>x. \<not> lt e x) xs)"
    using assms by simp
  then have s: "sorted_wrt (\<lambda>x y. \<not> lt y x) (takeWhile (\<lambda>x. \<not> lt e x) xs)"
    "sorted_wrt (\<lambda>x y. \<not> lt y x) (dropWhile (\<lambda>x. \<not> lt e x) xs)"
    "\<forall>x \<in> set (takeWhile (\<lambda>x. \<not> lt e x) xs). \<forall>y \<in> set (dropWhile (\<lambda>x. \<not> lt e x) xs). \<not> lt y x"
    unfolding sorted_wrt_append by blast+
  have "\<not> lt y e" if y: "y \<in> set (dropWhile (\<lambda>x. \<not> lt e x) xs)" for y
  proof (cases "dropWhile (\<lambda>x. \<not> lt e x) xs")
    case (Cons v vs)
    then have "lt e v" by (metis dropWhile_eq_Cons_conv)
    moreover have "\<not> lt y v" using s(2) y Cons asym [of y y] by auto
    ultimately show ?thesis using asym ntrans by blast
  next
    case Nil
    then show ?thesis using y by (simp only: list.set(1) empty_iff)
  qed
  then show ?thesis using s by (auto simp: insert_ordered_def sorted_wrt_append dest: set_takeWhileD)
qed

end

interpretation sleep_order: weak_order "thread_sleep_time_comparator ths" for ths
  by unfold_locales (auto simp: thread_sleep_time_comparator_def)

text \<open>The elements of the list are members of the thread structures, \<open>ofs\<close> bytes into them.\<close>

interpretation sleep_list: list_order "\<lambda>a b. thread_sleep_time_comparator ths (a - ofs) (b - ofs)" for ths ofs
  by unfold_locales (auto simp: thread_sleep_time_comparator_def)

lemma sleep_insert_rep:
  assumes "list_rep h l (map (\<lambda>t. t + ofs) ts)" "0 < t + ofs" "t + ofs \<notin> set (nodes l (map (\<lambda>t. t + ofs) ts))"
  shows "\<exists>h'. list_insert_ordered h l (t + ofs) (\<lambda>a b. thread_sleep_time_comparator ths (a - ofs) (b - ofs)) = Some h'
    \<and> list_rep h' l (map (\<lambda>t. t + ofs) (insert_ordered (thread_sleep_time_comparator ths) t ts))"
  using list_insert_ordered_rep [OF assms(1) _ assms(3), of "\<lambda>a b. thread_sleep_time_comparator ths (a - ofs) (b - ofs)"] assms(2)
  by (auto simp: insert_ordered_def takeWhile_map dropWhile_map comp_def)

lemma mset_insert_ordered: "mset (insert_ordered lt e xs) = mset (e # xs)"
  by (simp add: insert_ordered_def) (metis mset_append takeWhile_dropWhile_id)

lemma set_insert_ordered [simp]: "set (insert_ordered lt e xs) = insert e (set xs)"
  using mset_insert_ordered [THEN mset_eq_setD] by simp

lemma distinct_insert_ordered [simp]: "distinct (insert_ordered lt e xs) \<longleftrightarrow> e \<notin> set xs \<and> distinct xs"
  using mset_insert_ordered [THEN mset_eq_imp_distinct_iff] by simp

lemma sorted_take_filter:
  assumes "sorted_wrt (\<lambda>x y. \<not> thread_sleep_time_comparator ths y x) xs"
  shows "takeWhile (\<lambda>t. sleep_time ths t \<le> n) xs = filter (\<lambda>t. sleep_time ths t \<le> n) xs"
    and "dropWhile (\<lambda>t. sleep_time ths t \<le> n) xs = filter (\<lambda>t. n < sleep_time ths t) xs"
  using assms
proof (induction xs)
  case (Cons x xs)
  case 1
  show ?case
  proof (cases "sleep_time ths x \<le> n")
    case False
    then have "\<forall>y \<in> set xs. \<not> sleep_time ths y \<le> n" using 1 by (auto simp: thread_sleep_time_comparator_def)
    then have "filter (\<lambda>t. sleep_time ths t \<le> n) xs = []" by (simp add: filter_empty_conv)
    then show ?thesis using False by simp
  qed (use Cons 1 in simp)
next
  case (Cons x xs)
  case 2
  show ?case
  proof (cases "sleep_time ths x \<le> n")
    case False
    then have "\<forall>y \<in> set xs. n < sleep_time ths y" using 2 by (auto simp: thread_sleep_time_comparator_def)
    then show ?thesis using False by (simp add: filter_id_conv)
  qed (use Cons 2 in simp)
qed simp_all

section \<open>The list of sleeping threads\<close>

definition timer_inv :: "'a timer_scheme \<Rightarrow> bool" where
  "timer_inv s \<longleftrightarrow> sched_inv s \<and> distinct (sleeping_threads s)
     \<and> (\<forall>t \<in> set (sleeping_threads s). st s t = Some THREAD_BLOCKED \<and> t \<noteq> idle_thread s)
     \<and> sorted_wrt (\<lambda>x y. \<not> thread_sleep_time_comparator (threads s) y x) (sleeping_threads s)"

lemma more_timer:
  assumes "kernel.more s' = kernel.more s"
  shows "ticks s' = ticks s" "sleeping_threads s' = sleeping_threads s"
  using assms by (cases s; cases s'; simp)+

lemma sleep_time_core: "core k' = core k \<Longrightarrow> sleep_time (threads k') = sleep_time (threads k)"
proof (rule ext)
  fix t assume "core k' = core k"
  then have "core k' t = core k t" by simp
  then show "sleep_time (threads k') t = sleep_time (threads k) t"
    by (cases "threads k t"; cases "threads k' t") (auto simp: core_def sleep_time_def dest: arg_cong [of _ _ thread_sleep_time])
qed

lemma comparator_cong:
  "sleep_time ths = sleep_time ths' \<Longrightarrow> thread_sleep_time_comparator ths = thread_sleep_time_comparator ths'"
  by (simp add: thread_sleep_time_comparator_def fun_eq_iff)

lemma sched_inv_sleep_time:
  "sched_inv (upd_thread t (\<lambda>th. th\<lparr>thread_sleep_time := w\<rparr>) k) = sched_inv k"
  "st (upd_thread t (\<lambda>th. th\<lparr>thread_sleep_time := w\<rparr>) k) = st k"
proof -
  let ?k = "upd_thread t (\<lambda>th. th\<lparr>thread_sleep_time := w\<rparr>) k"
  show st: "st ?k = st k" by (auto simp: st_def fun_eq_iff option.map_comp comp_def)
  have p: "used_pages ?k = used_pages k" "geometry ?k = geometry k" "mmu_wf ?k = mmu_wf k" "live_region ?k = live_region k"
    by (rule used_pages_cong; simp)+
  define g where "g u th = (if u = t then th\<lparr>thread_sleep_time := w\<rparr> else th)" for u :: nat and th :: thread
  have th: "threads ?k u = map_option (g u) (threads k u)" for u by (cases "threads k u") (auto simp: g_def)
  have g: "tid (g u th) = tid th" "thread_ok ?k u (g u th) = thread_ok k u th" for u th
    by (simp_all add: g_def thread_ok_def p)
  have all: "(\<forall>th. map_option (g u) x = Some th \<longrightarrow> P th) = (\<forall>th. x = Some th \<longrightarrow> P (g u th))" for u x P by auto
  have "(\<forall>u th. threads ?k u = Some th \<longrightarrow> thread_ok ?k u th) = (\<forall>u th. threads k u = Some th \<longrightarrow> thread_ok k u th)"
    unfolding th all g ..
  moreover have "(\<forall>u v th uh. threads ?k u = Some th \<longrightarrow> threads ?k v = Some uh \<longrightarrow> tid th = tid uh \<longrightarrow> u = v)
      = (\<forall>u v th uh. threads k u = Some th \<longrightarrow> threads k v = Some uh \<longrightarrow> tid th = tid uh \<longrightarrow> u = v)"
    unfolding th by (simp add: g) (metis g(1))
  ultimately have "sched_wf ?k = sched_wf k" unfolding sched_wf_def p st by (simp del: upd_thread_frame(8))
  then show "sched_inv ?k = sched_inv k" by (simp add: sched_inv_def st)
qed

lemma timer_invD:
  assumes "timer_inv s"
  shows "sched_inv s" "distinct (sleeping_threads s)"
    "t \<in> set (sleeping_threads s) \<Longrightarrow> st s t = Some THREAD_BLOCKED"
    "t \<in> set (sleeping_threads s) \<Longrightarrow> t \<noteq> idle_thread s"
    "sorted_wrt (\<lambda>x y. \<not> thread_sleep_time_comparator (threads s) y x) (sleeping_threads s)"
  using assms by (simp_all add: timer_inv_def)

lemma sched_inv_timer [simp]: "sched_inv (s\<lparr>sleeping_threads := l\<rparr>) = sched_inv s" "sched_inv (s\<lparr>ticks := n\<rparr>) = sched_inv s"
  by (rule sched_inv_cong; simp)+

lemma st_timer [simp]: "st (s\<lparr>sleeping_threads := l\<rparr>) = st s" "st (s\<lparr>ticks := n\<rparr>) = st s"
  by (simp_all add: st_def fun_eq_iff)

definition same_but_queues :: "'a timer_scheme \<Rightarrow> 'a timer_scheme \<Rightarrow> bool" where
  "same_but_queues s s' \<longleftrightarrow> core s' = core s \<and> cur s' = cur s \<and> idle_thread s' = idle_thread s \<and> level s' = level s
     \<and> in_external_intr s' = in_external_intr s \<and> ticks s' = ticks s \<and> intr_handlers s' = intr_handlers s
     \<and> yield_on_return s' = yield_on_return s \<and> initial_thread s' = initial_thread s"

lemma wake_first:
  assumes inv: "timer_inv s" and lv: "level s = INTR_OFF" and ts: "sleeping_threads s = t # ts"
  obtains s1 where "thread_unblock t (s\<lparr>sleeping_threads := ts\<rparr>) = Some s1" "timer_inv s1" "sleeping_threads s1 = ts"
    "ready_list s1 = ready_list s @ [t]" "\<forall>u. st s1 u = (if u = t then Some THREAD_READY else st s u)" "same_but_queues s s1"
proof -
  let ?s = "s\<lparr>sleeping_threads := ts\<rparr>"
  have b: "sched_inv ?s" "st ?s t = Some THREAD_BLOCKED" "t \<noteq> idle_thread ?s" "\<not> in_external_intr ?s \<or> level ?s = INTR_OFF"
    using timer_invD(1,3,4) [OF inv] lv ts by simp_all
  obtain s1 where s1: "thread_unblock t ?s = Some s1" "sched_inv s1"
      "s1 = (upd_thread t (\<lambda>th. th\<lparr>status := THREAD_READY\<rparr>) ?s)\<lparr>ready_list := ready_list ?s @ [t]\<rparr>"
      "\<forall>u. st s1 u = (if u = t then Some THREAD_READY else st ?s u)"
    by (rule thread_unblock_inv [OF b])
  have f: "sleeping_threads s1 = ts" "ready_list s1 = ready_list s @ [t]" "idle_thread s1 = idle_thread s"
    by (simp_all add: s1(3) upd_thread_def)
  have c: "core s1 = core s" by (simp add: s1(3) core_def fun_eq_iff option.map_comp comp_def)
  have "timer_inv s1"
    using s1(2,4) f inv ts comparator_cong [OF sleep_time_core [OF c]] by (auto simp: timer_inv_def)
  moreover have "same_but_queues s s1" using c by (simp add: same_but_queues_def s1(3)) (simp add: upd_thread_def)
  ultimately show thesis using that s1 f by simp
qed

lemma wake_correct:
  assumes inv: "timer_inv s" and lv: "level s = INTR_OFF"
  defines "P \<equiv> \<lambda>t. sleep_time (threads s) t \<le> ticks s"
  shows "\<exists>s'. wake (sleeping_threads s) s = Some s' \<and> timer_inv s' \<and> sleeping_threads s' = dropWhile P (sleeping_threads s)
     \<and> ready_list s' = ready_list s @ takeWhile P (sleeping_threads s) \<and> same_but_queues s s'
     \<and> (\<forall>t. st s' t = (if t \<in> set (takeWhile P (sleeping_threads s)) then Some THREAD_READY else st s t))"
  using inv lv unfolding P_def
proof (induction "sleeping_threads s" arbitrary: s)
  case Nil
  then show ?case by (simp add: same_but_queues_def flip: Nil(1))
next
  case (Cons t ts)
  note ts = Cons(2) [symmetric]
  obtain th where th: "threads s t = Some th"
    using timer_invD(3) [OF Cons(3), of t] ts by (auto simp: st_def)
  then have w: "thread_sleep_time th = sleep_time (threads s) t" by (simp add: sleep_time_def)
  show ?case
  proof (cases "sleep_time (threads s) t \<le> ticks s")
    case False
    then have "wake (sleeping_threads s) s = Some s" using ts th w by simp
    then show ?thesis using False Cons.prems by (simp add: ts same_but_queues_def)
  next
    case True
    obtain s1 where s1: "thread_unblock t (s\<lparr>sleeping_threads := ts\<rparr>) = Some s1" "timer_inv s1" "sleeping_threads s1 = ts"
      "ready_list s1 = ready_list s @ [t]" "\<forall>u. st s1 u = (if u = t then Some THREAD_READY else st s u)" "same_but_queues s s1"
      by (rule wake_first [OF Cons.prems ts])
    have c: "sleep_time (threads s1) = sleep_time (threads s)" "level s1 = INTR_OFF" "ticks s1 = ticks s"
      using s1(6) Cons.prems(2) sleep_time_core by (auto simp: same_but_queues_def)
    have step: "wake (sleeping_threads s) s = wake ts s1" using ts th w True s1(1) by simp
    obtain s' where s': "wake ts s1 = Some s'" "timer_inv s'" "same_but_queues s1 s'"
      "sleeping_threads s' = dropWhile (\<lambda>t. sleep_time (threads s) t \<le> ticks s) ts"
      "ready_list s' = ready_list s @ t # takeWhile (\<lambda>t. sleep_time (threads s) t \<le> ticks s) ts"
      "\<forall>u. st s' u = (if u \<in> set (takeWhile (\<lambda>t. sleep_time (threads s) t \<le> ticks s) ts) then Some THREAD_READY else st s1 u)"
      using Cons(1) [OF s1(3) [symmetric] s1(2) c(2)] s1(3,4) unfolding c(1,3) by auto
    have "same_but_queues s s'" using s1(6) s'(3) by (simp add: same_but_queues_def)
    then show ?thesis using s' s1(5) True step by (intro exI [of _ s']) (simp add: ts)
  qed
qed

text \<open>The interrupt handler itself, called in interrupt context.\<close>

lemma timer_interrupt_correct:
  assumes inv: "timer_inv s" and lv: "level s = INTR_OFF" "in_external_intr s"
  defines "woken \<equiv> filter (\<lambda>t. sleep_time (threads s) t \<le> ticks s + 1) (sleeping_threads s)"
  shows "\<exists>s'. timer_interrupt s = Some s' \<and> timer_inv s' \<and> ticks s' = ticks s + 1
     \<and> sleeping_threads s' = filter (\<lambda>t. ticks s + 1 < sleep_time (threads s) t) (sleeping_threads s)
     \<and> ready_list s' = ready_list s @ woken \<and> core s' = core s \<and> idle_thread s' = idle_thread s \<and> cur s' = cur s
     \<and> level s' = INTR_OFF \<and> in_external_intr s' \<and> intr_handlers s' = intr_handlers s
     \<and> (\<forall>t. st s' t = (if t \<in> set woken then Some THREAD_READY else st s t))"
proof -
  define s0 where "s0 = s\<lparr>ticks := ticks s + 1\<rparr>"
  have i0: "sched_inv s0" "in_external_intr s0" using timer_invD(1) [OF inv] lv by (simp_all add: s0_def)
  obtain i u kt y where t: "thread_tick s0 = Some (s0\<lparr>idle_ticks := i, user_ticks := u, kernel_ticks := kt,
      thread_ticks := (thread_ticks s0 + 1) mod 2 ^ 32, yield_on_return := y\<rparr>)"
    using thread_tick_inv [OF i0] by blast
  define s1 where "s1 = s0\<lparr>idle_ticks := i, user_ticks := u, kernel_ticks := kt,
      thread_ticks := (thread_ticks s0 + 1) mod 2 ^ 32, yield_on_return := y\<rparr>"
  have f: "threads s1 = threads s" "sleeping_threads s1 = sleeping_threads s" "ticks s1 = ticks s + 1" "level s1 = INTR_OFF"
    "ready_list s1 = ready_list s" "idle_thread s1 = idle_thread s" "cur s1 = cur s" "in_external_intr s1"
    "intr_handlers s1 = intr_handlers s"
    using lv by (simp_all add: s1_def s0_def)
  have st1: "st s1 = st s" "core s1 = core s" by (simp_all add: st_def core_def fun_eq_iff f)
  have "sched_inv s1" using timer_invD(1) [OF inv] by (subst sched_inv_cong [of _ s]) (simp_all add: s1_def s0_def)
  then have i1: "timer_inv s1" using inv f st1 by (simp add: timer_inv_def)
  have "thread_tick s0 = Some s1" using t unfolding s1_def .
  then have "timer_interrupt s = wake (sleeping_threads s1) s1"
    by (simp add: timer_interrupt_def s0_def [symmetric] Let_def)
  then show ?thesis
    using wake_correct [OF i1 f(4)] f st1 sorted_take_filter [OF timer_invD(5) [OF inv], of "ticks s + 1"]
    by (auto simp: same_but_queues_def woken_def)
qed

text \<open>A switch of threads leaves the table of interrupt handlers alone.\<close>

lemma palloc_free_more: "palloc_free_page p s = Some s' \<Longrightarrow> pmem.more s' = pmem.more s"
  by (auto simp: palloc_free_page_def palloc_free_multiple_def panic_simps Option.bind_eq_Some_conv Let_def split: if_splits pool_id.splits option.splits)

lemma pmem_more_handlers: "pmem.more s' = pmem.more s \<Longrightarrow> intr_handlers s' = intr_handlers s"
  by (cases s; cases s'; simp)

lemma activate_handlers: "process_activate k = Some k' \<Longrightarrow> intr_handlers k' = intr_handlers k"
  by (auto simp: process_activate_def pagedir_activate_def tss_update_def panic_simps Option.bind_eq_Some_conv)

lemma tail_handlers:
  assumes "thread_schedule_tail prev k = Some k'" shows "intr_handlers k' = intr_handlers k"
proof -
  define k0 where "k0 = (upd_thread (running_thread k) (\<lambda>th. th\<lparr>status := THREAD_RUNNING\<rparr>) k)\<lparr>thread_ticks := 0\<rparr>"
  obtain k1 where k1: "process_activate k0 = Some k1" "k' = k1 \<or> (\<exists>k2. palloc_free_page prev k1 = Some k2 \<and> k' = k2\<lparr>threads := (threads k2)(prev := None)\<rparr>)"
    using assms by (auto simp: thread_schedule_tail_def Let_def panic_simps Option.bind_eq_Some_conv k0_def split: if_splits)
  have "intr_handlers k0 = intr_handlers k" by (simp add: k0_def upd_thread_def)
  then show ?thesis using activate_handlers [OF k1(1)] k1(2) palloc_free_more [THEN pmem_more_handlers, of prev k1] by auto
qed

lemma schedule_handlers: "schedule k = Some k' \<Longrightarrow> intr_handlers k' = intr_handlers k"
  by (cases "ready_list k"; cases "running_thread k = fst (next_thread_to_run k)")
    (auto simp: schedule_def Let_def panic_simps Option.bind_eq_Some_conv next_thread_to_run_def switch_threads_def
      dest!: tail_handlers)

lemma yield_handlers: "thread_yield k = Some (l, k') \<Longrightarrow> intr_handlers k' = intr_handlers k"
  by (cases "cur k = idle_thread k") (auto simp: thread_yield_def Let_def panic_simps Option.bind_eq_Some_conv upd_thread_def thread_current_def running_thread_def dest!: schedule_handlers)

lemma timer_yield:
  assumes inv: "timer_inv s" and ext: "\<not> in_external_intr s"
  obtains s3 where "thread_yield s = Some (level s, s3)" "timer_inv s3" "\<not> in_external_intr s3" "ticks s3 = ticks s"
    "sleeping_threads s3 = sleeping_threads s" "sleep_time (threads s3) = sleep_time (threads s)"
    "intr_handlers s3 = intr_handlers s" "\<forall>t. st s3 t = Some THREAD_BLOCKED \<longrightarrow> st s t = Some THREAD_BLOCKED"
    "\<forall>t. st s t = Some THREAD_READY \<longrightarrow> st s3 t = Some THREAD_READY \<or> st s3 t = Some THREAD_RUNNING"
proof -
  note i = timer_invD(1) [OF inv]
  obtain s3 where s3: "thread_yield s = Some (level s, s3)" "sched_inv s3" "level s3 = INTR_OFF"
    "cur s3 = (if queue_with_cur s = [] then idle_thread s else hd (queue_with_cur s))"
    "ready_list s3 = tl (queue_with_cur s)" "idle_thread s3 = idle_thread s" "\<not> in_external_intr s3"
    "kernel.more s3 = kernel.more s" "core s3 = core s"
    "\<forall>t. st s3 t = (if t = cur s3 then Some THREAD_RUNNING else if t = cur s then Some THREAD_READY else st s t)"
    by (rule thread_yield_inv [OF i ext])
  have nb: "cur s3 = idle_thread s \<or> st s (cur s3) \<noteq> Some THREAD_BLOCKED"
  proof (cases "queue_with_cur s")
    case (Cons q qs)
    then have "cur s3 \<in> set (ready_list s) \<or> cur s3 = cur s"
      using s3(4) by (cases "ready_list s") (auto simp: queue_with_cur_def split: if_splits)
    then show ?thesis using sched_wfD(8) [OF sched_inv_cur(4) [OF i], of "cur s3"] sched_inv_cur(1) [OF i] by auto
  qed (use s3(4) in simp)
  have "st s3 t = Some THREAD_BLOCKED \<and> t \<noteq> idle_thread s3" if "t \<in> set (sleeping_threads s3)" for t
  proof -
    have "t \<in> set (sleeping_threads s)" using that more_timer [OF s3(8)] by simp
    then have "st s t = Some THREAD_BLOCKED" "t \<noteq> idle_thread s" using timer_invD(3,4) [OF inv] by auto
    moreover from this have "t \<noteq> cur s3" "t \<noteq> cur s" using nb sched_inv_cur(1) [OF i] by auto
    ultimately show ?thesis using s3(6,10) by simp
  qed
  then have "timer_inv s3"
    using s3(2) timer_invD(2,5) [OF inv] more_timer [OF s3(8)] comparator_cong [OF sleep_time_core [OF s3(9)]]
    by (simp add: timer_inv_def)
  with s3(1) show thesis
    by (rule that) (use s3(7,10) more_timer [OF s3(8)] sleep_time_core [OF s3(9)] yield_handlers [OF s3(1)] in auto)
qed

text \<open>The interrupt with its entry and exit code, which may switch to another thread.\<close>

lemma timer_irq_correct:
  assumes inv: "timer_inv s" and ext: "\<not> in_external_intr s" and h: "intr_handlers s 0x20 \<noteq> 0"
  shows "\<exists>b s'. intr_handler (\<lambda>_. timer_interrupt) 0x20 (s\<lparr>level := INTR_OFF\<rparr>) = Some (b, s') \<and> timer_inv s'
     \<and> ticks s' = ticks s + 1 \<and> \<not> in_external_intr s' \<and> intr_handlers s' 0x20 \<noteq> 0
     \<and> sleep_time (threads s') = sleep_time (threads s)
     \<and> sleeping_threads s' = filter (\<lambda>t. ticks s + 1 < sleep_time (threads s) t) (sleeping_threads s)
     \<and> (\<forall>t. st s' t = Some THREAD_BLOCKED \<longrightarrow> st s t = Some THREAD_BLOCKED)
     \<and> (\<forall>t. t \<in> set (sleeping_threads s) \<and> sleep_time (threads s) t \<le> ticks s + 1 \<longrightarrow>
           st s' t = Some THREAD_READY \<or> st s' t = Some THREAD_RUNNING)"
proof -
  define s0 where "s0 = s\<lparr>level := INTR_OFF, in_external_intr := True, yield_on_return := False\<rparr>"
  have f0: "threads s0 = threads s" "sleeping_threads s0 = sleeping_threads s" "ticks s0 = ticks s" "level s0 = INTR_OFF"
    "ready_list s0 = ready_list s" "idle_thread s0 = idle_thread s" "cur s0 = cur s" "in_external_intr s0"
    "intr_handlers s0 = intr_handlers s" by (simp_all add: s0_def)
  have st0: "st s0 = st s" "core s0 = core s" by (simp_all add: st_def core_def fun_eq_iff f0)
  have "sched_inv s0" using timer_invD(1) [OF inv] by (subst sched_inv_cong [of _ s]) (simp_all add: s0_def)
  then have i0: "timer_inv s0" using inv f0 st0 by (simp add: timer_inv_def)
  obtain s1 where s1: "timer_interrupt s0 = Some s1" "timer_inv s1" "ticks s1 = ticks s + 1"
    "sleeping_threads s1 = filter (\<lambda>t. ticks s + 1 < sleep_time (threads s) t) (sleeping_threads s)"
    "core s1 = core s" "idle_thread s1 = idle_thread s" "cur s1 = cur s" "level s1 = INTR_OFF" "in_external_intr s1"
    "intr_handlers s1 = intr_handlers s"
    "\<forall>t. st s1 t = (if t \<in> set (sleeping_threads s) \<and> sleep_time (threads s) t \<le> ticks s + 1 then Some THREAD_READY else st s t)"
    using timer_interrupt_correct [OF i0 f0(4,8)] f0 st0 by auto
  obtain l where l: "pic_end_of_interrupt 0x20 (s1\<lparr>in_external_intr := False\<rparr>) = Some (s1\<lparr>in_external_intr := False, port_log := l\<rparr>)"
    using pic_end_of_interrupt_eq [of "0x20" "s1\<lparr>in_external_intr := False\<rparr>"] by auto
  define s2 where "s2 = s1\<lparr>in_external_intr := False, port_log := l\<rparr>"
  have f2: "threads s2 = threads s1" "sleeping_threads s2 = sleeping_threads s1" "ticks s2 = ticks s1" "idle_thread s2 = idle_thread s1"
    "cur s2 = cur s1" "\<not> in_external_intr s2" "intr_handlers s2 = intr_handlers s1" "yield_on_return s2 = yield_on_return s1"
    by (simp_all add: s2_def)
  have st2: "st s2 = st s1" "core s2 = core s1" by (simp_all add: st_def core_def fun_eq_iff f2)
  have i2: "sched_inv s2" using timer_invD(1) [OF s1(2)] by (subst sched_inv_cong [of _ s1]) (simp_all add: s2_def)
  have t2: "timer_inv s2" using s1(2) i2 f2 st2 by (simp add: timer_inv_def)
  have sl: "sleep_time (threads s2) = sleep_time (threads s)" using sleep_time_core st2(2) s1(5) by metis
  have call: "intr_handler (\<lambda>_. timer_interrupt) 0x20 (s\<lparr>level := INTR_OFF\<rparr>)
      = (if yield_on_return s2 then do { (_, k) \<leftarrow> thread_yield s2; Some (True, k) } else Some (False, s2))"
    using h ext s1 l by (simp add: intr_handler_def intr_get_level_def intr_context_def s0_def [symmetric] s2_def [symmetric] f2(8) f0(9))
  show ?thesis
  proof (cases "yield_on_return s2")
    case False
    then show ?thesis using call t2 f2 s1 st2 sl h by (intro exI [of _ False] exI [of _ s2]) (auto split: if_splits)
  next
    case True
    obtain s3 where s3: "thread_yield s2 = Some (level s2, s3)" "timer_inv s3" "\<not> in_external_intr s3" "ticks s3 = ticks s2"
      "sleeping_threads s3 = sleeping_threads s2" "sleep_time (threads s3) = sleep_time (threads s2)"
      "intr_handlers s3 = intr_handlers s2" "\<forall>t. st s3 t = Some THREAD_BLOCKED \<longrightarrow> st s2 t = Some THREAD_BLOCKED"
      "\<forall>t. st s2 t = Some THREAD_READY \<longrightarrow> st s3 t = Some THREAD_READY \<or> st s3 t = Some THREAD_RUNNING"
      by (rule timer_yield [OF t2 f2(6)])
    have "st s3 t = Some THREAD_BLOCKED \<longrightarrow> st s t = Some THREAD_BLOCKED"
      "t \<in> set (sleeping_threads s) \<and> sleep_time (threads s) t \<le> ticks s + 1 \<longrightarrow>
         st s3 t = Some THREAD_READY \<or> st s3 t = Some THREAD_RUNNING" for t
      using s3(8,9) [THEN spec, of t] s1(11) [THEN spec, of t] st2(1) by (auto split: if_splits)
    then show ?thesis using call True s3(1-7) f2 s1(3,4,10) sl h by (intro exI [of _ True] exI [of _ s3]) simp
  qed
qed

text \<open>\<open>n\<close> timer interrupts in a row.\<close>

fun timer_irqs :: "nat \<Rightarrow> 'a timer_scheme \<Rightarrow> 'a timer_scheme option" where
  "timer_irqs 0 s = Some s"
| "timer_irqs (Suc n) s = do {
     (_, s) \<leftarrow> intr_handler (\<lambda>_. timer_interrupt) 0x20 (s\<lparr>level := INTR_OFF\<rparr>);
     timer_irqs n s }"

lemma timer_irqs_correct:
  assumes "timer_inv s" "\<not> in_external_intr s" "intr_handlers s 0x20 \<noteq> 0"
    and "t \<in> set (sleeping_threads s) \<and> ticks s < sleep_time (threads s) t
      \<or> st s t \<noteq> Some THREAD_BLOCKED \<and> sleep_time (threads s) t \<le> ticks s"
  shows "\<exists>s'. timer_irqs n s = Some s' \<and> timer_inv s' \<and> ticks s' = ticks s + int n
     \<and> (st s' t = Some THREAD_BLOCKED \<longleftrightarrow> ticks s + int n < sleep_time (threads s) t)"
  using assms
proof (induction n arbitrary: s)
  case 0
  then show ?case using timer_invD(3) [OF 0(1), of t] by auto
next
  case (Suc n)
  obtain b s1 where s1: "intr_handler (\<lambda>_. timer_interrupt) 0x20 (s\<lparr>level := INTR_OFF\<rparr>) = Some (b, s1)" "timer_inv s1"
     "ticks s1 = ticks s + 1" "\<not> in_external_intr s1" "intr_handlers s1 0x20 \<noteq> 0"
     "sleep_time (threads s1) = sleep_time (threads s)"
     "sleeping_threads s1 = filter (\<lambda>t. ticks s + 1 < sleep_time (threads s) t) (sleeping_threads s)"
     "\<forall>t. st s1 t = Some THREAD_BLOCKED \<longrightarrow> st s t = Some THREAD_BLOCKED"
     "\<forall>t. t \<in> set (sleeping_threads s) \<and> sleep_time (threads s) t \<le> ticks s + 1 \<longrightarrow>
           st s1 t = Some THREAD_READY \<or> st s1 t = Some THREAD_RUNNING"
    using timer_irq_correct [OF Suc.prems(1-3)] by blast
  have "t \<in> set (sleeping_threads s1) \<and> ticks s1 < sleep_time (threads s1) t
      \<or> st s1 t \<noteq> Some THREAD_BLOCKED \<and> sleep_time (threads s1) t \<le> ticks s1"
    using Suc.prems(4) s1(8,9) [THEN spec, of t] unfolding s1(3,6,7) by auto
  from Suc.IH [OF s1(2,4,5) this] show ?case using s1(1,3,6) by (auto simp: algebra_simps)
qed

lemma timer_sleep_correct:
  assumes inv: "timer_inv s" and p: "level s = INTR_ON" "\<not> in_external_intr s" "cur s \<noteq> idle_thread s" "can_switch s"
  shows "\<exists>s'. timer_sleep n s = Some s' \<and> timer_inv s' \<and> \<not> in_external_intr s' \<and> ticks s' = ticks s
     \<and> intr_handlers s' = intr_handlers s \<and> cur s' = next_of s
     \<and> sleep_time (threads s') = (sleep_time (threads s))(cur s := to_int32 (ticks s + n))
     \<and> set (sleeping_threads s') = insert (cur s) (set (sleeping_threads s))"
proof -
  note c = sched_inv_cur [OF timer_invD(1) [OF inv]]
  obtain ch where ch: "threads s (cur s) = Some ch" using c(1) by (auto simp: st_def)
  define s1 where "s1 = upd_thread (cur s) (\<lambda>th. th\<lparr>thread_sleep_time := to_int32 (ticks s + n)\<rparr>) s"
  define l where "l = insert_ordered (thread_sleep_time_comparator (threads s1)) (cur s) (sleeping_threads s)"
  define s2 where "s2 = s1\<lparr>level := INTR_OFF, sleeping_threads := l\<rparr>"
  have i1: "sched_inv s1" "st s1 = st s" using timer_invD(1) [OF inv] by (simp_all add: s1_def sched_inv_sleep_time)
  have f: "cur s2 = cur s" "idle_thread s2 = idle_thread s" "level s2 = INTR_OFF" "\<not> in_external_intr s2" "ticks s2 = ticks s"
    "sleeping_threads s2 = l" "intr_handlers s2 = intr_handlers s" "threads s2 = threads s1" "ready_list s2 = ready_list s"
    using p by (simp_all add: s2_def s1_def) (simp_all add: upd_thread_def)
  have i2: "sched_inv s2" "st s2 = st s" using i1 by (simp_all add: s2_def st_def fun_eq_iff sched_inv_cong [of s2 s1])
  have cs: "can_switch s2" and nx: "next_of s2 = next_of s"
    using p(4) f by (simp_all add: can_switch_def next_of_def next_thread_to_run_def split: list.split)
  have notin: "cur s \<notin> set (sleeping_threads s)" using timer_invD(3) [OF inv] c(1) by auto
  have sl: "sleep_time (threads s1) = (sleep_time (threads s))(cur s := to_int32 (ticks s + n))"
    using ch by (auto simp: sleep_time_def s1_def fun_eq_iff)
  have "sorted_wrt (\<lambda>x y. \<not> thread_sleep_time_comparator (threads s1) y x) (sleeping_threads s)"
    using timer_invD(5) [OF inv] by (rule sorted_wrt_mono_rel [rotated])
      (use notin sl in \<open>auto simp: thread_sleep_time_comparator_def\<close>)
  then have sorted: "sorted_wrt (\<lambda>x y. \<not> thread_sleep_time_comparator (threads s1) y x) l"
    unfolding l_def by (rule sleep_order.insert_ordered_sorted)
  obtain s3 where s3: "thread_block s2 = Some s3" "sched_inv s3" "cur s3 = next_of s2" "level s3 = INTR_OFF"
    "ready_list s3 = tl (ready_list s2)" "idle_thread s3 = idle_thread s2" "\<not> in_external_intr s3"
    "kernel.more s3 = kernel.more s2" "core s3 = core s2"
    "\<forall>t. st s3 t = (if t = next_of s2 then Some THREAD_RUNNING else if t = cur s2 then Some THREAD_BLOCKED else st s2 t)"
    by (rule thread_block_inv [OF i2(1) f(3,4) cs])
  obtain ns where ns: "st s (next_of s) = Some ns" "ns = THREAD_READY \<or> next_of s = idle_thread s"
    by (rule next_of_thread [OF c(4) p(4)])
  have "st s3 t = Some THREAD_BLOCKED \<and> t \<noteq> idle_thread s3" if "t \<in> set l" for t
    using that ns p(3) c(1) timer_invD(3,4) [OF inv, of t] s3(6,10) f i2(2) nx by (auto simp: l_def)
  moreover have "distinct l" using notin timer_invD(2) [OF inv] by (simp add: l_def)
  ultimately have "timer_inv s3"
    using s3(2) sorted more_timer [OF s3(8)] f comparator_cong [OF sleep_time_core [OF s3(9)]] by (simp add: timer_inv_def)
  moreover have "timer_sleep n s = Some s3"
    using p timer_invD(1) [OF inv] s3(1) by (simp add: timer_sleep_def timer_ticks_def intr_get_level_def s1_def [symmetric] Let_def)
      (simp add: s2_def l_def s1_def upd_thread_def)
  moreover have "intr_handlers s3 = intr_handlers s2"
    using s3(1) by (auto simp: thread_block_def panic_simps Option.bind_eq_Some_conv upd_thread_def dest!: schedule_handlers)
  ultimately show ?thesis
    using s3(3,7) more_timer [OF s3(8)] f sl sleep_time_core [OF s3(9)] nx by (intro exI [of _ s3]) (simp add: l_def)
qed

section \<open>Properties\<close>

text \<open>C27: A thread that calls \<^verbatim>\<open>timer_sleep\<close> for \<open>n\<close> ticks is blocked through exactly the next
  \<open>n - 1\<close> timer interrupts and is made ready by the \<open>n\<close>-th one, whatever other threads sleep; the
  list of sleeping threads stays in order and consistent with the scheduler. This holds as long as
  the wake-up tick fits the \<^verbatim>\<open>int\<close> it is stored in.\<close>

theorem timer_sleep_exact:
  assumes "timer_inv s" "level s = INTR_ON" "\<not> in_external_intr s" "cur s \<noteq> idle_thread s" "can_switch s"
    and "intr_handlers s 0x20 \<noteq> 0" and n: "0 < n" "0 \<le> ticks s" "ticks s + n < 2 ^ 31"
  shows "\<exists>s1. timer_sleep n s = Some s1 \<and> timer_inv s1 \<and>
    (\<forall>m. \<exists>s2. timer_irqs m s1 = Some s2 \<and> timer_inv s2 \<and> (st s2 (cur s) = Some THREAD_BLOCKED \<longleftrightarrow> int m < n))"
proof -
  obtain s1 where s1: "timer_sleep n s = Some s1" "timer_inv s1" "\<not> in_external_intr s1" "ticks s1 = ticks s"
     "intr_handlers s1 = intr_handlers s" "sleep_time (threads s1) = (sleep_time (threads s))(cur s := to_int32 (ticks s + n))"
     "set (sleeping_threads s1) = insert (cur s) (set (sleeping_threads s))"
    using timer_sleep_correct [OF assms(1-5)] by blast
  have "to_int32 (ticks s + n) = ticks s + n" using n by (simp add: to_int32_def)
  then show ?thesis
    using s1 assms(6) n(1) timer_irqs_correct [OF s1(2,3), of "cur s"]
    by (intro exI [of _ s1]) (simp, blast)
qed

text \<open>C28: One timer interrupt makes ready exactly the sleeping threads whose time has come, in the
  order of their wake-up times at the end of the run queue, and leaves the others asleep.\<close>

theorem timer_interrupt_wakes:
  assumes "timer_inv s" "level s = INTR_OFF" "in_external_intr s"
  defines "woken \<equiv> filter (\<lambda>t. sleep_time (threads s) t \<le> ticks s + 1) (sleeping_threads s)"
  shows "\<exists>s'. timer_interrupt s = Some s' \<and> timer_inv s'
     \<and> sleeping_threads s' = filter (\<lambda>t. ticks s + 1 < sleep_time (threads s) t) (sleeping_threads s)
     \<and> ready_list s' = ready_list s @ woken \<and> sorted (map (sleep_time (threads s)) woken)
     \<and> (\<forall>t. st s' t = (if t \<in> set woken then Some THREAD_READY else st s t))"
proof -
  have "sorted_wrt (\<lambda>x y. \<not> thread_sleep_time_comparator (threads s) y x) woken"
    unfolding woken_def by (rule sorted_wrt_filter [OF timer_invD(5) [OF assms(1)]])
  then have "sorted (map (sleep_time (threads s)) woken)"
    by (simp add: sorted_map thread_sleep_time_comparator_def not_less)
  then show ?thesis using timer_interrupt_correct [OF assms(1-3)] unfolding woken_def by blast
qed

text \<open>\<^verbatim>\<open>pit_configure_channel\<close> loads a 16-bit counter, low byte first, with the interrupt level
  restored. For frequencies the chip can divide down to, the count is the clock rate divided by the
  frequency rounded to the nearest integer.\<close>

theorem pit_configure_channel_correct:
  assumes "channel = 0 \<or> channel = 2" "mode = 2 \<or> mode = 3" "\<not> in_external_intr s"
  shows "\<exists>c. pit_configure_channel channel mode f s = Some (s\<lparr>port_log := port_log s @
       [(0x43, or (or (channel * 64) 0x30) (mode * 2)), (0x40 + channel, c mod 256), (0x40 + channel, c div 256)]\<rparr>)
     \<and> c < 2 ^ 16 \<and> c = pit_count f
     \<and> (19 \<le> f \<and> f \<le> PIT_HZ \<longrightarrow> 2 * \<bar>int c * f - PIT_HZ\<bar> \<le> f)"
proof -
  have q: "2 * \<bar>int (pit_count f) * f - PIT_HZ\<bar> \<le> f" if f: "19 \<le> f" "f \<le> PIT_HZ"
  proof -
    let ?n = "PIT_HZ + f div 2"
    have d: "?n div f * f + ?n mod f = ?n" "0 \<le> ?n mod f" "?n mod f < f" using f by simp_all
    have "?n div f < 2 ^ 16"
    proof (rule ccontr)
      assume "\<not> ?n div f < 2 ^ 16"
      then have "2 ^ 16 * f \<le> ?n div f * f" using f by (intro mult_right_mono) auto
      moreover have "2 * (f div 2) \<le> f" by simp
      moreover have "False" if "2 ^ 16 * f \<le> x" "x + r = PIT_HZ + h" "0 \<le> r" "2 * h \<le> f" for x r h
        using that f(1) by (simp add: PIT_HZ_def)
      ultimately show False using d(1,2) by blast
    qed
    moreover have "0 \<le> ?n div f" using f by (simp add: PIT_HZ_def pos_imp_zdiv_nonneg_iff)
    ultimately have "int (pit_count f) = ?n div f" using f by (simp add: pit_count_def)
    moreover have "2 * (f div 2) \<le> f" "f \<le> 2 * (f div 2) + 1" by simp_all
    moreover have "2 * \<bar>x - P\<bar> \<le> f" if "x + r = P + h" "0 \<le> r" "r < f" "2 * h \<le> f" "f \<le> 2 * h + 1" for x r P h
      using that by (cases "P \<le> x") simp_all
    ultimately show ?thesis using d by metis
  qed
  have "pit_count f < 2 ^ 16" by (simp add: pit_count_def nat_less_iff)
  then show ?thesis using assms q
    by (intro exI [of _ "pit_count f"]) (auto simp: pit_configure_channel_def outb_def PIT_PORT_CONTROL_def PIT_PORT_COUNTER_def Let_def)
qed

text \<open>The calibration loops end because the tested value doubles, and then because the test bit is
  halved.\<close>

lemma calibrate_double_correct:
  assumes "\<And>l. too_many l \<longleftrightarrow> cap < l" "cap < 2 ^ 31"
  shows "2 ^ k \<le> cap \<Longrightarrow> \<exists>e. calibrate_double too_many (2 ^ k) = Some (2 ^ e) \<and> k \<le> e \<and> 2 ^ e \<le> cap \<and> cap < 2 ^ (e + 1)"
proof (induction "31 - k" arbitrary: k)
  case 0
  then have "(2 :: nat) ^ 31 \<le> 2 ^ k" by (intro power_increasing) auto
  then show ?case using 0 assms(2) by linarith
next
  case (Suc n)
  then have k: "k < 31" by simp
  have "(2 :: nat) ^ k * 2 < 2 ^ 32"
    using k power_strict_increasing [of "Suc k" 32 "2 :: nat"] by (simp add: mult.commute)
  then have eq: "(2 :: nat) ^ k * 2 mod 2 ^ 32 = 2 ^ (k + 1)" by simp
  show ?case
  proof (cases "cap < 2 ^ (k + 1)")
    case True
    then have "calibrate_double too_many (2 ^ k) = Some (2 ^ k)"
      by (subst calibrate_double.simps) (simp only: eq assms(1) simp_thms if_False)
    then show ?thesis using Suc.prems True by blast
  next
    case False
    then have step: "calibrate_double too_many (2 ^ k) = calibrate_double too_many (2 ^ (k + 1))"
      by (subst calibrate_double.simps) (simp only: eq assms(1) simp_thms if_True Let_def, simp)
    have n: "n = 31 - (k + 1)" using Suc(2) by simp
    show ?thesis using Suc.hyps(1) [OF n] False unfolding step by (meson Suc_leD Suc_eq_plus1 not_le_imp_less order.trans le_add1)
  qed
qed

lemma or_add_bit: "2 ^ (j + 1) dvd (l :: nat) \<Longrightarrow> or l (2 ^ j) = l + 2 ^ j"
proof -
  assume "2 ^ (j + 1) dvd l"
  then obtain c where "l = 2 ^ (j + 1) * c" by blast
  then have "l div 2 ^ j = 2 * c" by simp
  then have "\<not> bit l j" by (simp add: bit_iff_odd)
  then have "and l (2 ^ j) = 0" by (simp add: and_exp_eq_0_iff_not_bit)
  then show ?thesis using disjunctive_add_eq_or [of l "2 ^ j"] by simp
qed

lemma calibrate_refine_correct:
  assumes "\<And>l. too_many l \<longleftrightarrow> cap < l" "10 \<le> e"
  shows "e - 10 \<le> j \<Longrightarrow> 2 ^ (j + 1) dvd l \<Longrightarrow> l \<le> cap \<Longrightarrow> cap < l + 2 ^ (j + 1) \<Longrightarrow>
    \<exists>r. calibrate_refine too_many (2 ^ e) (2 ^ j) l = Some r \<and> r \<le> cap \<and> cap < r + 2 ^ (e - 9)"
proof (induction "j - (e - 10)" arbitrary: j l)
  case 0
  then have j: "j = e - 10" by simp
  have "(2 :: nat) ^ e div 2 ^ 10 = 2 ^ (e - 10)" using assms(2) by (simp add: power_diff)
  then have "calibrate_refine too_many (2 ^ e) (2 ^ j) l = Some l"
    by (subst calibrate_refine.simps) (simp only: j simp_thms if_False)
  moreover have "e - 9 = j + 1" using j assms(2) by simp
  ultimately show ?case using 0 by simp
next
  case (Suc n)
  then have j: "e - 10 < j" by simp
  have hi: "(2 :: nat) ^ e div 2 ^ 10 = 2 ^ (e - 10)" using assms(2) by (simp add: power_diff)
  have ne: "(2 :: nat) ^ j \<noteq> 2 ^ (e - 10)" using j by simp
  have lo: "(2 :: nat) ^ j div 2 = 2 ^ (j - 1)" using j by (cases j) simp_all
  define l' where "l' = (if cap < l + 2 ^ j then l else l + 2 ^ j)"
  have "calibrate_refine too_many (2 ^ e) (2 ^ j) l = calibrate_refine too_many (2 ^ e) (2 ^ (j - 1)) l'"
    using or_add_bit [OF Suc.prems(2)] ne
    by (subst calibrate_refine.simps, unfold hi lo) (simp add: assms(1) l'_def)
  moreover have "2 ^ (j - 1 + 1) dvd l'"
  proof -
    have "(2 :: nat) ^ j dvd l" using Suc.prems(2) by (rule dvd_trans [rotated]) simp
    then show ?thesis using j by (auto simp: l'_def)
  qed
  moreover have "l' \<le> cap" "cap < l' + 2 ^ (j - 1 + 1)" using Suc.prems(3,4) j by (auto simp: l'_def)
  moreover have "n = j - 1 - (e - 10)" "e - 10 \<le> j - 1" using Suc(2) j by simp_all
  ultimately show ?case using Suc.hyps(1) [of "j - 1" l'] by simp
qed

text \<open>C29: \<^verbatim>\<open>timer_calibrate\<close> ends. If a loop of \<open>cap\<close> iterations is the longest that fits in a tick,
  the calibrated value is at most \<open>cap\<close> and misses it by less than \<open>2 ^ (e - 9)\<close>, where \<open>2 ^ e\<close> is the
  leading bit of \<open>cap\<close>.\<close>

theorem timer_calibrate_correct:
  assumes "level s = INTR_ON" "\<forall>l. tick_after l \<noteq> 0 \<longleftrightarrow> cap < l" "2 ^ 10 \<le> cap" "cap < 2 ^ 31"
  shows "\<exists>r e. timer_calibrate tick_after s = Some (s\<lparr>loops_per_tick := r\<rparr>) \<and> r \<le> cap \<and> cap < r + 2 ^ (e - 9)
    \<and> 2 ^ e \<le> cap \<and> cap < 2 ^ (e + 1)"
proof -
  have tm: "too_many_loops tick_after l s \<longleftrightarrow> cap < l" for l
    using assms(2) by (simp add: too_many_loops_def busy_wait_def Let_def)
  obtain e where e: "calibrate_double (\<lambda>l. too_many_loops tick_after l s) (2 ^ 10) = Some (2 ^ e)" "10 \<le> e"
      "2 ^ e \<le> cap" "cap < 2 ^ (e + 1)"
    using calibrate_double_correct [OF tm assms(4,3)] by blast
  have h: "(2 :: nat) ^ e div 2 = 2 ^ (e - 1)" and e1: "e - 1 + 1 = e" using e(2) by (cases e; simp)+
  have "e - 10 \<le> e - 1" by simp
  then obtain r where "calibrate_refine (\<lambda>l. too_many_loops tick_after l s) (2 ^ e) (2 ^ (e - 1)) (2 ^ e) = Some r" "r \<le> cap"
      "cap < r + 2 ^ (e - 9)"
    using calibrate_refine_correct [OF tm e(2), of "e - 1" "2 ^ e"] e(2-4) e1 by auto
  then show ?thesis using e assms(1) h
    by (intro exI [of _ r] exI [of _ e]) (simp add: timer_calibrate_def intr_get_level_def Let_def)
qed

section \<open>Examples\<close>

definition demo_timer :: "kernel \<Rightarrow> timer" where
  "demo_timer k = sync.extend (kernel.extend (k\<lparr>level := INTR_ON\<rparr>) (sync.fields (\<lambda>_. \<lparr>value = 0, waiters = []\<rparr>) (\<lambda>_. 0) (\<lambda>_. [])))
     (timer.fields 5 100 0 [])"

lemmas demo_timer_defs = demo_timer_def sync.defs kernel.defs timer.defs

lemma demo_timer_fields: "ticks (demo_timer k) = 5" "sleeping_threads (demo_timer k) = []" "level (demo_timer k) = INTR_ON"
  "cur (demo_timer k) = cur k" "idle_thread (demo_timer k) = idle_thread k" "ready_list (demo_timer k) = ready_list k"
  "in_external_intr (demo_timer k) = in_external_intr k" "intr_handlers (demo_timer k) = intr_handlers k"
  by (simp_all add: demo_timer_defs)

lemma demo_timer_inv: "sched_inv k \<Longrightarrow> timer_inv (demo_timer k)"
proof -
  assume "sched_inv k"
  then have "sched_inv (demo_timer k)" by (subst sched_inv_cong [of _ k]) (simp_all add: demo_timer_defs)
  then show ?thesis by (simp add: timer_inv_def demo_timer_fields)
qed

lemma demo_sleeper:
  obtains k :: kernel where "sched_inv k" "\<not> in_external_intr k" "cur k \<noteq> idle_thread k" "can_switch k" "intr_handlers k 0x20 \<noteq> 0"
proof -
  obtain t k where k: "sched_reach 1 2 k" "ready_list k = [t]" "intr_handlers k 0x20 \<noteq> 0"
      "thread_create 1 2 ''a.out x'' PRI_DEFAULT 3 4 demo_main = Some (2, k)"
    using demo_create by metis
  have inv: "sched_inv k" "\<not> in_external_intr k" using sched_reach_inv [OF k(1)] by simp_all
  obtain k' where k': "thread_yield k = Some (level k, k')" "sched_inv k'" "level k' = INTR_OFF"
    "cur k' = (if queue_with_cur k = [] then idle_thread k else hd (queue_with_cur k))"
    "ready_list k' = tl (queue_with_cur k)" "idle_thread k' = idle_thread k" "\<not> in_external_intr k'"
    "kernel.more k' = kernel.more k" "core k' = core k"
    "\<forall>t. st k' t = (if t = cur k' then Some THREAD_RUNNING else if t = cur k then Some THREAD_READY else st k t)"
    by (rule thread_yield_inv [OF inv])
  have "t \<noteq> idle_thread k" "cur k' = t"
    using sched_wfD(8) [OF sched_inv_cur(4) [OF inv(1)], of t] k(2) k'(4) by (auto simp: queue_with_cur_def)
  moreover have "idle_thread k = cur k \<or> ready_list k' = [cur k]"
    using k'(5) k(2) by (auto simp: queue_with_cur_def)
  moreover have "cur k \<noteq> 0" using inv(1) sched_inv_cur(1,4) [OF inv(1)] by (auto simp: thread_ok_def elim: sched_thread)
  ultimately show thesis using that [of k'] k'(2,6,7) k(3) yield_handlers [OF k'(1)] by (auto simp: can_switch_def)
qed

theorem timer_sleep_exact_witness:
  "\<exists>(s :: timer) s1 s2. timer_sleep 3 s = Some s1 \<and> timer_irqs 2 s1 = Some s2 \<and> st s2 (cur s) = Some THREAD_BLOCKED"
proof -
  obtain k :: kernel where k: "sched_inv k" "\<not> in_external_intr k" "cur k \<noteq> idle_thread k" "can_switch k" "intr_handlers k 0x20 \<noteq> 0"
    by (rule demo_sleeper)
  obtain s1 where s1: "timer_sleep 3 (demo_timer k) = Some s1"
    "\<forall>m. \<exists>s2. timer_irqs m s1 = Some s2 \<and> timer_inv s2 \<and> (st s2 (cur (demo_timer k)) = Some THREAD_BLOCKED \<longleftrightarrow> int m < 3)"
    using timer_sleep_exact [OF demo_timer_inv [OF k(1)], of 3] k by (auto simp: demo_timer_fields can_switch_def)
  obtain s2 where "timer_irqs 2 s1 = Some s2" "st s2 (cur (demo_timer k)) = Some THREAD_BLOCKED"
    using s1(2) [THEN spec, of 2] by auto
  then show ?thesis using s1(1) by blast
qed

theorem timer_interrupt_wakes_witness:
  "\<exists>s' :: timer. timer_interrupt ((demo_timer demo_main)\<lparr>level := INTR_OFF, in_external_intr := True\<rparr>) = Some s' \<and> sleeping_threads s' = []"
proof -
  let ?s = "(demo_timer demo_main)\<lparr>level := INTR_OFF, in_external_intr := True\<rparr>"
  have "sched_inv ?s"
    using sched_reach_inv [OF demo_main_reach] by (subst sched_inv_cong [of _ demo_main]) (simp_all add: demo_timer_defs)
  then have "timer_inv ?s" by (simp add: timer_inv_def demo_timer_fields)
  from timer_interrupt_wakes [OF this] show ?thesis by (auto simp: demo_timer_fields)
qed

theorem pit_configure_channel_correct_witness:
  "pit_configure_channel 0 2 100 demo_intr = Some (demo_intr\<lparr>port_log := [(0x43, 0x34), (0x40, 156), (0x40, 46)]\<rparr>)"
  using pit_configure_channel_correct [of 0 2 demo_intr 100]
  by (simp add: demo_intr_def intr.defs mmu.defs pit_count_def PIT_HZ_def)

theorem timer_calibrate_correct_witness:
  "\<exists>r. timer_calibrate (\<lambda>n. int (n div 3000)) (demo_timer demo_main) = Some ((demo_timer demo_main)\<lparr>loops_per_tick := r\<rparr>)
     \<and> r \<le> 2999 \<and> 2999 < r + 4"
proof -
  have "\<forall>l. int (l div 3000) \<noteq> 0 \<longleftrightarrow> 2999 < l" by auto
  then obtain r e where r: "timer_calibrate (\<lambda>n. int (n div 3000)) (demo_timer demo_main) = Some ((demo_timer demo_main)\<lparr>loops_per_tick := r\<rparr>)"
    "r \<le> 2999" "2999 < r + 2 ^ (e - 9)" "2 ^ e \<le> (2999 :: nat)" "2999 < (2 :: nat) ^ (e + 1)"
    using timer_calibrate_correct [of "demo_timer demo_main" "\<lambda>n. int (n div 3000)" 2999] by (auto simp: demo_timer_fields)
  have "e < 12" using r(4) power_increasing [of 12 e "2 :: nat"] by (cases "12 \<le> e") auto
  then have "(2 :: nat) ^ (e - 9) \<le> 2 ^ 2" by (intro power_increasing) auto
  then show ?thesis using r by auto
qed

end
