(* ===== verification/Ctype.thy ===== *)
theory Ctype
  imports Prelude
begin

text \<open>
  Character classification (\<^verbatim>\<open>lib/ctype.h\<close>). The argument is an \<^verbatim>\<open>int\<close>; character constants are
  written with their ASCII codes.
\<close>

definition islower :: "int \<Rightarrow> bool" where "islower c \<longleftrightarrow> c \<ge> 97 \<and> c \<le> 122"
definition isupper :: "int \<Rightarrow> bool" where "isupper c \<longleftrightarrow> c \<ge> 65 \<and> c \<le> 90"
definition isalpha :: "int \<Rightarrow> bool" where "isalpha c \<longleftrightarrow> islower c \<or> isupper c"
definition isdigit :: "int \<Rightarrow> bool" where "isdigit c \<longleftrightarrow> c \<ge> 48 \<and> c \<le> 57"
definition isalnum :: "int \<Rightarrow> bool" where "isalnum c \<longleftrightarrow> isalpha c \<or> isdigit c"
definition isxdigit :: "int \<Rightarrow> bool" where
  "isxdigit c \<longleftrightarrow> isdigit c \<or> (c \<ge> 97 \<and> c \<le> 102) \<or> (c \<ge> 65 \<and> c \<le> 70)"
definition isspace :: "int \<Rightarrow> bool" where
  "isspace c \<longleftrightarrow> c = 32 \<or> c = 12 \<or> c = 10 \<or> c = 13 \<or> c = 9 \<or> c = 11"
definition isblank :: "int \<Rightarrow> bool" where "isblank c \<longleftrightarrow> c = 32 \<or> c = 9"
definition isgraph :: "int \<Rightarrow> bool" where "isgraph c \<longleftrightarrow> c > 32 \<and> c < 127"
definition isprint :: "int \<Rightarrow> bool" where "isprint c \<longleftrightarrow> c \<ge> 32 \<and> c < 127"
definition iscntrl :: "int \<Rightarrow> bool" where "iscntrl c \<longleftrightarrow> (c \<ge> 0 \<and> c < 32) \<or> c = 127"
definition isascii :: "int \<Rightarrow> bool" where "isascii c \<longleftrightarrow> c \<ge> 0 \<and> c < 128"
definition ispunct :: "int \<Rightarrow> bool" where "ispunct c \<longleftrightarrow> isprint c \<and> \<not> isalnum c \<and> \<not> isspace c"

definition tolower :: "int \<Rightarrow> int" where "tolower c = (if isupper c then c - 65 + 97 else c)"
definition toupper :: "int \<Rightarrow> int" where "toupper c = (if islower c then c - 97 + 65 else c)"

lemmas ctype_defs = islower_def isupper_def isalpha_def isdigit_def isalnum_def isxdigit_def isspace_def
  isblank_def isgraph_def isprint_def iscntrl_def isascii_def ispunct_def tolower_def toupper_def

text \<open>Every ASCII character is a control character or printable; the printable ones are the space,
  letters and digits, and punctuation.\<close>

lemma ascii_partition:
  "isascii c \<longleftrightarrow> iscntrl c \<or> isprint c" "\<not> (iscntrl c \<and> isprint c)"
  "isprint c \<longleftrightarrow> c = 32 \<or> isalnum c \<or> ispunct c" "isgraph c \<longleftrightarrow> isprint c \<and> c \<noteq> 32"
  by (auto simp: ctype_defs)

lemma case_roundtrip:
  "isupper c \<Longrightarrow> islower (tolower c) \<and> toupper (tolower c) = c"
  "islower c \<Longrightarrow> isupper (toupper c) \<and> tolower (toupper c) = c"
  "\<not> isalpha c \<Longrightarrow> tolower c = c \<and> toupper c = c"
  by (auto simp: ctype_defs)

end
