(* ===== verification/Console_Input.thy ===== *)
theory Console_Input
  imports Intq Timer Ctype
begin

text \<open>
  The devices characters come from and go to: the buffer of typed characters
  (\<^verbatim>\<open>devices/input.c\<close>), the serial port (\<^verbatim>\<open>devices/serial.c\<close>) and the keyboard
  (\<^verbatim>\<open>devices/kbd.c\<close>).

  What the hardware answers to a read of a port is input of the model: \<open>port_in s p\<close> is the
  sequence of bytes that the next reads of port \<open>p\<close> return. A driver that keeps polling a
  port forever has no result, like a read past the end of this sequence. Writes to ports are
  appended to \<open>port_log\<close>.
\<close>

datatype serial_mode = UNINIT | POLL | QUEUE

record devices = timer +
  port_in :: "nat \<Rightarrow> u8 list"
  input_buffer :: intq
  mode :: serial_mode
  txq :: intq
  left_shift :: bool
  right_shift :: bool
  left_alt :: bool
  right_alt :: bool
  left_ctrl :: bool
  right_ctrl :: bool
  caps_lock :: bool
  key_cnt :: int

definition inb :: "nat \<Rightarrow> 'a devices_scheme \<Rightarrow> (u8 \<times> 'a devices_scheme) option" where
  "inb port s = (case port_in s port of [] \<Rightarrow> None
     | b # bs \<Rightarrow> Some (b, s\<lparr>port_in := (port_in s)(port := bs)\<rparr>))"

section \<open>Registers of the serial port\<close>

definition RBR_REG :: nat where "RBR_REG = 0x3f8 + 0"
definition THR_REG :: nat where "THR_REG = 0x3f8 + 0"
definition IER_REG :: nat where "IER_REG = 0x3f8 + 1"
definition LS_REG :: nat where "LS_REG = 0x3f8 + 0"
definition MS_REG :: nat where "MS_REG = 0x3f8 + 1"
definition IIR_REG :: nat where "IIR_REG = 0x3f8 + 2"
definition FCR_REG :: nat where "FCR_REG = 0x3f8 + 2"
definition LCR_REG :: nat where "LCR_REG = 0x3f8 + 3"
definition MCR_REG :: nat where "MCR_REG = 0x3f8 + 4"
definition LSR_REG :: nat where "LSR_REG = 0x3f8 + 5"

definition IER_RECV :: nat where "IER_RECV = 0x01"
definition IER_XMIT :: nat where "IER_XMIT = 0x02"
definition LCR_N81 :: nat where "LCR_N81 = 0x03"
definition LCR_DLAB :: nat where "LCR_DLAB = 0x80"
definition MCR_OUT2 :: nat where "MCR_OUT2 = 0x08"
definition LSR_DR :: u8 where "LSR_DR = 0x01"
definition LSR_THRE :: u8 where "LSR_THRE = 0x20"

section \<open>Interrupt enable register\<close>

definition input_full :: "'a devices_scheme \<Rightarrow> bool option" where
  "input_full s = do { ASSERT (intr_get_level s = INTR_OFF); intq_full (input_buffer s) s }"

definition write_ier :: "'a devices_scheme \<Rightarrow> 'a devices_scheme option" where
  "write_ier s = do {
     ASSERT (intr_get_level s = INTR_OFF);
     e \<leftarrow> intq_empty (txq s) s;
     let ier = (if \<not> e then IER_XMIT else 0);
     f \<leftarrow> input_full s;
     let ier = (if \<not> f then or ier IER_RECV else ier);
     Some (outb IER_REG ier s)
   }"

definition serial_notify :: "'a devices_scheme \<Rightarrow> 'a devices_scheme option" where
  "serial_notify s = do {
     ASSERT (intr_get_level s = INTR_OFF);
     if mode s = QUEUE then write_ier s else Some s
   }"

section \<open>The input buffer\<close>

definition input_init :: "'a devices_scheme \<Rightarrow> 'a devices_scheme option" where
  "input_init s = do { (q, s) \<leftarrow> intq_init (input_buffer s) s; Some (s\<lparr>input_buffer := q\<rparr>) }"

definition input_putc :: "u8 \<Rightarrow> 'a devices_scheme \<Rightarrow> 'a devices_scheme option" where
  "input_putc key s = do {
     ASSERT (intr_get_level s = INTR_OFF);
     f \<leftarrow> intq_full (input_buffer s) s;
     ASSERT (\<not> f);
     (q, s) \<leftarrow> intq_putc key (input_buffer s) s;
     serial_notify (s\<lparr>input_buffer := q\<rparr>)
   }"

text \<open>The result is \<open>Finished key\<close>, or the caller has been blocked inside \<^verbatim>\<open>intq_getc\<close>.\<close>

definition input_getc :: "'a devices_scheme \<Rightarrow> (u8 outcome \<times> 'a devices_scheme) option" where
  "input_getc s = do {
     let (old_level, s) = intr_disable s;
     (r, q, s) \<leftarrow> intq_getc_iter (input_buffer s) s;
     let s = s\<lparr>input_buffer := q\<rparr>;
     case r of
       Finished key \<Rightarrow> do {
         s \<leftarrow> serial_notify s;
         (_, s) \<leftarrow> intr_set_level old_level s;
         Some (Finished key, s)
       }
     | _ \<Rightarrow> Some (r, s)
   }"

section \<open>The serial port\<close>

definition set_serial :: "int \<Rightarrow> 'a devices_scheme \<Rightarrow> 'a devices_scheme option" where
  "set_serial bps s = do {
     let base_rate = (1843200 sdiv 16 :: int);
     ASSERT (bps \<noteq> 0);
     let divisor = nat ((base_rate sdiv bps) mod 2 ^ 16);
     ASSERT (bps \<ge> 300 \<and> bps \<le> 115200);
     let s = outb LCR_REG (or LCR_N81 LCR_DLAB) s;
     let s = outb LS_REG (divisor mod 2 ^ 8) s;
     let s = outb MS_REG (divisor div 2 ^ 8) s;
     Some (outb LCR_REG LCR_N81 s)
   }"

definition init_poll :: "'a devices_scheme \<Rightarrow> 'a devices_scheme option" where
  "init_poll s = do {
     ASSERT (mode s = UNINIT);
     let s = outb IER_REG 0 s;
     let s = outb FCR_REG 0 s;
     s \<leftarrow> set_serial 9600 s;
     let s = outb MCR_REG MCR_OUT2 s;
     (q, s) \<leftarrow> intq_init (txq s) s;
     Some (s\<lparr>txq := q, mode := POLL\<rparr>)
   }"

definition serial_init_queue :: "(nat \<Rightarrow> u32) \<Rightarrow> nat \<Rightarrow> 'a devices_scheme \<Rightarrow> 'a devices_scheme option" where
  "serial_init_queue intr_stubs handler s = do {
     s \<leftarrow> (if mode s = UNINIT then init_poll s else Some s);
     ASSERT (mode s = POLL);
     s \<leftarrow> intr_register_ext intr_stubs (0x20 + 4) handler ''serial'' s;
     let (old_level, s) = intr_disable (s\<lparr>mode := QUEUE\<rparr>);
     s \<leftarrow> write_ier s;
     (_, s) \<leftarrow> intr_set_level old_level s;
     Some s
   }"

partial_function (option) poll_thre :: "'a devices_scheme \<Rightarrow> 'a devices_scheme option" where
  "poll_thre s = do {
     (b, s) \<leftarrow> inb LSR_REG s;
     if and b LSR_THRE = 0 then poll_thre s else Some s
   }"

definition putc_poll :: "u8 \<Rightarrow> 'a devices_scheme \<Rightarrow> 'a devices_scheme option" where
  "putc_poll byte s = do {
     ASSERT (intr_get_level s = INTR_OFF);
     s \<leftarrow> poll_thre s;
     Some (outb THR_REG (unat byte) s)
   }"

text \<open>\<^verbatim>\<open>serial_putc\<close> in queued mode: with interrupts off and a full queue the oldest byte is sent by
  polling; then the byte is queued, which may block the caller.\<close>

definition serial_make_room :: "intr_level \<Rightarrow> 'a devices_scheme \<Rightarrow> 'a devices_scheme option" where
  "serial_make_room old_level s = do {
     f \<leftarrow> intq_full (txq s) s;
     if old_level = INTR_OFF \<and> f then do {
       (b, q, s) \<leftarrow> intq_getc (txq s) s;
       putc_poll b (s\<lparr>txq := q\<rparr>)
     } else Some s
   }"

definition serial_queue_byte :: "u8 \<Rightarrow> 'a devices_scheme \<Rightarrow> (unit outcome \<times> 'a devices_scheme) option" where
  "serial_queue_byte byte s = do {
     (r, q, s) \<leftarrow> intq_putc_iter byte (txq s) s;
     let s = s\<lparr>txq := q\<rparr>;
     case r of Finished _ \<Rightarrow> do { s \<leftarrow> write_ier s; Some (r, s) } | _ \<Rightarrow> Some (r, s)
   }"

definition serial_putc :: "u8 \<Rightarrow> 'a devices_scheme \<Rightarrow> (unit outcome \<times> 'a devices_scheme) option" where
  "serial_putc byte s = do {
     let (old_level, s) = intr_disable s;
     (r, s) \<leftarrow> (if mode s \<noteq> QUEUE then do {
         s \<leftarrow> (if mode s = UNINIT then init_poll s else Some s);
         s \<leftarrow> putc_poll byte s;
         Some (Finished (), s)
       }
       else do {
         s \<leftarrow> serial_make_room old_level s;
         serial_queue_byte byte s
       });
     case r of Finished _ \<Rightarrow> do { (_, s) \<leftarrow> intr_set_level old_level s; Some (r, s) } | _ \<Rightarrow> Some (r, s)
   }"

partial_function (option) flush_loop :: "'a devices_scheme \<Rightarrow> 'a devices_scheme option" where
  "flush_loop s = do {
     e \<leftarrow> intq_empty (txq s) s;
     if \<not> e then do {
       (b, q, s) \<leftarrow> intq_getc (txq s) s;
       s \<leftarrow> putc_poll b (s\<lparr>txq := q\<rparr>);
       flush_loop s
     } else Some s
   }"

definition serial_flush :: "'a devices_scheme \<Rightarrow> 'a devices_scheme option" where
  "serial_flush s = do {
     let (old_level, s) = intr_disable s;
     s \<leftarrow> flush_loop s;
     (_, s) \<leftarrow> intr_set_level old_level s;
     Some s
   }"

partial_function (option) receive_loop :: "'a devices_scheme \<Rightarrow> 'a devices_scheme option" where
  "receive_loop s = do {
     f \<leftarrow> input_full s;
     if \<not> f then do {
       (l, s) \<leftarrow> inb LSR_REG s;
       if and l LSR_DR \<noteq> 0 then do {
         (b, s) \<leftarrow> inb RBR_REG s;
         s \<leftarrow> input_putc b s;
         receive_loop s
       } else Some s
     } else Some s
   }"

partial_function (option) transmit_loop :: "'a devices_scheme \<Rightarrow> 'a devices_scheme option" where
  "transmit_loop s = do {
     e \<leftarrow> intq_empty (txq s) s;
     if \<not> e then do {
       (l, s) \<leftarrow> inb LSR_REG s;
       if and l LSR_THRE \<noteq> 0 then do {
         (b, q, s) \<leftarrow> intq_getc (txq s) s;
         transmit_loop (outb THR_REG (unat b) (s\<lparr>txq := q\<rparr>))
       } else Some s
     } else Some s
   }"

definition serial_interrupt :: "'a devices_scheme \<Rightarrow> 'a devices_scheme option" where
  "serial_interrupt s = do {
     (_, s) \<leftarrow> inb IIR_REG s;
     s \<leftarrow> receive_loop s;
     s \<leftarrow> transmit_loop s;
     write_ier s
   }"

section \<open>The keyboard\<close>

definition DATA_REG :: nat where "DATA_REG = 0x60"

type_synonym keymap = "(nat \<times> u8 list) list"

definition chars :: "string \<Rightarrow> u8 list" where
  "chars s = map (\<lambda>c. word_of_nat (of_char c)) s"

definition invariant_keymap :: keymap where
  "invariant_keymap =
     [(0x01, [0x1b]), (0x0e, [0x08]), (0x0f, 0x09 # chars ''QWERTYUIOP''), (0x1c, [0x0d]), (0x1e, chars ''ASDFGHJKL''),
      (0x2c, chars ''ZXCVBNM''), (0x37, chars ''*''), (0x39, chars '' ''), (0x53, [0x7f]), (0, [])]"

definition unshifted_keymap :: keymap where
  "unshifted_keymap =
     [(0x02, chars ''1234567890-=''), (0x1a, chars ''[]''), (0x27, [0x3b, 0x27, 0x60]), (0x2b, [0x5c]), (0x33, chars '',./''), (0, [])]"

definition shifted_keymap :: keymap where
  "shifted_keymap =
     [(0x02, chars ''!@#$%^&*()_+''), (0x1a, [0x7b, 0x7d]), (0x27, [0x3a, 0x22, 0x7e]), (0x2b, [0x7c]), (0x33, chars ''<>?''), (0, [])]"

fun map_key :: "keymap \<Rightarrow> nat \<Rightarrow> u8 option" where
  "map_key [] scancode = None"
| "map_key ((first_scancode, cs) # k) scancode =
     (if first_scancode = 0 then None
      else if scancode \<ge> first_scancode \<and> scancode < first_scancode + length cs
      then Some (cs ! (scancode - first_scancode))
      else map_key k scancode)"

definition kbd_init :: "(nat \<Rightarrow> u32) \<Rightarrow> nat \<Rightarrow> 'a devices_scheme \<Rightarrow> 'a devices_scheme option" where
  "kbd_init intr_stubs handler s = intr_register_ext intr_stubs 0x21 handler ''8042 Keyboard'' s"

text \<open>A scancode has one byte, or two bytes if the first is \<open>0xe0\<close>. Bit 7 of the last byte tells
  whether the key was released.\<close>

definition read_scancode :: "'a devices_scheme \<Rightarrow> (nat \<times> bool \<times> 'a devices_scheme) option" where
  "read_scancode s = do {
     (b, s) \<leftarrow> inb DATA_REG s;
     (code, s) \<leftarrow> (if b = 0xe0 then do { (b2, s) \<leftarrow> inb DATA_REG s; Some (0xe0 * 2 ^ 8 + unat b2, s) }
       else Some (unat b, s));
     let release = odd (code div 0x80);
     Some (if release then code - 0x80 else code, release, s)
   }"

definition set_shift_key :: "nat \<Rightarrow> bool \<Rightarrow> 'a devices_scheme \<Rightarrow> 'a devices_scheme" where
  "set_shift_key code pressed s =
     (if code = 0x2a then s\<lparr>left_shift := pressed\<rparr>
      else if code = 0x36 then s\<lparr>right_shift := pressed\<rparr>
      else if code = 0x38 then s\<lparr>left_alt := pressed\<rparr>
      else if code = 0xe038 then s\<lparr>right_alt := pressed\<rparr>
      else if code = 0x1d then s\<lparr>left_ctrl := pressed\<rparr>
      else if code = 0xe01d then s\<lparr>right_ctrl := pressed\<rparr>
      else s)"

text \<open>The character of a key under the shift keys; arithmetic is on \<^verbatim>\<open>uint8_t\<close>.\<close>

definition key_char :: "u8 \<Rightarrow> bool \<Rightarrow> bool \<Rightarrow> bool \<Rightarrow> bool \<Rightarrow> u8" where
  "key_char c shift alt ctrl caps =
     (let c = (if ctrl \<and> c \<ge> 0x40 \<and> c < 0x60 then c - 0x40
               else if shift = caps then word_of_int (tolower (uint c)) else c)
      in if alt then c + 0x80 else c)"

text \<open>\<^verbatim>\<open>shutdown_reboot\<close> does not return.\<close>

definition keyboard_interrupt :: "'a devices_scheme \<Rightarrow> 'a devices_scheme option" where
  "keyboard_interrupt s = do {
     let shift = (left_shift s \<or> right_shift s);
     let alt = (left_alt s \<or> right_alt s);
     let ctrl = (left_ctrl s \<or> right_ctrl s);
     (code, release, s) \<leftarrow> read_scancode s;
     if code = 0x3a then Some (if \<not> release then s\<lparr>caps_lock := \<not> caps_lock s\<rparr> else s)
     else
       (case (case map_key invariant_keymap code of Some c \<Rightarrow> Some c
              | None \<Rightarrow> map_key (if shift then shifted_keymap else unshifted_keymap) code) of
          Some c \<Rightarrow>
            if release then Some s
            else do {
              ASSERT (\<not> (c = 0x7f \<and> ctrl \<and> alt));
              f \<leftarrow> input_full s;
              if \<not> f then input_putc (key_char c shift alt ctrl (caps_lock s)) (s\<lparr>key_cnt := key_cnt s + 1\<rparr>) else Some s
            }
        | None \<Rightarrow> Some (set_shift_key code (\<not> release) s))
   }"

section \<open>The stream of transmitted bytes\<close>

text \<open>What the port has been given to transmit.\<close>

definition sent :: "'a devices_scheme \<Rightarrow> nat list" where
  "sent s = map snd (filter (\<lambda>(p, b). p = THR_REG) (port_log s))"

text \<open>Both queues are consistent and no thread waits in both of them.\<close>

definition dev_ok :: "'a devices_scheme \<Rightarrow> bool" where
  "dev_ok s \<longleftrightarrow> intq_ok (input_buffer s, s) \<and> intq_ok (txq s, s) \<and>
     (\<forall>c d. waiter c (input_buffer s) = waiter d (txq s) \<longrightarrow> waiter c (input_buffer s) = 0)"

lemma more_devices:
  assumes "kernel.more s' = kernel.more s"
  shows "port_in s' = port_in s" "input_buffer s' = input_buffer s" "mode s' = mode s" "txq s' = txq s"
  using assms by (cases s; cases s'; simp)+

lemma intq_ok_cong:
  assumes "sched_inv s' = sched_inv s" "st s' = st s" "level s' = level s" "idle_thread s' = idle_thread s"
  shows "intq_ok (q, s') = intq_ok (q, s)"
  using assms by (simp add: intq_ok_def)

lemma sched_inv_devices [simp]:
  "sched_inv (s\<lparr>txq := x\<rparr>) = sched_inv s" "sched_inv (s\<lparr>input_buffer := x\<rparr>) = sched_inv s"
  "sched_inv (s\<lparr>port_in := i\<rparr>) = sched_inv s" "sched_inv (s\<lparr>port_log := l\<rparr>) = sched_inv s"
  by (rule sched_inv_cong; simp)+

lemma st_devices [simp]: "st (s\<lparr>txq := x\<rparr>) = st s" "st (s\<lparr>input_buffer := x\<rparr>) = st s" "st (s\<lparr>port_in := i\<rparr>) = st s"
  "st (s\<lparr>port_log := l\<rparr>) = st s"
  by (simp_all add: st_def fun_eq_iff)

lemma intq_ok_devices [simp]:
  "intq_ok (q, s\<lparr>txq := x\<rparr>) = intq_ok (q, s)" "intq_ok (q, s\<lparr>input_buffer := x\<rparr>) = intq_ok (q, s)"
  "intq_ok (q, s\<lparr>port_in := i\<rparr>) = intq_ok (q, s)" "intq_ok (q, s\<lparr>port_log := l\<rparr>) = intq_ok (q, s)"
  by (rule intq_ok_cong; simp)+

lemma dev_ok_ports [simp]: "dev_ok (s\<lparr>port_in := i\<rparr>) = dev_ok s" "dev_ok (s\<lparr>port_log := l\<rparr>) = dev_ok s"
  by (simp_all add: dev_ok_def)

lemma dev_okD:
  assumes "dev_ok s"
  shows "intq_ok (input_buffer s, s)" "intq_ok (txq s, s)" "level s = INTR_OFF" "intq_wf (txq s)" "intq_wf (input_buffer s)"
  using assms by (simp_all add: dev_ok_def intq_ok_def)

text \<open>Waking the waiting thread of one queue does not disturb the other queue.\<close>

lemma other_queue:
  assumes "intq_ok (q, s)" "sched_inv s'" "woke w s s'" "\<forall>c. waiter c q = w \<longrightarrow> w = 0"
  shows "intq_ok (q, s')"
  using assms by (auto simp: intq_ok_def woke_def)

lemma tx_get:
  assumes ok: "dev_ok s" and c: "intq_contents (txq s) = b # bs"
  shows "\<exists>q s1. intq_getc (txq s) s = Some (b, q, s1) \<and> dev_ok (s1\<lparr>txq := q\<rparr>) \<and> intq_contents q = bs
    \<and> port_in s1 = port_in s \<and> port_log s1 = port_log s \<and> mode s1 = mode s \<and> input_buffer s1 = input_buffer s
    \<and> level s1 = INTR_OFF \<and> in_external_intr s1 = in_external_intr s"
proof -
  obtain q s1 where g: "intq_getc (txq s) s = Some (b, q, s1)" "intq_ok (q, s1)" "intq_contents q = bs"
      "\<forall>d. waiter d q = (if d = Not_Full then 0 else waiter d (txq s))" "woke (waiter Not_Full (txq s)) s s1"
    using intq_getc_ok [OF dev_okD(2) [OF ok] c] by blast
  have i: "input_buffer s1 = input_buffer s" "port_in s1 = port_in s" "mode s1 = mode s" "port_log s1 = port_log s" "level s1 = level s"
      "in_external_intr s1 = in_external_intr s"
    using g(5) more_devices [of s1 s] by (simp_all add: woke_def)
  have w: "waiter c (input_buffer s) = waiter d (txq s) \<longrightarrow> waiter c (input_buffer s) = 0" for c d
    using ok by (simp add: dev_ok_def)
  have "intq_ok (input_buffer s, s1)"
    using other_queue [OF dev_okD(1) [OF ok] _ g(5)] g(2) w by (metis (no_types, lifting) intq_ok_def split_conv)
  then have "dev_ok (s1\<lparr>txq := q\<rparr>)" using g(2,4) i(1) w by (auto simp: dev_ok_def)
  then show ?thesis using g(1,3) i dev_okD(3) [OF ok] by simp
qed

lemma tx_put:
  assumes ok: "dev_ok s" and c: "length (intq_contents (txq s)) < INTQ_BUFSIZE - 1"
  shows "\<exists>q s1. intq_putc_iter b (txq s) s = Some (Finished (), q, s1) \<and> dev_ok (s1\<lparr>txq := q\<rparr>)
    \<and> intq_contents q = intq_contents (txq s) @ [b]
    \<and> port_in s1 = port_in s \<and> port_log s1 = port_log s \<and> mode s1 = mode s \<and> input_buffer s1 = input_buffer s
    \<and> level s1 = INTR_OFF \<and> in_external_intr s1 = in_external_intr s"
proof -
  obtain q s1 where g: "intq_putc b (txq s) s = Some (q, s1)" "intq_ok (q, s1)" "intq_contents q = intq_contents (txq s) @ [b]"
      "\<forall>d. waiter d q = (if d = Not_Empty then 0 else waiter d (txq s))" "woke (waiter Not_Empty (txq s)) s s1"
    using intq_putc_ok [OF dev_okD(2) [OF ok] c] by blast
  obtain r q' s' where r: "intq_putc_iter b (txq s) s = Some (r, q', s')"
    using g(1) by (cases "intq_putc_iter b (txq s) s") (auto simp: intq_putc_def)
  then have f: "intq_putc_iter b (txq s) s = Some (Finished (), q, s1)"
    using g(1) by (cases r) (simp_all add: intq_putc_def)
  have i: "input_buffer s1 = input_buffer s" "port_in s1 = port_in s" "mode s1 = mode s" "port_log s1 = port_log s" "level s1 = level s"
      "in_external_intr s1 = in_external_intr s"
    using g(5) more_devices [of s1 s] by (simp_all add: woke_def)
  have w: "waiter c (input_buffer s) = waiter d (txq s) \<longrightarrow> waiter c (input_buffer s) = 0" for c d
    using ok by (simp add: dev_ok_def)
  have "intq_ok (input_buffer s, s1)"
    using other_queue [OF dev_okD(1) [OF ok] _ g(5)] g(2) w by (metis (no_types, lifting) intq_ok_def split_conv)
  then have "dev_ok (s1\<lparr>txq := q\<rparr>)" using g(2,4) i(1) w by (auto simp: dev_ok_def)
  then show ?thesis using f g(3) i dev_okD(3) [OF ok] by simp
qed

lemma sent_outb: "sent (outb p b s) = sent s @ (if p = THR_REG then [b] else [])"
  by (simp add: sent_def outb_def)

lemma input_full_eq: "dev_ok s \<Longrightarrow> input_full s = Some (length (intq_contents (input_buffer s)) = INTQ_BUFSIZE - 1)"
  using intq_len_full [OF dev_okD(5), of s] dev_okD(3) [of s] by (simp add: input_full_def intq_full_def intr_get_level_def)

lemma tx_empty: "dev_ok s \<Longrightarrow> intq_empty (txq s) s = Some (intq_contents (txq s) = [])"
  using intq_len_0 [OF dev_okD(4), of s] dev_okD(3) [of s] len_contents [of "txq s"]
  by (simp add: intq_empty_def intr_get_level_def) (metis len_contents length_0_conv)

text \<open>The interrupts that should be enabled: transmission (2) while something is queued, reception (1)
  while the input buffer has room.\<close>

definition ier_value :: "'a devices_scheme \<Rightarrow> nat" where
  "ier_value s = (if intq_contents (txq s) \<noteq> [] then 2 else 0)
     + (if length (intq_contents (input_buffer s)) < INTQ_BUFSIZE - 1 then 1 else 0)"

lemma write_ier_ok:
  assumes "dev_ok s"
  shows "write_ier s = Some (s\<lparr>port_log := port_log s @ [(IER_REG, ier_value s)]\<rparr>)"
proof -
  have "length (intq_contents (input_buffer s)) \<noteq> INTQ_BUFSIZE - 1 \<longleftrightarrow> length (intq_contents (input_buffer s)) < INTQ_BUFSIZE - 1"
    using intq_len_less [of "input_buffer s"] by auto
  then show ?thesis using dev_okD(3) [OF assms] tx_empty [OF assms] input_full_eq [OF assms]
    by (simp add: write_ier_def intr_get_level_def outb_def Let_def ier_value_def IER_XMIT_def IER_RECV_def)
qed

lemma sent_ier: "sent (s\<lparr>port_log := port_log s @ [(IER_REG, v)]\<rparr>) = sent s"
  by (simp add: sent_def THR_REG_def IER_REG_def)

lemma input_put:
  assumes ok: "dev_ok s" and c: "length (intq_contents (input_buffer s)) < INTQ_BUFSIZE - 1"
  shows "\<exists>s1. input_putc b s = Some s1 \<and> dev_ok s1 \<and> intq_contents (input_buffer s1) = intq_contents (input_buffer s) @ [b]
    \<and> port_in s1 = port_in s \<and> sent s1 = sent s \<and> txq s1 = txq s \<and> mode s1 = mode s"
proof -
  obtain q s1 where g: "intq_putc b (input_buffer s) s = Some (q, s1)" "intq_ok (q, s1)"
      "intq_contents q = intq_contents (input_buffer s) @ [b]"
      "\<forall>d. waiter d q = (if d = Not_Empty then 0 else waiter d (input_buffer s))" "woke (waiter Not_Empty (input_buffer s)) s s1"
    using intq_putc_ok [OF dev_okD(1) [OF ok] c] by blast
  have i: "txq s1 = txq s" "port_in s1 = port_in s" "mode s1 = mode s" "port_log s1 = port_log s" "level s1 = level s"
    using g(5) more_devices [of s1 s] by (simp_all add: woke_def)
  have w: "waiter c (input_buffer s) = waiter d (txq s) \<longrightarrow> waiter c (input_buffer s) = 0" for c d
    using ok by (simp add: dev_ok_def)
  have "intq_ok (txq s, s1)"
    using other_queue [OF dev_okD(2) [OF ok] _ g(5)] g(2) w by (metis (no_types, lifting) intq_ok_def split_conv)
  then have ok1: "dev_ok (s1\<lparr>input_buffer := q\<rparr>)" using g(2,4) i(1) w by (auto simp: dev_ok_def)
  have l: "intr_get_level s = INTR_OFF" "intq_full (input_buffer s) s = Some False" "intr_get_level (s1\<lparr>input_buffer := q\<rparr>) = INTR_OFF"
    using dev_okD(3) [OF ok] input_full_eq [OF ok] c i(5) by (simp_all add: intr_get_level_def input_full_def)
  show ?thesis using g(1,3) i ok1 l write_ier_ok [OF ok1]
    by (cases "mode s = QUEUE") (simp_all add: input_putc_def serial_notify_def sent_def THR_REG_def IER_REG_def dev_ok_def)
qed

text \<open>How many bytes are ready, by the status bytes \<open>ls\<close>, when there is room for \<open>n\<close>; and how many status
  bytes are read to find out.\<close>

definition ready_cnt :: "u8 \<Rightarrow> nat \<Rightarrow> u8 list \<Rightarrow> nat" where
  "ready_cnt flag n ls = length (takeWhile (\<lambda>l. and l flag \<noteq> 0) (take n ls))"

definition status_reads :: "u8 \<Rightarrow> nat \<Rightarrow> u8 list \<Rightarrow> nat" where
  "status_reads flag n ls = (let k = ready_cnt flag n ls in if k < n then k + 1 else k)"

lemma ready_cnt_simps [simp]:
  "ready_cnt flag 0 ls = 0" "status_reads flag 0 ls = 0"
  "and l flag = 0 \<Longrightarrow> ready_cnt flag (Suc n) (l # ls) = 0" "and l flag = 0 \<Longrightarrow> status_reads flag (Suc n) (l # ls) = 1"
  "and l flag \<noteq> 0 \<Longrightarrow> ready_cnt flag (Suc n) (l # ls) = Suc (ready_cnt flag n ls)"
  "and l flag \<noteq> 0 \<Longrightarrow> status_reads flag (Suc n) (l # ls) = Suc (status_reads flag n ls)"
  by (simp_all add: ready_cnt_def status_reads_def Let_def)

lemma ready_cnt_le: "ready_cnt flag n ls \<le> n" "status_reads flag n ls \<le> n"
proof -
  have "ready_cnt flag n ls \<le> length (take n ls)" unfolding ready_cnt_def by (rule length_takeWhile_le)
  then show "ready_cnt flag n ls \<le> n" by simp
  then show "status_reads flag n ls \<le> n" by (simp add: status_reads_def Let_def)
qed

lemma receive_loop_ok:
  assumes "dev_ok s" "INTQ_BUFSIZE - 1 - length (intq_contents (input_buffer s)) = n"
    "n \<le> length (port_in s LSR_REG)" "n \<le> length (port_in s RBR_REG)"
  shows "\<exists>s'. receive_loop s = Some s' \<and> dev_ok s' \<and> txq s' = txq s \<and> sent s' = sent s \<and> mode s' = mode s
    \<and> intq_contents (input_buffer s')
        = intq_contents (input_buffer s) @ take (ready_cnt LSR_DR n (port_in s LSR_REG)) (port_in s RBR_REG)
    \<and> port_in s' = (port_in s)(LSR_REG := drop (status_reads LSR_DR n (port_in s LSR_REG)) (port_in s LSR_REG),
        RBR_REG := drop (ready_cnt LSR_DR n (port_in s LSR_REG)) (port_in s RBR_REG))"
  using assms
proof (induction n arbitrary: s)
  case 0
  have "length (intq_contents (input_buffer s)) = INTQ_BUFSIZE - 1" using intq_len_less [of "input_buffer s"] 0(2) by simp
  then have "receive_loop s = Some s" using input_full_eq [OF 0(1)] by (subst receive_loop.simps) simp
  then show ?case using 0 by simp
next
  case (Suc n)
  then have nf: "length (intq_contents (input_buffer s)) < INTQ_BUFSIZE - 1" by simp
  obtain l ls where l: "port_in s LSR_REG = l # ls" using Suc.prems(3) by (cases "port_in s LSR_REG") auto
  obtain r rs where r: "port_in s RBR_REG = r # rs" using Suc.prems(4) by (cases "port_in s RBR_REG") auto
  have ne: "RBR_REG \<noteq> LSR_REG" by (simp add: RBR_REG_def LSR_REG_def)
  define s1 where "s1 = s\<lparr>port_in := (port_in s)(LSR_REG := ls)\<rparr>"
  define s2 where "s2 = s\<lparr>port_in := (port_in s)(LSR_REG := ls, RBR_REG := rs)\<rparr>"
  have in1: "inb LSR_REG s = Some (l, s1)" "inb RBR_REG s1 = Some (r, s2)"
    using l r ne by (simp_all add: inb_def s1_def s2_def)
  show ?case
  proof (cases "and l LSR_DR = 0")
    case True
    then have "receive_loop s = Some s1" using input_full_eq [OF Suc.prems(1)] nf in1 by (subst receive_loop.simps) simp
    then show ?thesis using Suc.prems(1) l r True ne by (intro exI [of _ s1]) (simp add: s1_def sent_def fun_eq_iff)
  next
    case False
    have "dev_ok s2" using Suc.prems(1) by (simp add: s2_def)
    moreover have "length (intq_contents (input_buffer s2)) < INTQ_BUFSIZE - 1" using nf by (simp add: s2_def)
    ultimately obtain s3 where s3: "input_putc r s2 = Some s3" "dev_ok s3" "intq_contents (input_buffer s3) = intq_contents (input_buffer s) @ [r]"
      "port_in s3 = (port_in s)(LSR_REG := ls, RBR_REG := rs)" "sent s3 = sent s" "txq s3 = txq s" "mode s3 = mode s"
      using input_put [of s2 r] by (auto simp: s2_def sent_def)
    have "receive_loop s = receive_loop s3" using input_full_eq [OF Suc.prems(1)] nf in1 False s3(1) by (subst receive_loop.simps) simp
    moreover have "INTQ_BUFSIZE - 1 - length (intq_contents (input_buffer s3)) = n" using Suc.prems(2) s3(3) by simp
    moreover have "n \<le> length (port_in s3 LSR_REG)" "n \<le> length (port_in s3 RBR_REG)" using Suc.prems l r s3(4) ne by simp_all
    moreover have "port_in s3 LSR_REG = ls" "port_in s3 RBR_REG = rs" using s3(4) ne by simp_all
    ultimately show ?thesis using Suc.IH [OF s3(2)] s3(3-7) l r ne False by (auto simp: fun_eq_iff)
  qed
qed

lemma transmit_loop_ok:
  assumes "dev_ok s" "length (intq_contents (txq s)) = n" "n \<le> length (port_in s LSR_REG)"
  shows "\<exists>s'. transmit_loop s = Some s' \<and> dev_ok s' \<and> input_buffer s' = input_buffer s \<and> mode s' = mode s
    \<and> sent s' = sent s @ map unat (take (ready_cnt LSR_THRE n (port_in s LSR_REG)) (intq_contents (txq s)))
    \<and> intq_contents (txq s') = drop (ready_cnt LSR_THRE n (port_in s LSR_REG)) (intq_contents (txq s))
    \<and> port_in s' = (port_in s)(LSR_REG := drop (status_reads LSR_THRE n (port_in s LSR_REG)) (port_in s LSR_REG))"
  using assms
proof (induction n arbitrary: s)
  case 0
  then have "intq_contents (txq s) = []" by (metis length_0_conv)
  then have "transmit_loop s = Some s" using tx_empty [OF 0(1)] by (subst transmit_loop.simps) simp
  then show ?case using 0 by simp
next
  case (Suc n)
  obtain b bs where b: "intq_contents (txq s) = b # bs" using Suc.prems(2) by (cases "intq_contents (txq s)") auto
  obtain l ls where l: "port_in s LSR_REG = l # ls" using Suc.prems(3) by (cases "port_in s LSR_REG") auto
  define s1 where "s1 = s\<lparr>port_in := (port_in s)(LSR_REG := ls)\<rparr>"
  have in1: "inb LSR_REG s = Some (l, s1)" using l by (simp add: inb_def s1_def)
  have ne: "intq_empty (txq s) s = Some False" using tx_empty [OF Suc.prems(1)] b by simp
  show ?case
  proof (cases "and l LSR_THRE = 0")
    case True
    then have "transmit_loop s = Some s1" using ne in1 by (subst transmit_loop.simps) simp
    then show ?thesis using Suc.prems(1) l True by (intro exI [of _ s1]) (simp add: s1_def sent_def)
  next
    case False
    have "dev_ok s1" "intq_contents (txq s1) = b # bs" using Suc.prems(1) b by (simp_all add: s1_def)
    then obtain q s2 where g: "intq_getc (txq s1) s1 = Some (b, q, s2)" "dev_ok (s2\<lparr>txq := q\<rparr>)" "intq_contents q = bs"
        "port_in s2 = port_in s1" "port_log s2 = port_log s1" "mode s2 = mode s1" "input_buffer s2 = input_buffer s1"
      using tx_get by blast
    define s3 where "s3 = outb THR_REG (unat b) (s2\<lparr>txq := q\<rparr>)"
    have "transmit_loop s = transmit_loop s3" using ne in1 False g(1) by (subst transmit_loop.simps) (simp add: s3_def)
    moreover have s3: "dev_ok s3" "intq_contents (txq s3) = bs" "mode s3 = mode s" "input_buffer s3 = input_buffer s"
        "sent s3 = sent s @ [unat b]" "port_in s3 = (port_in s)(LSR_REG := ls)"
      using g by (simp_all add: s3_def outb_def s1_def sent_def)
    moreover have "length bs = n" "n \<le> length ls" using Suc.prems b l by simp_all
    ultimately show ?thesis using Suc.IH [of s3] b l False by (auto simp: fun_eq_iff)
  qed
qed

lemma poll_thre_ok:
  assumes "\<exists>l \<in> set (port_in s LSR_REG). and l LSR_THRE \<noteq> 0"
  shows "poll_thre s = Some (s\<lparr>port_in := (port_in s)(LSR_REG := tl (dropWhile (\<lambda>l. and l LSR_THRE = 0) (port_in s LSR_REG)))\<rparr>)"
  using assms
proof (induction "port_in s LSR_REG" arbitrary: s)
  case (Cons l ls)
  define s1 where "s1 = s\<lparr>port_in := (port_in s)(LSR_REG := ls)\<rparr>"
  have in1: "inb LSR_REG s = Some (l, s1)" by (simp add: inb_def s1_def flip: Cons(2))
  show ?case
  proof (cases "and l LSR_THRE = 0")
    case False
    then show ?thesis using in1 by (subst poll_thre.simps) (simp add: s1_def flip: Cons(2))
  next
    case True
    then have "poll_thre s = poll_thre s1" using in1 by (subst poll_thre.simps) simp
    moreover have "\<exists>l \<in> set (port_in s1 LSR_REG). and l LSR_THRE \<noteq> 0"
      using Cons.prems True by (simp add: s1_def flip: Cons(2))
    ultimately show ?thesis using Cons(1) [of s1] True by (simp add: s1_def flip: Cons(2))
  qed
qed simp

lemma putc_poll_ok:
  assumes "level s = INTR_OFF" "\<exists>l \<in> set (port_in s LSR_REG). and l LSR_THRE \<noteq> 0"
  shows "putc_poll b s = Some (s\<lparr>port_in := (port_in s)(LSR_REG := tl (dropWhile (\<lambda>l. and l LSR_THRE = 0) (port_in s LSR_REG))),
     port_log := port_log s @ [(THR_REG, unat b)]\<rparr>)"
  using assms by (simp add: putc_poll_def poll_thre_ok intr_get_level_def outb_def)

lemma queue_byte:
  assumes ok: "dev_ok s" and c: "length (intq_contents (txq s)) < INTQ_BUFSIZE - 1"
  shows "\<exists>s'. serial_queue_byte b s = Some (Finished (), s')
    \<and> dev_ok s' \<and> sent s' = sent s \<and> intq_contents (txq s') = intq_contents (txq s) @ [b]
    \<and> in_external_intr s' = in_external_intr s \<and> mode s' = mode s \<and> last (port_log s') = (IER_REG, ier_value s')
    \<and> input_buffer s' = input_buffer s \<and> port_in s' = port_in s"
proof -
  obtain q s1 where p: "intq_putc_iter b (txq s) s = Some (Finished (), q, s1)" "dev_ok (s1\<lparr>txq := q\<rparr>)"
    "intq_contents q = intq_contents (txq s) @ [b]" "port_log s1 = port_log s" "mode s1 = mode s"
    "in_external_intr s1 = in_external_intr s" "input_buffer s1 = input_buffer s" "port_in s1 = port_in s"
    using tx_put [OF ok c, of b] by auto
  define s2 where "s2 = s1\<lparr>txq := q\<rparr>"
  have "dev_ok (s2\<lparr>port_log := port_log s2 @ [(IER_REG, ier_value s2)]\<rparr>)" using p(2) by (simp add: dev_ok_def s2_def)
  moreover have "write_ier s2 = Some (s2\<lparr>port_log := port_log s2 @ [(IER_REG, ier_value s2)]\<rparr>)"
    using write_ier_ok [of s2] p(2) by (simp add: s2_def)
  moreover have "ier_value (s2\<lparr>port_log := l\<rparr>) = ier_value s2" for l by (simp add: ier_value_def)
  moreover have "sent (s2\<lparr>port_log := port_log s2 @ [(IER_REG, v)]\<rparr>) = sent s" for v
    using p(4) by (simp add: s2_def sent_def THR_REG_def IER_REG_def)
  ultimately show ?thesis using p unfolding s2_def by (simp add: serial_queue_byte_def)
qed

lemma poll_byte:
  assumes ok: "dev_ok s" and l: "\<exists>l \<in> set (port_in s LSR_REG). and l LSR_THRE \<noteq> 0" and c: "intq_contents (txq s) = b # bs"
  shows "\<exists>s'. do { (b, q, s) \<leftarrow> intq_getc (txq s) s; putc_poll b (s\<lparr>txq := q\<rparr>) } = Some s' \<and> dev_ok s' \<and> sent s' = sent s @ [unat b]
    \<and> intq_contents (txq s') = bs \<and> in_external_intr s' = in_external_intr s \<and> mode s' = mode s \<and> input_buffer s' = input_buffer s"
proof -
  obtain q s1 where g: "intq_getc (txq s) s = Some (b, q, s1)" "dev_ok (s1\<lparr>txq := q\<rparr>)" "intq_contents q = bs"
      "port_in s1 = port_in s" "port_log s1 = port_log s" "mode s1 = mode s" "input_buffer s1 = input_buffer s"
      "level s1 = INTR_OFF" "in_external_intr s1 = in_external_intr s"
    using tx_get [OF ok c] by blast
  define ls where "ls = tl (dropWhile (\<lambda>l. and l LSR_THRE = 0) (port_in s1 LSR_REG))"
  define s2 where "s2 = s1\<lparr>txq := q, port_in := (port_in s1)(LSR_REG := ls), port_log := port_log s1 @ [(THR_REG, unat b)]\<rparr>"
  have "putc_poll b (s1\<lparr>txq := q\<rparr>) = Some s2" using putc_poll_ok [of "s1\<lparr>txq := q\<rparr>" b] l g(4,8) by (simp add: s2_def ls_def)
  moreover have "dev_ok s2" using g(2) by (simp add: s2_def dev_ok_def)
  moreover have "sent s2 = sent s @ [unat b]" using g(5) by (simp add: s2_def sent_def)
  ultimately show ?thesis using g by (intro exI [of _ s2]) (simp add: s2_def)
qed

lemma serial_putc_ok:
  assumes ok: "dev_ok (s\<lparr>level := INTR_OFF\<rparr>)" and m: "mode s = QUEUE" "\<not> in_external_intr s"
    and room: "length (intq_contents (txq s)) < INTQ_BUFSIZE - 1
      \<or> level s = INTR_OFF \<and> (\<exists>l \<in> set (port_in s LSR_REG). and l LSR_THRE \<noteq> 0)"
  shows "\<exists>s'. serial_putc b s = Some (Finished (), s')
    \<and> (if length (intq_contents (txq s)) < INTQ_BUFSIZE - 1
       then sent s' = sent s \<and> intq_contents (txq s') = intq_contents (txq s) @ [b]
       else sent s' = sent s @ [unat (hd (intq_contents (txq s)))] \<and> intq_contents (txq s') = tl (intq_contents (txq s)) @ [b])
    \<and> last (port_log s') = (IER_REG, ier_value s') \<and> dev_ok (s'\<lparr>level := INTR_OFF\<rparr>) \<and> level s' = level s \<and> input_buffer s' = input_buffer s"
proof -
  define s0 where "s0 = s\<lparr>level := INTR_OFF\<rparr>"
  have st0: "sent s0 = sent s" "txq s0 = txq s" "mode s0 = QUEUE" "port_in s0 = port_in s" "in_external_intr s0 = in_external_intr s"
    "input_buffer s0 = input_buffer s"
    using m by (simp_all add: s0_def sent_def)
  have full: "intq_full (txq s) s0 = Some (length (intq_contents (txq s)) = INTQ_BUFSIZE - 1)"
    using intq_len_full [OF dev_okD(4) [OF ok]] dev_okD(3) [OF ok] by (simp add: intq_full_def intr_get_level_def s0_def)
  let ?after = "\<lambda>s1. if length (intq_contents (txq s)) < INTQ_BUFSIZE - 1
      then sent s1 = sent s \<and> intq_contents (txq s1) = intq_contents (txq s)
      else sent s1 = sent s @ [unat (hd (intq_contents (txq s)))] \<and> intq_contents (txq s1) = tl (intq_contents (txq s))"
  have "\<exists>s1. serial_make_room (level s) s0 = Some s1 \<and> dev_ok s1 \<and> ?after s1
      \<and> length (intq_contents (txq s1)) < INTQ_BUFSIZE - 1 \<and> in_external_intr s1 = in_external_intr s \<and> mode s1 = QUEUE
      \<and> input_buffer s1 = input_buffer s"
  proof (cases "length (intq_contents (txq s)) = INTQ_BUFSIZE - 1")
    case False
    then have "length (intq_contents (txq s)) < INTQ_BUFSIZE - 1" using intq_len_less [of "txq s"] by simp
    then show ?thesis using False ok st0 full by (simp add: s0_def [symmetric] serial_make_room_def)
  next
    case True
    then obtain x xs where x: "intq_contents (txq s) = x # xs" by (cases "intq_contents (txq s)") (auto simp: INTQ_BUFSIZE_def)
    then have len: "length xs < INTQ_BUFSIZE - 1" using True by (metis lessI length_Cons)
    have r: "level s = INTR_OFF" "\<exists>l \<in> set (port_in s0 LSR_REG). and l LSR_THRE \<noteq> 0" using True room st0 by simp_all
    show ?thesis using poll_byte [OF ok [folded s0_def] r(2)] x len r(1) True st0 full by (auto simp: serial_make_room_def)
  qed
  then obtain s1 where s1: "serial_make_room (level s) s0 = Some s1" "dev_ok s1" "?after s1"
      "length (intq_contents (txq s1)) < INTQ_BUFSIZE - 1" "in_external_intr s1 = in_external_intr s" "mode s1 = QUEUE"
      "input_buffer s1 = input_buffer s" by blast
  obtain s2 where s2: "serial_queue_byte b s1 = Some (Finished (), s2)" "dev_ok s2" "sent s2 = sent s1"
      "intq_contents (txq s2) = intq_contents (txq s1) @ [b]" "in_external_intr s2 = in_external_intr s1"
      "last (port_log s2) = (IER_REG, ier_value s2)" "input_buffer s2 = input_buffer s1"
    using queue_byte [OF s1(2,4)] by blast
  have "serial_putc b s = Some (Finished (), s2\<lparr>level := level s\<rparr>)"
    using s1(1,5) s2(1,5) m st0(3) by (simp add: serial_putc_def s0_def [symmetric])
  moreover have "s2\<lparr>level := INTR_OFF\<rparr> = s2" using dev_okD(3) [OF s2(2)] by (cases s2) simp
  moreover have "ier_value (s2\<lparr>level := l\<rparr>) = ier_value s2" "sent (s2\<lparr>level := l\<rparr>) = sent s2" for l
    by (simp_all add: ier_value_def sent_def)
  ultimately show ?thesis using s1(3,7) s2 by (auto split: if_splits)
qed

lemma serial_putc_poll:
  assumes "mode s = POLL" "\<not> in_external_intr s" "\<exists>l \<in> set (port_in s LSR_REG). and l LSR_THRE \<noteq> 0"
  shows "serial_putc b s = Some (Finished (),
     s\<lparr>port_in := (port_in s)(LSR_REG := tl (dropWhile (\<lambda>l. and l LSR_THRE = 0) (port_in s LSR_REG))),
       port_log := port_log s @ [(THR_REG, unat b)]\<rparr>)"
proof -
  define s0 where "s0 = s\<lparr>level := INTR_OFF\<rparr>"
  have "putc_poll b s0 = Some (s0\<lparr>port_in := (port_in s)(LSR_REG := tl (dropWhile (\<lambda>l. and l LSR_THRE = 0) (port_in s LSR_REG))),
       port_log := port_log s @ [(THR_REG, unat b)]\<rparr>)"
    using putc_poll_ok [of s0 b] assms(3) by (simp add: s0_def)
  then show ?thesis using assms(1,2) by (cases s) (simp add: serial_putc_def s0_def)
qed

section \<open>Properties\<close>

text \<open>C31: No byte is lost or reordered on its way out through the serial port. In queued mode, \<^verbatim>\<open>serial_putc\<close>
  puts its byte at the end of the queue; if the queue is full and interrupts are off, it first gives the oldest
  byte to the port by polling. It ends with a write of the interrupt enable register that enables
  transmission interrupts, and reception interrupts exactly if the input buffer has room. In
  polling mode it waits for the first status byte that reports an empty transmitter, gives the byte
  to the port, and changes nothing else.\<close>

theorem serial_stream:
  assumes "\<not> in_external_intr s"
  shows "(mode s = QUEUE \<and> dev_ok (s\<lparr>level := INTR_OFF\<rparr>) \<and> (length (intq_contents (txq s)) < INTQ_BUFSIZE - 1
        \<or> level s = INTR_OFF \<and> (\<exists>l \<in> set (port_in s LSR_REG). and l LSR_THRE \<noteq> 0)) \<longrightarrow>
      (\<exists>s'. serial_putc b s = Some (Finished (), s')
        \<and> (if length (intq_contents (txq s)) < INTQ_BUFSIZE - 1
           then sent s' = sent s \<and> intq_contents (txq s') = intq_contents (txq s) @ [b]
           else sent s' = sent s @ [unat (hd (intq_contents (txq s)))] \<and> intq_contents (txq s') = tl (intq_contents (txq s)) @ [b])
        \<and> last (port_log s') = (IER_REG, ier_value s') \<and> dev_ok (s'\<lparr>level := INTR_OFF\<rparr>) \<and> level s' = level s
        \<and> input_buffer s' = input_buffer s))
    \<and> (mode s = POLL \<and> (\<exists>l \<in> set (port_in s LSR_REG). and l LSR_THRE \<noteq> 0) \<longrightarrow>
      serial_putc b s = Some (Finished (),
        s\<lparr>port_in := (port_in s)(LSR_REG := tl (dropWhile (\<lambda>l. and l LSR_THRE = 0) (port_in s LSR_REG))),
          port_log := port_log s @ [(THR_REG, unat b)]\<rparr>))"
  using serial_putc_ok [OF _ _ assms] serial_putc_poll [OF _ assms] by blast

text \<open>C32: The interrupt handler of the serial port moves exactly the bytes that the port reports to be ready.
  With \<open>k\<close> the number of status bytes in a row that report a received byte, as far as the
  input buffer has room, the handler takes \<open>k\<close> bytes from the port and appends them to the input
  buffer, in order; the rest stays with the port. With \<open>j\<close> the number of status bytes after
  these that report an empty transmitter, as far as there are queued bytes, the \<open>j\<close> oldest bytes of the
  queue are given to the port, in order. Then it enables exactly the interrupts that are needed.\<close>

theorem serial_interrupt_exact:
  assumes "dev_ok s" "port_in s IIR_REG \<noteq> []" "126 \<le> length (port_in s LSR_REG)" "63 \<le> length (port_in s RBR_REG)"
    and "room = INTQ_BUFSIZE - 1 - length (intq_contents (input_buffer s))" "ls = port_in s LSR_REG"
    and "k = ready_cnt LSR_DR room ls" "rest = drop (status_reads LSR_DR room ls) ls"
    and "j = ready_cnt LSR_THRE (length (intq_contents (txq s))) rest"
  shows "\<exists>s'. serial_interrupt s = Some s' \<and> dev_ok s'
    \<and> intq_contents (input_buffer s') = intq_contents (input_buffer s) @ take k (port_in s RBR_REG)
    \<and> port_in s' RBR_REG = drop k (port_in s RBR_REG)
    \<and> sent s' = sent s @ map unat (take j (intq_contents (txq s))) \<and> intq_contents (txq s') = drop j (intq_contents (txq s))
    \<and> last (port_log s') = (IER_REG, ier_value s')"
proof -
  obtain x xs where x: "port_in s IIR_REG = x # xs" using assms(2) by (cases "port_in s IIR_REG") auto
  define s1 where "s1 = s\<lparr>port_in := (port_in s)(IIR_REG := xs)\<rparr>"
  have i1: "inb IIR_REG s = Some (x, s1)" using x by (simp add: inb_def s1_def)
  have ne: "LSR_REG \<noteq> IIR_REG" "RBR_REG \<noteq> IIR_REG" "RBR_REG \<noteq> LSR_REG" by (simp_all add: LSR_REG_def IIR_REG_def RBR_REG_def)
  have ok1: "dev_ok s1" using assms(1) by (simp add: s1_def)
  have p1: "port_in s1 LSR_REG = ls" "port_in s1 RBR_REG = port_in s RBR_REG" "input_buffer s1 = input_buffer s" "txq s1 = txq s" "sent s1 = sent s"
    using ne assms(6) by (simp_all add: s1_def sent_def)
  have b: "room \<le> 63" using assms(5) by (simp add: INTQ_BUFSIZE_def)
  obtain s2 where s2: "receive_loop s1 = Some s2" "dev_ok s2" "txq s2 = txq s" "sent s2 = sent s"
      "intq_contents (input_buffer s2) = intq_contents (input_buffer s) @ take k (port_in s RBR_REG)"
      "port_in s2 = (port_in s1)(LSR_REG := rest, RBR_REG := drop k (port_in s RBR_REG))"
    using receive_loop_ok [OF ok1, of room] b assms(3-8) p1 by auto
  have "length ls \<le> 63 + length rest" using ready_cnt_le(2) [of LSR_DR room ls] b assms(8) by simp
  then have "length (intq_contents (txq s2)) \<le> length rest"
    using intq_len_less [of "txq s2"] assms(3,6) by (simp add: INTQ_BUFSIZE_def)
  then obtain s3 where s3: "transmit_loop s2 = Some s3" "dev_ok s3" "input_buffer s3 = input_buffer s2"
      "sent s3 = sent s @ map unat (take j (intq_contents (txq s)))" "intq_contents (txq s3) = drop j (intq_contents (txq s))"
      "port_in s3 RBR_REG = drop k (port_in s RBR_REG)"
    using transmit_loop_ok [OF s2(2) refl] s2(3,4,6) ne assms(9) by auto
  define s4 where "s4 = s3\<lparr>port_log := port_log s3 @ [(IER_REG, ier_value s3)]\<rparr>"
  have "serial_interrupt s = Some s4" using i1 s2(1) s3(1) write_ier_ok [OF s3(2)] by (simp add: serial_interrupt_def s4_def)
  moreover have "dev_ok s4" "ier_value s4 = ier_value s3" "sent s4 = sent s3"
    using s3(2) by (simp_all add: s4_def dev_ok_def ier_value_def sent_ier)
  ultimately show ?thesis using s2(5) s3 by (intro exI [of _ s4]) (simp add: s4_def)
qed

definition demo_devices :: devices where
  "demo_devices = (timer.extend (demo_timer demo_main)
     (devices.fields (\<lambda>_. replicate 200 0xff) demo_intq QUEUE demo_intq False False False False False False False 0))\<lparr>level := INTR_OFF\<rparr>"

lemma demo_devices_ok: "dev_ok demo_devices"
proof -
  have "sched_inv demo_devices"
    using sched_reach_inv [OF demo_main_reach]
    by (subst sched_inv_cong [of _ demo_main]) (simp_all add: demo_devices_def timer.defs devices.defs demo_timer_defs)
  moreover have f: "txq demo_devices = demo_intq" "input_buffer demo_devices = demo_intq" "level demo_devices = INTR_OFF"
    by (simp_all add: demo_devices_def timer.defs devices.defs)
  moreover have w: "waiter c demo_intq = 0" for c by (cases c) (simp_all add: waiter_def demo_intq_def)
  moreover have "intq_wf demo_intq" by (simp add: intq_wf_def demo_intq_def INTQ_BUFSIZE_def)
  ultimately show ?thesis by (simp add: dev_ok_def intq_ok_def)
qed

lemma demo_devices_fields:
  "txq demo_devices = demo_intq" "input_buffer demo_devices = demo_intq" "level demo_devices = INTR_OFF" "mode demo_devices = QUEUE"
  "\<not> in_external_intr demo_devices" "port_in demo_devices p = replicate 200 0xff" "demo_devices\<lparr>level := INTR_OFF\<rparr> = demo_devices"
  "intq_contents demo_intq = []"
  using demo_main_fields
  by (simp_all add: demo_devices_def timer.defs devices.defs demo_timer_defs intq_contents_def intq_len_def demo_intq_def)

theorem serial_stream_witness:
  "\<exists>s'. serial_putc 65 demo_devices = Some (Finished (), s') \<and> intq_contents (txq s') = [65] \<and> last (port_log s') = (IER_REG, 3)"
proof -
  have "length (intq_contents (txq demo_devices)) < INTQ_BUFSIZE - 1" by (simp add: demo_devices_fields INTQ_BUFSIZE_def del: len_contents)
  then show ?thesis
    using serial_stream [OF demo_devices_fields(5), of 65] demo_devices_ok demo_devices_fields(1-4,7,8)
    by (auto simp: ier_value_def INTQ_BUFSIZE_def simp del: len_contents)
qed

theorem serial_interrupt_exact_witness:
  "\<exists>s'. serial_interrupt demo_devices = Some s' \<and> intq_contents (input_buffer s') = replicate 63 0xff"
proof -
  have "takeWhile P (replicate n x) = (if P x then replicate n x else [])" for P n and x :: u8 by (induction n) auto
  then have "ready_cnt LSR_DR 63 (replicate 200 0xff) = 63" by (simp add: ready_cnt_def LSR_DR_def)
  then show ?thesis
    using serial_interrupt_exact [OF demo_devices_ok _ _ _ refl refl refl refl refl] demo_devices_fields
    by (auto simp: INTQ_BUFSIZE_def simp del: len_contents)
qed

text \<open>The letter keys: pressing Q types a small letter, and a capital letter under Shift or Caps Lock
  but not both; Ctrl+Q is the control character whatever the other keys.\<close>

lemma key_char_Q:
  "map_key invariant_keymap 0x10 = Some 0x51"
  "key_char 0x51 sh False False caps = (if sh = caps then 0x71 else 0x51)"
  "key_char 0x51 sh False True caps = 0x11"
  by (simp_all add: invariant_keymap_def chars_def key_char_def ctype_defs)

end
