(* ===== verification/Hash.thy ===== *)
theory Hash
  imports Klist_Sort
begin

text \<open>
  The hash tables of \<^verbatim>\<open>lib/kernel/hash.c\<close>. Each bucket is the list of the elements its
  \<^verbatim>\<open>struct list\<close> holds (\<open>Klist\<close> shows that the list calls act so); the array of buckets, the element
  count, the choice of the number of buckets and the moves of a rehash are those of the source. The
  hash and comparison functions are arguments; \<open>malloc_ok\<close> is whether the allocation inside succeeds.

  The table is shown to be a finite set of elements modulo the equivalence of the comparison, whether
  or not the allocations of \<open>rehash\<close> succeed.
\<close>

section \<open>Data and operations\<close>

record 'e htab =
  h_elem_cnt :: nat
  h_bucket_cnt :: nat
  h_buckets :: "'e list list"

definition find_bucket :: "('e \<Rightarrow> nat) \<Rightarrow> 'e htab \<Rightarrow> 'e \<Rightarrow> nat" where
  "find_bucket hashf h e = hashf e AND (h_bucket_cnt h - 1)"

primrec find_elem :: "('e \<Rightarrow> 'e \<Rightarrow> bool) \<Rightarrow> 'e list \<Rightarrow> 'e \<Rightarrow> 'e option" where
  "find_elem lt [] e = None"
| "find_elem lt (hi # is) e = (if \<not> lt hi e \<and> \<not> lt e hi then Some hi else find_elem lt is e)"

definition insert_elem :: "nat \<Rightarrow> 'e \<Rightarrow> 'e htab \<Rightarrow> 'e htab" where
  "insert_elem b e h = h\<lparr>h_elem_cnt := h_elem_cnt h + 1, h_buckets := (h_buckets h)[b := e # h_buckets h ! b]\<rparr>"

text \<open>\<^verbatim>\<open>list_remove\<close> unlinks the element from the bucket it is in.\<close>

definition remove_elem :: "'e \<Rightarrow> 'e htab \<Rightarrow> 'e htab" where
  "remove_elem e h = h\<lparr>h_elem_cnt := h_elem_cnt h - 1, h_buckets := map (remove1 e) (h_buckets h)\<rparr>"

definition turn_off_least_1bit :: "nat \<Rightarrow> nat" where
  "turn_off_least_1bit x = x AND (x - 1)"

definition is_power_of_2 :: "nat \<Rightarrow> bool" where
  "is_power_of_2 x \<longleftrightarrow> x \<noteq> 0 \<and> turn_off_least_1bit x = 0"

lemma turn_off_less: "x \<noteq> 0 \<Longrightarrow> turn_off_least_1bit x < x"
  unfolding turn_off_least_1bit_def by (rule le_less_trans [OF and_nat_le]) simp

text \<open>The loop that reduces the bucket count to a power of two.\<close>

function round_to_power :: "nat \<Rightarrow> nat" where
  "round_to_power n = (if n = 0 \<or> is_power_of_2 n then n else round_to_power (turn_off_least_1bit n))"
  by pat_completeness auto
termination
  by (relation "measure (\<lambda>n. n)") (simp_all add: turn_off_less)

definition new_bucket_count :: "nat \<Rightarrow> nat" where
  "new_bucket_count cnt = round_to_power (if cnt div 2 < 4 then 4 else cnt div 2)"

text \<open>One step of the move loop: the element, unlinked from its old bucket, goes to the front of its
  new one.\<close>

definition move_elem :: "('e \<Rightarrow> nat) \<Rightarrow> 'e \<Rightarrow> 'e htab \<Rightarrow> 'e htab" where
  "move_elem hashf e h = (let b = find_bucket hashf h e in h\<lparr>h_buckets := (h_buckets h)[b := e # h_buckets h ! b]\<rparr>)"

definition rehash :: "('e \<Rightarrow> nat) \<Rightarrow> bool \<Rightarrow> 'e htab \<Rightarrow> 'e htab" where
  "rehash hashf malloc_ok h =
     (let new_bucket_cnt = new_bucket_count (h_elem_cnt h)
      in if new_bucket_cnt = h_bucket_cnt h then h
         else if \<not> malloc_ok then h
         else
           (let h' = h\<lparr>h_buckets := replicate new_bucket_cnt [], h_bucket_cnt := new_bucket_cnt\<rparr>
            in fold (move_elem hashf) (concat (h_buckets h)) h'))"

definition hash_clear :: "bool \<Rightarrow> 'e htab \<Rightarrow> 'e list \<times> 'e htab" where
  "hash_clear destructor h =
     (if destructor then concat (h_buckets h) else [],
      h\<lparr>h_buckets := replicate (h_bucket_cnt h) [], h_elem_cnt := 0\<rparr>)"

definition hash_init :: "bool \<Rightarrow> 'e htab option" where
  "hash_init malloc_ok =
     (if malloc_ok then Some (snd (hash_clear False \<lparr>h_elem_cnt = 0, h_bucket_cnt = 4, h_buckets = []\<rparr>))
      else None)"

text \<open>\<^verbatim>\<open>hash_destroy\<close> frees the buckets, after which there is no table; the result are the elements passed to the
  destructor.\<close>

definition hash_destroy :: "bool \<Rightarrow> 'e htab \<Rightarrow> 'e list" where
  "hash_destroy destructor h = (if destructor then fst (hash_clear destructor h) else [])"

definition hash_insert :: "('e \<Rightarrow> nat) \<Rightarrow> ('e \<Rightarrow> 'e \<Rightarrow> bool) \<Rightarrow> bool \<Rightarrow> 'e \<Rightarrow> 'e htab \<Rightarrow> 'e option \<times> 'e htab" where
  "hash_insert hashf lt malloc_ok new h =
     (let bucket = find_bucket hashf h new;
          old = find_elem lt (h_buckets h ! bucket) new;
          h = (if old = None then insert_elem bucket new h else h)
      in (old, rehash hashf malloc_ok h))"

definition hash_replace :: "('e \<Rightarrow> nat) \<Rightarrow> ('e \<Rightarrow> 'e \<Rightarrow> bool) \<Rightarrow> bool \<Rightarrow> 'e \<Rightarrow> 'e htab \<Rightarrow> 'e option \<times> 'e htab" where
  "hash_replace hashf lt malloc_ok new h =
     (let bucket = find_bucket hashf h new;
          old = find_elem lt (h_buckets h ! bucket) new;
          h = (case old of Some e \<Rightarrow> remove_elem e h | None \<Rightarrow> h);
          h = insert_elem bucket new h
      in (old, rehash hashf malloc_ok h))"

definition hash_find :: "('e \<Rightarrow> nat) \<Rightarrow> ('e \<Rightarrow> 'e \<Rightarrow> bool) \<Rightarrow> 'e \<Rightarrow> 'e htab \<Rightarrow> 'e option" where
  "hash_find hashf lt e h = find_elem lt (h_buckets h ! find_bucket hashf h e) e"

definition hash_delete :: "('e \<Rightarrow> nat) \<Rightarrow> ('e \<Rightarrow> 'e \<Rightarrow> bool) \<Rightarrow> bool \<Rightarrow> 'e \<Rightarrow> 'e htab \<Rightarrow> 'e option \<times> 'e htab" where
  "hash_delete hashf lt malloc_ok e h =
     (let found = find_elem lt (h_buckets h ! find_bucket hashf h e) e
      in case found of
           Some f \<Rightarrow> (found, rehash hashf malloc_ok (remove_elem f h))
         | None \<Rightarrow> (found, h))"

text \<open>The elements \<^verbatim>\<open>hash_apply\<close> passes to its action, in order.\<close>

definition hash_apply :: "'e htab \<Rightarrow> 'e list" where
  "hash_apply h = concat (map (\<lambda>i. h_buckets h ! i) [0..<h_bucket_cnt h])"

definition hash_size :: "'e htab \<Rightarrow> nat" where
  "hash_size h = h_elem_cnt h"

definition hash_empty :: "'e htab \<Rightarrow> bool" where
  "hash_empty h \<longleftrightarrow> h_elem_cnt h = 0"

text \<open>An iterator: the current bucket and, in it, the elements after the current one; the head of the
  list is the position before the first element. \<open>None\<close> is the end of the table.\<close>

record 'e hash_iterator =
  it_bucket :: nat
  it_rest :: "'e list"

definition hash_first :: "'e htab \<Rightarrow> 'e hash_iterator" where
  "hash_first h = \<lparr>it_bucket = 0, it_rest = h_buckets h ! 0\<rparr>"

text \<open>Skip the buckets that are empty, from bucket \<open>b\<close> on.\<close>

function hash_skip :: "'e htab \<Rightarrow> nat \<Rightarrow> 'e list \<Rightarrow> ('e \<times> 'e hash_iterator) option" where
  "hash_skip h b rest =
     (case rest of
        e # es \<Rightarrow> Some (e, \<lparr>it_bucket = b, it_rest = es\<rparr>)
      | [] \<Rightarrow> if b + 1 \<ge> h_bucket_cnt h then None else hash_skip h (b + 1) (h_buckets h ! (b + 1)))"
  by pat_completeness auto
termination
  by (relation "measure (\<lambda>(h, b, rest). h_bucket_cnt h - b)") auto

definition hash_next :: "'e htab \<Rightarrow> 'e hash_iterator \<Rightarrow> ('e \<times> 'e hash_iterator) option" where
  "hash_next h i = hash_skip h (it_bucket i) (it_rest i)"

text \<open>The Fowler-Noll-Vo hashes.\<close>

definition hash_bytes :: "8 word list \<Rightarrow> 32 word" where
  "hash_bytes buf = fold (\<lambda>c hash. (hash * 16777619) XOR ucast c) buf 2166136261"

definition hash_string :: "8 word list \<Rightarrow> 32 word" where
  "hash_string s = fold (\<lambda>c hash. (hash * 16777619) XOR ucast c) (takeWhile (\<lambda>c. c \<noteq> 0) s) 2166136261"

definition hash_int :: "32 word \<Rightarrow> 32 word" where
  "hash_int i = hash_bytes (map (\<lambda>k. ucast (drop_bit (8 * k) i)) [0..<4])"

section \<open>The number of buckets\<close>

declare round_to_power.simps [simp del]

lemma is_power_of_2_iff: "is_power_of_2 n \<longleftrightarrow> (\<exists>k. n = 2 ^ k)"
proof
  assume "\<exists>k. n = 2 ^ k"
  then obtain k where k: "n = 2 ^ k" ..
  have "(2 :: nat) ^ k AND (2 ^ k - 1) = 0"
    unfolding and_low_mask by simp
  then show "is_power_of_2 n" by (simp add: is_power_of_2_def turn_off_least_1bit_def k)
next
  assume "is_power_of_2 n"
  then show "\<exists>k. n = 2 ^ k"
  proof (induction n rule: less_induct)
    case (less n)
    then have n: "n \<noteq> 0" "n AND (n - 1) = 0" by (auto simp: is_power_of_2_def turn_off_least_1bit_def)
    show ?case
    proof (cases "even n")
      case True
      then have m: "(n - 1) div 2 = n div 2 - 1" "n div 2 \<noteq> 0" "n div 2 < n" using n(1) by auto
      have "n AND (n - 1) = 2 * (n div 2 AND (n div 2 - 1))"
        using True m by (subst and_nat_rec) simp
      then have "is_power_of_2 (n div 2)" using n(2) m(2) by (simp add: is_power_of_2_def turn_off_least_1bit_def)
      then obtain k where "n div 2 = 2 ^ k" using less.IH m(3) by blast
      then have "n = 2 ^ Suc k" using True by auto
      then show ?thesis by blast
    next
      case False
      then have "n AND (n - 1) = 2 * (n div 2)"
        by (subst and_nat_rec) (auto elim: oddE)
      then have "n = 2 ^ 0" using n False by (auto elim: oddE)
      then show ?thesis by blast
    qed
  qed
qed

lemma round_to_power_power: "n \<noteq> 0 \<Longrightarrow> is_power_of_2 (round_to_power n)"
proof (induction n rule: round_to_power.induct)
  case (1 n)
  then show ?case
    by (cases "is_power_of_2 n"; subst round_to_power.simps) (auto simp: is_power_of_2_def)
qed

lemma new_bucket_count_power: "\<exists>k. new_bucket_count c = 2 ^ k"
  unfolding is_power_of_2_iff [symmetric] new_bucket_count_def by (rule round_to_power_power) simp

section \<open>The elements of a table\<close>

definition h_elems :: "'e htab \<Rightarrow> 'e multiset" where
  "h_elems h = mset (concat (h_buckets h))"

text \<open>Every element sits in the bucket of its hash value, the counts are right, and no two elements
  are equivalent.\<close>

definition htab_wf :: "('e \<Rightarrow> nat) \<Rightarrow> ('e \<Rightarrow> 'e \<Rightarrow> bool) \<Rightarrow> 'e htab \<Rightarrow> bool" where
  "htab_wf hashf lt h \<longleftrightarrow> (\<exists>k. h_bucket_cnt h = 2 ^ k) \<and> length (h_buckets h) = h_bucket_cnt h \<and>
     h_elem_cnt h = size (h_elems h) \<and>
     (\<forall>b < h_bucket_cnt h. \<forall>e \<in> set (h_buckets h ! b). hashf e mod h_bucket_cnt h = b) \<and>
     distinct (concat (h_buckets h)) \<and>
     (\<forall>x \<in># h_elems h. \<forall>y \<in># h_elems h. equiv_by lt x y \<longrightarrow> x = y)"

lemma find_bucket_mod: "htab_wf hashf lt h \<Longrightarrow> find_bucket hashf h e = hashf e mod h_bucket_cnt h"
  by (auto simp: htab_wf_def find_bucket_def and_low_mask)

lemma find_bucket_less: "htab_wf hashf lt h \<Longrightarrow> find_bucket hashf h e < length (h_buckets h)"
  by (auto simp: find_bucket_mod htab_wf_def)

lemma find_elem_None: "find_elem lt xs e = None \<longleftrightarrow> (\<forall>x \<in> set xs. \<not> equiv_by lt x e)"
  by (induction xs) (auto simp: equiv_by_def)

lemma find_elem_Some: "find_elem lt xs e = Some x \<Longrightarrow> x \<in> set xs \<and> equiv_by lt x e"
  by (induction xs) (auto simp: equiv_by_def split: if_splits)

lemma concat_update_mset:
  "b < length bs \<Longrightarrow> mset (concat (bs[b := e # bs ! b])) = add_mset e (mset (concat bs))"
proof (induction bs arbitrary: b)
  case (Cons x bs)
  then show ?case by (cases b) auto
qed simp

lemma fold_move_elem:
  assumes "h_bucket_cnt h = 2 ^ k" "length (h_buckets h) = h_bucket_cnt h"
    "\<forall>b < h_bucket_cnt h. \<forall>e \<in> set (h_buckets h ! b). hashf e mod h_bucket_cnt h = b"
  shows "h_bucket_cnt (fold (move_elem hashf) es h) = h_bucket_cnt h \<and>
    h_elem_cnt (fold (move_elem hashf) es h) = h_elem_cnt h \<and>
    length (h_buckets (fold (move_elem hashf) es h)) = h_bucket_cnt h \<and>
    (\<forall>b < h_bucket_cnt h. \<forall>e \<in> set (h_buckets (fold (move_elem hashf) es h) ! b). hashf e mod h_bucket_cnt h = b) \<and>
    h_elems (fold (move_elem hashf) es h) = mset es + h_elems h"
  using assms
proof (induction es arbitrary: h)
  case (Cons e es)
  let ?b = "find_bucket hashf h e" and ?h = "move_elem hashf e h"
  have b: "?b = hashf e mod h_bucket_cnt h" "?b < length (h_buckets h)"
    using Cons.prems by (simp_all add: find_bucket_def)
  have s: "h_bucket_cnt ?h = h_bucket_cnt h" "h_elem_cnt ?h = h_elem_cnt h" "length (h_buckets ?h) = h_bucket_cnt ?h"
      "h_elems ?h = add_mset e (h_elems h)"
    using Cons.prems(2) b by (simp_all add: move_elem_def Let_def h_elems_def concat_update_mset)
  have "\<forall>b < h_bucket_cnt ?h. \<forall>e' \<in> set (h_buckets ?h ! b). hashf e' mod h_bucket_cnt ?h = b"
    using Cons.prems(3) b s(1) by (auto simp: move_elem_def Let_def nth_list_update)
  from Cons.IH [OF _ s(3) this] Cons.prems(1) s show ?case by simp
qed simp

lemma rehash_keeps:
  assumes "htab_wf hashf lt h"
  shows "htab_wf hashf lt (rehash hashf ok h) \<and> h_elems (rehash hashf ok h) = h_elems h"
proof (cases "new_bucket_count (h_elem_cnt h) = h_bucket_cnt h \<or> \<not> ok")
  case True
  then show ?thesis using assms by (auto simp: rehash_def Let_def)
next
  case False
  let ?n = "new_bucket_count (h_elem_cnt h)"
  let ?empty = "h\<lparr>h_buckets := replicate ?n [], h_bucket_cnt := ?n\<rparr>"
  let ?h = "fold (move_elem hashf) (concat (h_buckets h)) ?empty"
  obtain k where k: "?n = 2 ^ k" using new_bucket_count_power by blast
  have f: "h_bucket_cnt ?h = h_bucket_cnt ?empty \<and> h_elem_cnt ?h = h_elem_cnt ?empty \<and>
      length (h_buckets ?h) = h_bucket_cnt ?empty \<and>
      (\<forall>b < h_bucket_cnt ?empty. \<forall>e \<in> set (h_buckets ?h ! b). hashf e mod h_bucket_cnt ?empty = b) \<and>
      h_elems ?h = mset (concat (h_buckets h)) + h_elems ?empty"
    by (rule fold_move_elem [where k = k and h = ?empty and es = "concat (h_buckets h)"]) (use k in simp_all)
  then have e: "h_elems ?h = h_elems h" by (simp add: h_elems_def)
  moreover have "distinct (concat (h_buckets ?h))"
    using e assms by (metis h_elems_def htab_wf_def mset_eq_imp_distinct_iff)
  ultimately have "htab_wf hashf lt ?h" using assms f k unfolding htab_wf_def by auto
  then show ?thesis using False e by (simp add: rehash_def Let_def)
qed

text \<open>The contract of the functions a table is created with: a strict weak order, and a hash that
  agrees on equivalent elements.\<close>

locale hash_order = weak_order lt for lt :: "'e \<Rightarrow> 'e \<Rightarrow> bool" +
  fixes hashf :: "'e \<Rightarrow> nat"
  assumes hash_equiv: "equiv_by lt x y \<Longrightarrow> hashf x = hashf y"
begin

lemma equiv_sym: "equiv_by lt x y \<Longrightarrow> equiv_by lt y x"
  by (simp add: equiv_by_def)

lemma equiv_trans: "equiv_by lt x y \<Longrightarrow> equiv_by lt y z \<Longrightarrow> equiv_by lt x z"
  using ntrans by (auto simp: equiv_by_def)

lemma equiv_refl: "equiv_by lt x x"
  using asym by (auto simp: equiv_by_def)

text \<open>Looking in one bucket finds an equivalent element wherever it is.\<close>

lemma hash_find_spec:
  assumes "htab_wf hashf lt h"
  shows "hash_find hashf lt e h = None \<longleftrightarrow> (\<forall>x \<in># h_elems h. \<not> equiv_by lt x e)"
    and "hash_find hashf lt e h = Some x \<Longrightarrow> x \<in># h_elems h \<and> equiv_by lt x e"
proof -
  let ?b = "find_bucket hashf h e"
  have b: "?b < length (h_buckets h)" using find_bucket_less [OF assms] .
  have sub: "set (h_buckets h ! ?b) \<subseteq> set_mset (h_elems h)" using b by (auto simp: h_elems_def intro: bexI [OF _ nth_mem])
  have same: "x \<in> set (h_buckets h ! ?b)" if x: "x \<in># h_elems h" "equiv_by lt x e" for x
  proof -
    obtain xs where "xs \<in> set (h_buckets h)" "x \<in> set xs" using x(1) by (auto simp: h_elems_def)
    then obtain i where i: "i < length (h_buckets h)" "x \<in> set (h_buckets h ! i)"
      by (auto simp: in_set_conv_nth [of xs])
    then have "hashf x mod h_bucket_cnt h = i" using assms by (auto simp: htab_wf_def)
    then show ?thesis using i hash_equiv [OF x(2)] find_bucket_mod [OF assms, of e] by simp
  qed
  show "hash_find hashf lt e h = None \<longleftrightarrow> (\<forall>x \<in># h_elems h. \<not> equiv_by lt x e)"
    unfolding hash_find_def find_elem_None using sub same by blast
  show "x \<in># h_elems h \<and> equiv_by lt x e" if "hash_find hashf lt e h = Some x"
    using find_elem_Some [OF that [unfolded hash_find_def]] sub by blast
qed

lemma insert_elem_wf:
  assumes "htab_wf hashf lt h" "\<forall>x \<in># h_elems h. \<not> equiv_by lt x e"
  shows "htab_wf hashf lt (insert_elem (find_bucket hashf h e) e h) \<and>
    h_elems (insert_elem (find_bucket hashf h e) e h) = add_mset e (h_elems h)"
proof -
  let ?b = "find_bucket hashf h e" and ?h = "insert_elem (find_bucket hashf h e) e h"
  have b: "?b < length (h_buckets h)" "?b = hashf e mod h_bucket_cnt h"
    using find_bucket_less [OF assms(1)] find_bucket_mod [OF assms(1)] by auto
  have e: "h_elems ?h = add_mset e (h_elems h)"
    using concat_update_mset [OF b(1)] by (simp add: insert_elem_def h_elems_def)
  have new: "e \<notin># h_elems h" using assms(2) equiv_refl by blast
  have "mset (concat (h_buckets ?h)) = mset (e # concat (h_buckets h))" using e by (simp add: h_elems_def)
  then have "distinct (concat (h_buckets ?h)) = distinct (e # concat (h_buckets h))"
    by (rule mset_eq_imp_distinct_iff)
  then have "distinct (concat (h_buckets ?h))" using new assms(1) by (simp add: htab_wf_def h_elems_def)
  moreover have "\<forall>i < h_bucket_cnt ?h. \<forall>x \<in> set (h_buckets ?h ! i). hashf x mod h_bucket_cnt ?h = i"
    using assms(1) b by (auto simp: insert_elem_def htab_wf_def nth_list_update)
  moreover have "\<forall>x \<in># h_elems ?h. \<forall>y \<in># h_elems ?h. equiv_by lt x y \<longrightarrow> x = y"
    using assms equiv_sym unfolding e by (auto simp: htab_wf_def)
  ultimately show ?thesis using assms(1) e by (simp add: htab_wf_def) (simp add: insert_elem_def)
qed

lemma remove_elem_wf:
  assumes "htab_wf hashf lt h" "e \<in># h_elems h"
  shows "htab_wf hashf lt (remove_elem e h) \<and> h_elems (remove_elem e h) = h_elems h - {#e#}"
proof -
  let ?h = "remove_elem e h"
  have c: "concat (map (remove1 e) bs) = remove1 e (concat bs)" if "distinct (concat bs)" for bs
    using that
  proof (induction bs)
    case (Cons x bs)
    have "e \<notin> set (concat bs)" if "e \<in> set x" using Cons.prems that by auto
    then show ?case using Cons
      by (cases "e \<in> set x") (simp_all add: remove1_append remove1_idem)
  qed simp
  have d: "distinct (concat (h_buckets h))" using assms(1) by (simp add: htab_wf_def)
  have e: "h_elems ?h = h_elems h - {#e#}" using c [OF d] by (simp add: remove_elem_def h_elems_def)
  have "\<forall>i < h_bucket_cnt ?h. \<forall>x \<in> set (h_buckets ?h ! i). hashf x mod h_bucket_cnt ?h = i"
    using assms(1) set_remove1_subset [THEN subsetD] by (fastforce simp: remove_elem_def htab_wf_def)
  moreover have "distinct (concat (h_buckets ?h))" using c [OF d] d by (simp add: remove_elem_def)
  moreover have "h_elem_cnt ?h = size (h_elems ?h)"
    using assms e by (simp add: remove_elem_def htab_wf_def size_Diff_singleton)
  moreover have "\<forall>x \<in># h_elems ?h. \<forall>y \<in># h_elems ?h. equiv_by lt x y \<longrightarrow> x = y"
    using assms(1) unfolding e htab_wf_def by (meson in_diffD)
  ultimately show ?thesis using assms(1) e by (simp add: htab_wf_def) (simp add: remove_elem_def)
qed

lemma hash_insert_spec:
  assumes "htab_wf hashf lt h" "hash_insert hashf lt ok e h = (old, h')"
  shows "htab_wf hashf lt h' \<and> old = hash_find hashf lt e h \<and>
    h_elems h' = (if old = None then add_mset e (h_elems h) else h_elems h)"
proof (cases "hash_find hashf lt e h")
  case None
  then have h': "h' = rehash hashf ok (insert_elem (find_bucket hashf h e) e h)" "old = None"
    using assms(2) by (auto simp: hash_insert_def Let_def hash_find_def)
  then show ?thesis
    using insert_elem_wf [OF assms(1)] rehash_keeps [of hashf lt] hash_find_spec(1) [OF assms(1), of e] None by auto
next
  case (Some x)
  then show ?thesis
    using assms rehash_keeps [OF assms(1)] by (auto simp: hash_insert_def Let_def hash_find_def)
qed

lemma hash_delete_spec:
  assumes "htab_wf hashf lt h" "hash_delete hashf lt ok e h = (found, h')"
  shows "htab_wf hashf lt h' \<and> found = hash_find hashf lt e h \<and>
    h_elems h' = (case found of None \<Rightarrow> h_elems h | Some x \<Rightarrow> h_elems h - {#x#})"
proof (cases "hash_find hashf lt e h")
  case None
  then show ?thesis using assms by (auto simp: hash_delete_def Let_def hash_find_def)
next
  case (Some x)
  then have "x \<in># h_elems h" using hash_find_spec(2) [OF assms(1)] by blast
  moreover have "h' = rehash hashf ok (remove_elem x h)" "found = Some x"
    using assms(2) Some by (auto simp: hash_delete_def Let_def hash_find_def)
  ultimately show ?thesis using remove_elem_wf [OF assms(1)] rehash_keeps [of hashf lt] Some by auto
qed

text \<open>In a well-formed table at most one element is equivalent to \<open>e\<close>.\<close>

lemma equivalent_unique:
  assumes "htab_wf hashf lt h" "x \<in># h_elems h" "y \<in># h_elems h" "equiv_by lt x e" "equiv_by lt y e"
  shows "x = y"
  using assms equiv_trans equiv_sym unfolding htab_wf_def by meson

lemma hash_find_iff:
  assumes "htab_wf hashf lt h"
  shows "hash_find hashf lt e h = Some x \<longleftrightarrow> x \<in># h_elems h \<and> equiv_by lt x e"
proof (cases "hash_find hashf lt e h")
  case None
  then show ?thesis using hash_find_spec(1) [OF assms, of e] by auto
next
  case (Some y)
  then show ?thesis using hash_find_spec(2) [OF assms Some] equivalent_unique [OF assms] by auto
qed

lemma removed_absent:
  assumes "htab_wf hashf lt h" "hash_find hashf lt e h = Some x" "y \<in># h_elems h - {#x#}"
  shows "\<not> equiv_by lt y e"
proof
  assume "equiv_by lt y e"
  moreover have "y \<in># h_elems h" using assms(3) by (rule in_diffD)
  ultimately have "y = x" using equivalent_unique [OF assms(1)] hash_find_spec(2) [OF assms(1,2)] by blast
  moreover have "distinct (concat (h_buckets h))" using assms(1) by (simp add: htab_wf_def)
  then have "x \<notin># h_elems h - {#x#}"
    unfolding h_elems_def mset_remove1 [symmetric] set_mset_mset by (simp only: set_remove1_eq) simp
  ultimately show False using assms(3) by simp
qed

lemma hash_replace_spec:
  assumes "htab_wf hashf lt h" "hash_replace hashf lt ok e h = (old, h')"
  shows "htab_wf hashf lt h' \<and> old = hash_find hashf lt e h \<and>
    h_elems h' = add_mset e (case old of None \<Rightarrow> h_elems h | Some x \<Rightarrow> h_elems h - {#x#})"
proof -
  define g where "g = (case old of None \<Rightarrow> h | Some x \<Rightarrow> remove_elem x h)"
  have old: "old = hash_find hashf lt e h" and h': "h' = rehash hashf ok (insert_elem (find_bucket hashf g e) e g)"
    using assms(2) by (auto simp: hash_replace_def Let_def hash_find_def g_def find_bucket_def remove_elem_def split: option.splits)
  have g: "htab_wf hashf lt g" "h_elems g = (case old of None \<Rightarrow> h_elems h | Some x \<Rightarrow> h_elems h - {#x#})"
    using remove_elem_wf [OF assms(1)] hash_find_spec(2) [OF assms(1)] assms(1) old by (auto simp: g_def split: option.splits)
  moreover have "\<forall>x \<in># h_elems g. \<not> equiv_by lt x e"
    using removed_absent [OF assms(1)] hash_find_spec(1) [OF assms(1), of e] old unfolding g(2) by (auto split: option.splits)
  ultimately show ?thesis using insert_elem_wf [OF g(1)] rehash_keeps [of hashf lt] old h' by auto
qed

end

text \<open>Tables of integers, hashed by \<open>hash_int\<close>.\<close>

interpretation int_hash: hash_order "(<) :: 32 word \<Rightarrow> 32 word \<Rightarrow> bool" "\<lambda>i. unat (hash_int i)"
  by unfold_locales (auto simp: equiv_by_def not_less)

section \<open>Iteration\<close>

declare hash_skip.simps [simp del]

text \<open>What an iterator still has to deliver.\<close>

definition it_remaining :: "'e htab \<Rightarrow> 'e hash_iterator \<Rightarrow> 'e list" where
  "it_remaining h i = it_rest i @ concat (drop (it_bucket i + 1) (h_buckets h))"

lemma hash_skip_spec:
  assumes "length (h_buckets h) = h_bucket_cnt h" "b < h_bucket_cnt h"
  shows "case rest @ concat (drop (b + 1) (h_buckets h)) of
      [] \<Rightarrow> hash_skip h b rest = None
    | e # es \<Rightarrow> \<exists>i. hash_skip h b rest = Some (e, i) \<and> it_remaining h i = es \<and> it_bucket i < h_bucket_cnt h"
  using assms
proof (induction h b rest rule: hash_skip.induct)
  case (1 h b rest)
  show ?case
  proof (cases rest)
    case (Cons e es)
    then show ?thesis using 1(3) by (subst hash_skip.simps) (simp add: it_remaining_def)
  next
    case Nil
    show ?thesis
    proof (cases "b + 1 \<ge> h_bucket_cnt h")
      case True
      then show ?thesis using Nil 1 by (subst hash_skip.simps) simp
    next
      case False
      then have "drop (b + 1) (h_buckets h) = h_buckets h ! (b + 1) # drop (b + 1 + 1) (h_buckets h)"
        using 1(2) by (metis Cons_nth_drop_Suc Suc_eq_plus1 not_le)
      then have l: "rest @ concat (drop (b + 1) (h_buckets h)) =
          h_buckets h ! (b + 1) @ concat (drop (b + 1 + 1) (h_buckets h))" using Nil by simp
      have eq: "hash_skip h b rest = hash_skip h (b + 1) (h_buckets h ! (b + 1))"
        using Nil False by (subst hash_skip.simps) simp
      show ?thesis unfolding l eq using 1(1) [OF Nil False 1(2)] False by simp
    qed
  qed
qed

lemma hash_next_spec:
  assumes "length (h_buckets h) = h_bucket_cnt h" "it_bucket i < h_bucket_cnt h"
  shows "it_remaining h i = [] \<Longrightarrow> hash_next h i = None"
    "it_remaining h i = e # es \<Longrightarrow> \<exists>i'. hash_next h i = Some (e, i') \<and> it_remaining h i' = es \<and> it_bucket i' < h_bucket_cnt h"
  using hash_skip_spec [OF assms, of "it_rest i", folded it_remaining_def] by (simp_all add: hash_next_def)

text \<open>The sequence of elements an iteration returns, at most \<open>n\<close> of them.\<close>

primrec iterate :: "nat \<Rightarrow> 'e htab \<Rightarrow> 'e hash_iterator \<Rightarrow> 'e list" where
  "iterate 0 h i = []"
| "iterate (Suc n) h i = (case hash_next h i of None \<Rightarrow> [] | Some (e, i') \<Rightarrow> e # iterate n h i')"

lemma iterate_remaining:
  assumes "length (h_buckets h) = h_bucket_cnt h" "it_bucket i < h_bucket_cnt h" "length (it_remaining h i) \<le> n"
  shows "iterate n h i = it_remaining h i"
  using assms(2,3)
proof (induction n arbitrary: i)
  case (Suc n)
  show ?case
  proof (cases "it_remaining h i")
    case Nil
    then show ?thesis using hash_next_spec(1) [OF assms(1) Suc.prems(1)] by simp
  next
    case (Cons e es)
    obtain i' where "hash_next h i = Some (e, i')" "it_remaining h i' = es" "it_bucket i' < h_bucket_cnt h"
      using hash_next_spec(2) [OF assms(1) Suc.prems(1) Cons] by blast
    then show ?thesis using Suc.IH [of i'] Suc.prems(2) Cons by simp
  qed
qed simp

section \<open>Correctness of the hash table\<close>

definition hash_contract :: "('e \<Rightarrow> nat) \<Rightarrow> ('e \<Rightarrow> 'e \<Rightarrow> bool) \<Rightarrow> bool" where
  "hash_contract hashf lt \<longleftrightarrow> strict_weak lt \<and> (\<forall>x y. equiv_by lt x y \<longrightarrow> hashf x = hashf y)"

lemma hash_contract_order: "hash_contract hashf lt \<Longrightarrow> hash_order lt hashf"
  unfolding hash_contract_def by (intro hash_order.intro strict_weak_locales(1) hash_order_axioms.intro) auto

lemma hash_init_wf: "hash_init True = Some h \<Longrightarrow> htab_wf hashf lt h \<and> h_elems h = {#}"
proof -
  assume "hash_init True = Some h"
  then have "h = \<lparr>h_elem_cnt = 0, h_bucket_cnt = 4, h_buckets = replicate 4 []\<rparr>"
    by (simp add: hash_init_def hash_clear_def)
  moreover have "\<exists>k. (4 :: nat) = 2 ^ k" by (rule exI [of _ 2]) simp
  ultimately show ?thesis by (simp add: htab_wf_def h_elems_def)
qed

text \<open>C15: on every well-formed table and whatever the outcome of the allocations inside,
  \<^verbatim>\<open>hash_find\<close> returns the element that is equivalent to \<open>e\<close>, if the table has one, and nothing otherwise;
  \<^verbatim>\<open>hash_insert\<close> adds \<open>e\<close> exactly if nothing is found and otherwise keeps all elements;
  \<^verbatim>\<open>hash_replace\<close> adds \<open>e\<close> in place of what is found; \<^verbatim>\<open>hash_delete\<close> removes exactly what is found, and
  leaves the table as it is if that is nothing. Each returns what was found, lookups afterwards
  agree, and the table stays well formed.\<close>

theorem hash_insert_delete_find:
  assumes "htab_wf hashf lt h" "hash_contract hashf lt"
  shows "(\<forall>x. hash_find hashf lt e h = Some x \<longleftrightarrow> x \<in># h_elems h \<and> equiv_by lt x e) \<and>
    (case hash_insert hashf lt ok e h of (old, h') \<Rightarrow>
       htab_wf hashf lt h' \<and> old = hash_find hashf lt e h \<and>
       h_elems h' = (if old = None then add_mset e (h_elems h) else h_elems h) \<and>
       hash_find hashf lt e h' = (if old = None then Some e else old)) \<and>
    (case hash_replace hashf lt ok e h of (old, h') \<Rightarrow>
       htab_wf hashf lt h' \<and> old = hash_find hashf lt e h \<and>
       h_elems h' = add_mset e (case old of None \<Rightarrow> h_elems h | Some x \<Rightarrow> h_elems h - {#x#}) \<and>
       hash_find hashf lt e h' = Some e) \<and>
    (case hash_delete hashf lt ok e h of (found, h') \<Rightarrow>
       htab_wf hashf lt h' \<and> found = hash_find hashf lt e h \<and>
       (case found of None \<Rightarrow> h' = h | Some x \<Rightarrow> h_elems h = add_mset x (h_elems h')) \<and>
       hash_find hashf lt e h' = None)"
proof -
  note ord = hash_contract_order [OF assms(2)]
  note fnd = hash_order.hash_find_iff [OF ord] and refl = hash_order.equiv_refl [OF ord, of e]
  have "case hash_insert hashf lt ok e h of (old, h') \<Rightarrow> htab_wf hashf lt h' \<and> old = hash_find hashf lt e h \<and>
       h_elems h' = (if old = None then add_mset e (h_elems h) else h_elems h) \<and>
       hash_find hashf lt e h' = (if old = None then Some e else old)"
  proof (cases "hash_insert hashf lt ok e h")
    case (Pair old h')
    note ins = hash_order.hash_insert_spec [OF ord assms(1) Pair]
    then have wf': "htab_wf hashf lt h'" by simp
    have "hash_find hashf lt e h' = (if old = None then Some e else old)"
    proof (cases old)
      case None
      then have "e \<in># h_elems h'" using ins by simp
      then show ?thesis using None refl fnd [OF wf'] by simp
    next
      case (Some x)
      then have "x \<in># h_elems h' \<and> equiv_by lt x e" using ins fnd [OF assms(1), of e x] by simp
      then show ?thesis using Some fnd [OF wf'] by simp
    qed
    then show ?thesis using Pair ins by simp
  qed
  moreover have "case hash_replace hashf lt ok e h of (old, h') \<Rightarrow> htab_wf hashf lt h' \<and> old = hash_find hashf lt e h \<and>
       h_elems h' = add_mset e (case old of None \<Rightarrow> h_elems h | Some x \<Rightarrow> h_elems h - {#x#}) \<and> hash_find hashf lt e h' = Some e"
    using hash_order.hash_replace_spec [OF ord assms(1)] fnd [where e = e] refl by (auto split: prod.split)
  moreover have "case hash_delete hashf lt ok e h of (found, h') \<Rightarrow> htab_wf hashf lt h' \<and> found = hash_find hashf lt e h \<and>
       (case found of None \<Rightarrow> h' = h | Some x \<Rightarrow> h_elems h = add_mset x (h_elems h')) \<and> hash_find hashf lt e h' = None"
  proof (cases "hash_delete hashf lt ok e h")
    case (Pair found h')
    note del = hash_order.hash_delete_spec [OF ord assms(1) Pair]
    show ?thesis
    proof (cases found)
      case None
      then have "h' = h" using Pair by (auto simp: hash_delete_def Let_def split: option.splits)
      then show ?thesis using None Pair del by auto
    next
      case (Some x)
      then have x: "hash_find hashf lt e h = Some x" "h_elems h' = h_elems h - {#x#}" using del by auto
      then have "x \<in># h_elems h" using fnd [OF assms(1)] by blast
      then have h: "h_elems h = add_mset x (h_elems h')" unfolding x(2) by (rule insert_DiffM [symmetric])
      have wf': "htab_wf hashf lt h'" using del by blast
      have "\<forall>y \<in># h_elems h'. \<not> equiv_by lt y e"
        using hash_order.removed_absent [OF ord assms(1) x(1)] unfolding x(2) by blast
      then have "hash_find hashf lt e h' = None" using hash_order.hash_find_spec(1) [OF ord wf', of e] by blast
      then show ?thesis unfolding Pair prod.case Some option.case using h wf' x(1) by metis
    qed
  qed
  ultimately show ?thesis using fnd [OF assms(1), of e] by blast
qed

theorem hash_insert_delete_find_witness:
  "\<exists>h. hash_init True = Some h \<and>
     (case hash_insert (\<lambda>e. e div 2) (\<lambda>a b. a div 2 < b div 2) True (7 :: nat) h of (old, h') \<Rightarrow> old = None \<and> h_elems h' = {#7#}) \<and>
     (case hash_delete (\<lambda>e. e div 2) (\<lambda>a b. a div 2 < b div 2) True 7 h of (found, h') \<Rightarrow> found = None \<and> h' = h)"
proof -
  obtain h where h: "hash_init True = Some (h :: nat htab)" by (simp add: hash_init_def)
  define lt :: "nat \<Rightarrow> nat \<Rightarrow> bool" where "lt = (\<lambda>a b. a div 2 < b div 2)"
  define hf :: "nat \<Rightarrow> nat" where "hf = (\<lambda>e. e div 2)"
  have c: "hash_contract hf lt" by (auto simp: hash_contract_def strict_weak_def equiv_by_def lt_def hf_def)
  have w: "htab_wf hf lt h" "h_elems h = {#}" using hash_init_wf [OF h] by auto
  note r = hash_insert_delete_find [OF w(1) c, of 7 True]
  then have "hash_find hf lt 7 h = None" using w(2) by (cases "hash_find hf lt 7 h") auto
  with r w(2) h show ?thesis by (auto simp: lt_def hf_def split: prod.splits)
qed

text \<open>C16: an iteration with \<^verbatim>\<open>hash_first\<close> and \<^verbatim>\<open>hash_next\<close> returns every element of the table exactly
  once and then reports the end, in the order in which \<^verbatim>\<open>hash_apply\<close> visits them.\<close>

theorem hash_iteration_complete:
  assumes "htab_wf hashf lt h" "h_elem_cnt h \<le> n"
  shows "mset (iterate n h (hash_first h)) = h_elems h \<and> distinct (iterate n h (hash_first h)) \<and>
    iterate n h (hash_first h) = hash_apply h"
proof -
  have l: "length (h_buckets h) = h_bucket_cnt h" "0 < h_bucket_cnt h" using assms by (auto simp: htab_wf_def)
  have "h_buckets h = h_buckets h ! 0 # drop 1 (h_buckets h)"
    using l by (metis Cons_nth_drop_Suc One_nat_def drop_0)
  then have rem: "it_remaining h (hash_first h) = concat (h_buckets h)"
    by (metis (no_types) One_nat_def add_0 concat.simps(2) hash_first_def hash_iterator.select_convs it_remaining_def)
  have "length (it_remaining h (hash_first h)) \<le> n" using assms rem by (simp add: htab_wf_def h_elems_def)
  then have "iterate n h (hash_first h) = concat (h_buckets h)"
    using iterate_remaining [OF l(1), of "hash_first h" n] l(2) rem by (simp add: hash_first_def)
  moreover have "hash_apply h = concat (h_buckets h)"
    unfolding hash_apply_def l(1) [symmetric] map_nth ..
  ultimately show ?thesis using assms by (simp add: htab_wf_def h_elems_def)
qed

theorem hash_iteration_complete_witness:
  "iterate 3 \<lparr>h_elem_cnt = 2, h_bucket_cnt = 4, h_buckets = [[], [5], [], [3 :: nat]]\<rparr>
     (hash_first \<lparr>h_elem_cnt = 2, h_bucket_cnt = 4, h_buckets = [[], [5], [], [3]]\<rparr>) = [5, 3]"
proof -
  let ?h = "\<lparr>h_elem_cnt = 2, h_bucket_cnt = 4, h_buckets = [[], [5], [], [3 :: nat]]\<rparr>"
  have "\<exists>k. (4 :: nat) = 2 ^ k" by (rule exI [of _ 2]) simp
  moreover have "b < 4 \<Longrightarrow> b = 0 \<or> b = 1 \<or> b = 2 \<or> b = (3 :: nat)" for b by linarith
  ultimately have "htab_wf (\<lambda>e. e) (<) ?h"
    by (fastforce simp: htab_wf_def h_elems_def equiv_by_def)
  from hash_iteration_complete [OF this, of 3] show ?thesis
    by (simp add: hash_apply_def upt_rec numeral_eq_Suc)
qed

end
