(* ===== verification/Cstring.thy ===== *)
theory Cstring
  imports Prelude
begin

text \<open>
  The string library of \<^verbatim>\<open>lib/string.c\<close>: block operations (\<open>memcpy\<close>, \<open>memmove\<close>,
  \<open>memcmp\<close>, \<open>memchr\<close>, \<open>memset\<close>) and operations on zero-terminated strings.

  Memory is a function from byte addresses to bytes. A pointer is an address, the null
  pointer is 0. C gives pointer arithmetic that leaves the object no meaning, so addresses
  do not wrap; lengths of type \<^verbatim>\<open>size_t\<close> that the code adds up do. A loop over a string
  ends only if the string has a terminator, so these loops are defined with
  \<^theory_text>\<open>partial_function\<close> and \<open>None\<close> also stands for a loop that runs on.

  \<open>str_at m p s\<close> says that the bytes \<open>s\<close>, followed by a terminator, are stored at \<open>p\<close>.
  The lemmas give the result of each function on such strings; the properties show
  that \<open>memmove\<close> is correct for overlapping blocks, that \<open>strlcpy\<close> and \<open>strlcat\<close> never
  write past the size they are given and always terminate the string, and that a loop of
  \<open>strtok_r\<close> calls computes the reference function \<open>tokens\<close>.
\<close>

type_synonym mem8 = "nat \<Rightarrow> u8"

section \<open>Blocks\<close>

fun copy_up :: "nat \<Rightarrow> nat \<Rightarrow> nat \<Rightarrow> mem8 \<Rightarrow> nat \<times> mem8" where
  "copy_up 0 dst src m = (dst, m)"
| "copy_up (Suc sz) dst src m = copy_up sz (dst + 1) (src + 1) (m(dst := m src))"

fun copy_down :: "nat \<Rightarrow> nat \<Rightarrow> nat \<Rightarrow> mem8 \<Rightarrow> nat \<times> mem8" where
  "copy_down 0 dst src m = (dst, m)"
| "copy_down (Suc sz) dst src m = copy_down sz (dst - 1) (src - 1) (m(dst - 1 := m (src - 1)))"

definition memcpy :: "nat \<Rightarrow> nat \<Rightarrow> nat \<Rightarrow> mem8 \<Rightarrow> (nat \<times> mem8) option" where
  "memcpy dst src sz m = do {
     ASSERT (dst \<noteq> 0 \<or> sz = 0);
     ASSERT (src \<noteq> 0 \<or> sz = 0);
     Some (dst, snd (copy_up sz dst src m)) }"

definition memmove :: "nat \<Rightarrow> nat \<Rightarrow> nat \<Rightarrow> mem8 \<Rightarrow> (nat \<times> mem8) option" where
  "memmove dst src sz m = do {
     ASSERT (dst \<noteq> 0 \<or> sz = 0);
     ASSERT (src \<noteq> 0 \<or> sz = 0);
     Some (if dst < src then copy_up sz dst src m
           else copy_down sz (dst + sz) (src + sz) m) }"

fun memcmp_loop :: "nat \<Rightarrow> nat \<Rightarrow> nat \<Rightarrow> mem8 \<Rightarrow> int" where
  "memcmp_loop 0 a b m = 0"
| "memcmp_loop (Suc sz) a b m =
     (if m a \<noteq> m b then (if m a > m b then 1 else - 1) else memcmp_loop sz (a + 1) (b + 1) m)"

definition memcmp :: "nat \<Rightarrow> nat \<Rightarrow> nat \<Rightarrow> mem8 \<Rightarrow> int option" where
  "memcmp a b sz m = do {
     ASSERT (a \<noteq> 0 \<or> sz = 0);
     ASSERT (b \<noteq> 0 \<or> sz = 0);
     Some (memcmp_loop sz a b m) }"

fun memchr_loop :: "nat \<Rightarrow> nat \<Rightarrow> u8 \<Rightarrow> mem8 \<Rightarrow> nat" where
  "memchr_loop 0 block ch m = 0"
| "memchr_loop (Suc sz) block ch m =
     (if m block = ch then block else memchr_loop sz (block + 1) ch m)"

definition memchr :: "nat \<Rightarrow> int \<Rightarrow> nat \<Rightarrow> mem8 \<Rightarrow> nat option" where
  "memchr block ch sz m = do {
     ASSERT (block \<noteq> 0 \<or> sz = 0);
     Some (memchr_loop sz block (word_of_int ch) m) }"

fun memset_loop :: "nat \<Rightarrow> nat \<Rightarrow> u8 \<Rightarrow> mem8 \<Rightarrow> mem8" where
  "memset_loop 0 dst v m = m"
| "memset_loop (Suc sz) dst v m = memset_loop sz (dst + 1) v (m(dst := v))"

definition memset :: "nat \<Rightarrow> int \<Rightarrow> nat \<Rightarrow> mem8 \<Rightarrow> (nat \<times> mem8) option" where
  "memset dst value sz m = do {
     ASSERT (dst \<noteq> 0 \<or> sz = 0);
     Some (dst, memset_loop sz dst (word_of_int value) m) }"

section \<open>Strings\<close>

partial_function (option) strcmp_loop :: "nat \<Rightarrow> nat \<Rightarrow> mem8 \<Rightarrow> int option" where
  "strcmp_loop a b m =
     (if m a \<noteq> 0 \<and> m a = m b then strcmp_loop (a + 1) (b + 1) m
      else Some (if m a < m b then - 1 else of_bool (m a > m b)))"

definition strcmp :: "nat \<Rightarrow> nat \<Rightarrow> mem8 \<Rightarrow> int option" where
  "strcmp a b m = do { ASSERT (a \<noteq> 0); ASSERT (b \<noteq> 0); strcmp_loop a b m }"

partial_function (option) strchr_loop :: "nat \<Rightarrow> u8 \<Rightarrow> mem8 \<Rightarrow> nat option" where
  "strchr_loop string c m =
     (if m string = c then Some string
      else if m string = 0 then Some 0
      else strchr_loop (string + 1) c m)"

definition strchr :: "nat \<Rightarrow> int \<Rightarrow> mem8 \<Rightarrow> nat option" where
  "strchr string c m = do { ASSERT (string \<noteq> 0); strchr_loop string (word_of_int c) m }"

partial_function (option) strcspn_loop :: "nat \<Rightarrow> nat \<Rightarrow> nat \<Rightarrow> mem8 \<Rightarrow> nat option" where
  "strcspn_loop len string stop m =
     (if m (string + len) \<noteq> 0 then do {
        r \<leftarrow> strchr stop (sint (m (string + len))) m;
        if r \<noteq> 0 then Some len else strcspn_loop (len + 1) string stop m }
      else Some len)"

definition strcspn :: "nat \<Rightarrow> nat \<Rightarrow> mem8 \<Rightarrow> nat option" where
  "strcspn = strcspn_loop 0"

partial_function (option) strpbrk :: "nat \<Rightarrow> nat \<Rightarrow> mem8 \<Rightarrow> nat option" where
  "strpbrk string stop m =
     (if m string \<noteq> 0 then do {
        r \<leftarrow> strchr stop (sint (m string)) m;
        if r \<noteq> 0 then Some string else strpbrk (string + 1) stop m }
      else Some 0)"

partial_function (option) strrchr_loop :: "nat \<Rightarrow> u8 \<Rightarrow> nat \<Rightarrow> mem8 \<Rightarrow> nat option" where
  "strrchr_loop string c p m =
     (if m string \<noteq> 0 then strrchr_loop (string + 1) c (if m string = c then string else p) m
      else Some p)"

definition strrchr :: "nat \<Rightarrow> int \<Rightarrow> mem8 \<Rightarrow> nat option" where
  "strrchr string c m = strrchr_loop string (word_of_int c) 0 m"

partial_function (option) strspn_loop :: "nat \<Rightarrow> nat \<Rightarrow> nat \<Rightarrow> mem8 \<Rightarrow> nat option" where
  "strspn_loop len string skip m =
     (if m (string + len) \<noteq> 0 then do {
        r \<leftarrow> strchr skip (sint (m (string + len))) m;
        if r = 0 then Some len else strspn_loop (len + 1) string skip m }
      else Some len)"

definition strspn :: "nat \<Rightarrow> nat \<Rightarrow> mem8 \<Rightarrow> nat option" where
  "strspn = strspn_loop 0"

partial_function (option) strlen_loop :: "nat \<Rightarrow> mem8 \<Rightarrow> nat option" where
  "strlen_loop p m = (if m p \<noteq> 0 then strlen_loop (p + 1) m else Some p)"

definition strlen :: "nat \<Rightarrow> mem8 \<Rightarrow> nat option" where
  "strlen string m = do { ASSERT (string \<noteq> 0); p \<leftarrow> strlen_loop string m; Some (p - string) }"

partial_function (option) strnlen_loop :: "nat \<Rightarrow> nat \<Rightarrow> nat \<Rightarrow> mem8 \<Rightarrow> nat option" where
  "strnlen_loop len string maxlen m =
     (if m (string + len) \<noteq> 0 \<and> len < maxlen then strnlen_loop (len + 1) string maxlen m
      else Some len)"

definition strnlen :: "nat \<Rightarrow> nat \<Rightarrow> mem8 \<Rightarrow> nat option" where
  "strnlen = strnlen_loop 0"

text \<open>The loop of \<open>strstr\<close> over \<open>i \<le> lst\<close>.\<close>

function strstr_loop :: "nat \<Rightarrow> nat \<Rightarrow> nat \<Rightarrow> nat \<Rightarrow> nat \<Rightarrow> mem8 \<Rightarrow> nat option" where
  "strstr_loop i lst haystack needle needle_len m =
     (if i \<le> lst then do {
        r \<leftarrow> memcmp (haystack + i) needle needle_len m;
        if r = 0 then Some (haystack + i)
        else strstr_loop (i + 1) lst haystack needle needle_len m }
      else Some 0)"
  by auto
termination by (relation "measure (\<lambda>(i, lst, _). Suc lst - i)") auto

definition strstr :: "nat \<Rightarrow> nat \<Rightarrow> mem8 \<Rightarrow> nat option" where
  "strstr haystack needle m = do {
     haystack_len \<leftarrow> strlen haystack m;
     needle_len \<leftarrow> strlen needle m;
     if haystack_len \<ge> needle_len
     then strstr_loop 0 (haystack_len - needle_len) haystack needle needle_len m
     else Some 0 }"

text \<open>
  \<open>strtok_r\<close>: the first loop returns \<open>(True, s)\<close> for the early return at the terminator.
  \<open>save_ptr\<close> is \<open>None\<close> for a null pointer and \<open>Some v\<close> for a variable that holds \<open>v\<close>; the
  result is the token, the new value of that variable and the memory.
\<close>

partial_function (option) strtok_skip :: "nat \<Rightarrow> nat \<Rightarrow> mem8 \<Rightarrow> (bool \<times> nat) option" where
  "strtok_skip s delimiters m = do {
     r \<leftarrow> strchr delimiters (sint (m s)) m;
     if r \<noteq> 0 then (if m s = 0 then Some (True, s) else strtok_skip (s + 1) delimiters m)
     else Some (False, s) }"

partial_function (option) strtok_span :: "nat \<Rightarrow> nat \<Rightarrow> mem8 \<Rightarrow> nat option" where
  "strtok_span s delimiters m = do {
     r \<leftarrow> strchr delimiters (sint (m s)) m;
     if r = 0 then strtok_span (s + 1) delimiters m else Some s }"

definition strtok_r :: "nat \<Rightarrow> nat \<Rightarrow> nat option \<Rightarrow> mem8 \<Rightarrow> (nat \<times> nat \<times> mem8) option" where
  "strtok_r s delimiters save_ptr m = do {
     ASSERT (delimiters \<noteq> 0);
     save \<leftarrow> save_ptr;
     let s = (if s = 0 then save else s);
     ASSERT (s \<noteq> 0);
     (fin, s) \<leftarrow> strtok_skip s delimiters m;
     if fin then Some (0, s, m)
     else do {
       let token = s;
       s \<leftarrow> strtok_span s delimiters m;
       if m s \<noteq> 0 then Some (token, s + 1, m(s := 0)) else Some (token, s, m) } }"

definition strlcpy :: "nat \<Rightarrow> nat \<Rightarrow> nat \<Rightarrow> mem8 \<Rightarrow> (nat \<times> mem8) option" where
  "strlcpy dst src sz m = do {
     ASSERT (dst \<noteq> 0);
     ASSERT (src \<noteq> 0);
     src_len \<leftarrow> strlen src m;
     if sz > 0 then do {
       let dst_len = (if src_len < sz - 1 then src_len else sz - 1);
       (_, m) \<leftarrow> memcpy dst src dst_len m;
       Some (src_len, m(dst + dst_len := 0)) }
     else Some (src_len, m) }"

definition strlcat :: "nat \<Rightarrow> nat \<Rightarrow> nat \<Rightarrow> mem8 \<Rightarrow> (nat \<times> mem8) option" where
  "strlcat dst src sz m = do {
     ASSERT (dst \<noteq> 0);
     ASSERT (src \<noteq> 0);
     src_len \<leftarrow> strlen src m;
     dst_len \<leftarrow> strlen dst m;
     if sz > 0 \<and> dst_len < sz then do {
       let copy_cnt = (if src_len < sz - dst_len - 1 then src_len else sz - dst_len - 1);
       (_, m) \<leftarrow> memcpy (dst + dst_len) src copy_cnt m;
       Some ((src_len + dst_len) mod 2 ^ 32, m(dst + dst_len + copy_cnt := 0)) }
     else Some ((src_len + dst_len) mod 2 ^ 32, m) }"

section \<open>Block operations are correct\<close>

definition block :: "mem8 \<Rightarrow> nat \<Rightarrow> nat \<Rightarrow> u8 list" where
  "block m p n = map m [p..<p + n]"

lemma block_simps [simp]: "block m p 0 = []" "length (block m p n) = n"
  "block m p (Suc n) = m p # block m (Suc p) n"
  by (simp_all add: block_def upt_conv_Cons del: upt_Suc)

lemma block_nth [simp]: "i < n \<Longrightarrow> block m p n ! i = m (p + i)"
  by (simp add: block_def)

lemma block_cong: "(\<And>i. p \<le> i \<Longrightarrow> i < p + n \<Longrightarrow> m i = m' i) \<Longrightarrow> block m p n = block m' p n"
  by (simp add: block_def)

lemma copy_up_correct:
  "dst \<le> src \<or> src + sz \<le> dst \<Longrightarrow>
   copy_up sz dst src m
     = (dst + sz, \<lambda>a. if dst \<le> a \<and> a < dst + sz then m (src + (a - dst)) else m a)"
proof (induction sz dst src m rule: copy_up.induct)
  case (2 sz dst src m)
  have IH: "copy_up sz (dst + 1) (src + 1) (m(dst := m src))
     = (dst + 1 + sz, \<lambda>a. if dst + 1 \<le> a \<and> a < dst + 1 + sz
          then (m(dst := m src)) (src + 1 + (a - (dst + 1))) else (m(dst := m src)) a)"
    by (rule 2(1)) (use 2(2) in linarith)
  show ?case unfolding copy_up.simps IH using 2(2) by (auto simp: fun_eq_iff Suc_diff_Suc)
qed (auto simp: fun_eq_iff)

lemma copy_down_correct:
  "src \<le> dst \<Longrightarrow>
   copy_down sz (dst + sz) (src + sz) m
     = (dst, \<lambda>a. if dst \<le> a \<and> a < dst + sz then m (src + (a - dst)) else m a)"
proof (induction sz arbitrary: m)
  case (Suc sz)
  have "copy_down (Suc sz) (dst + Suc sz) (src + Suc sz) m
      = copy_down sz (dst + sz) (src + sz) (m(dst + sz := m (src + sz)))" by simp
  then show ?case unfolding Suc(1)[OF Suc(2)] using Suc(2) by (auto simp: fun_eq_iff)
qed (auto simp: fun_eq_iff)

lemma memcpy_correct:
  assumes "dst \<noteq> 0" "src \<noteq> 0" "dst \<le> src \<or> src + sz \<le> dst"
  shows "memcpy dst src sz m
     = Some (dst, \<lambda>a. if dst \<le> a \<and> a < dst + sz then m (src + (a - dst)) else m a)"
  using assms by (simp add: memcpy_def copy_up_correct)

lemma memset_correct:
  "memset_loop sz dst v m = (\<lambda>a. if dst \<le> a \<and> a < dst + sz then v else m a)"
  by (induction sz arbitrary: dst m) (auto simp: fun_eq_iff)

lemma memcmp_eq_0: "memcmp_loop sz a b m = 0 \<longleftrightarrow> block m a sz = block m b sz"
  by (induction sz a b m rule: memcmp_loop.induct) auto

lemma memcmp_trichotomy:
  "memcmp_loop sz a b m \<in> {- 1, 0, 1}"
  by (induction sz a b m rule: memcmp_loop.induct) auto

lemma memchr_loop_correct:
  "0 < p \<Longrightarrow> memchr_loop sz p ch m =
     (if ch \<in> set (block m p sz) then p + length (takeWhile (\<lambda>x. x \<noteq> ch) (block m p sz)) else 0)"
  by (induction sz p ch m rule: memchr_loop.induct) auto

text \<open>\<open>memmove\<close> moves the block to the destination whatever way the two blocks overlap and
  changes nothing else. The pointer it returns is the destination only when the block moves up;
  when it moves down the pointer has been advanced past the block.\<close>

theorem memmove_correct:
  assumes "dst \<noteq> 0" "src \<noteq> 0"
  shows "\<exists>m'. memmove dst src sz m = Some (if dst < src then dst + sz else dst, m')
      \<and> block m' dst sz = block m src sz
      \<and> (\<forall>a. a < dst \<or> dst + sz \<le> a \<longrightarrow> m' a = m a)"
proof -
  have "memmove dst src sz m = Some (if dst < src then dst + sz else dst,
      \<lambda>a. if dst \<le> a \<and> a < dst + sz then m (src + (a - dst)) else m a)"
    using assms by (simp add: memmove_def copy_up_correct copy_down_correct)
  then show ?thesis by (auto intro!: nth_equalityI)
qed

theorem memmove_correct_witness:
  "\<exists>m'. memmove 4 2 5 (\<lambda>a. word_of_nat a) = Some (4, m')
     \<and> block m' 4 5 = [2, 3, 4, 5, 6] \<and> m' 3 = 3 \<and> m' 9 = 9"
  using memmove_correct [of 4 2 5 "\<lambda>a. word_of_nat a"]
  by (auto simp: numeral_eq_Suc)

section \<open>Strings in memory\<close>

primrec str_at :: "mem8 \<Rightarrow> nat \<Rightarrow> u8 list \<Rightarrow> bool" where
  "str_at m p [] \<longleftrightarrow> m p = 0"
| "str_at m p (x # s) \<longleftrightarrow> m p = x \<and> x \<noteq> 0 \<and> str_at m (Suc p) s"

lemma str_at_block: "str_at m p s \<longleftrightarrow> block m p (length s) = s \<and> 0 \<notin> set s \<and> m (p + length s) = 0"
  by (induction s arbitrary: p) auto

lemma str_at_cong:
  "(\<And>i. p \<le> i \<Longrightarrow> i \<le> p + length s \<Longrightarrow> m i = m' i) \<Longrightarrow> str_at m p s = str_at m' p s"
  by (induction s arbitrary: p) auto

lemma str_at_nonzero: "str_at m p s \<Longrightarrow> 0 \<notin> set s"
  by (simp add: str_at_block)

lemma str_at_append: "str_at m p (s @ t) \<Longrightarrow> str_at m (p + length s) t"
  by (induction s arbitrary: p) (auto simp flip: add_Suc)

lemma str_at_unique: "str_at m p s \<Longrightarrow> str_at m p t \<Longrightarrow> s = t"
proof (induction s arbitrary: p t)
  case Nil then show ?case by (cases t) auto
next
  case (Cons x s) then show ?case by (cases t) auto
qed

lemma char_of_int [simp]: "word_of_int (sint (x :: u8)) = x"
  by simp

lemma strlen_loop_str: "str_at m p s \<Longrightarrow> strlen_loop p m = Some (p + length s)"
  by (induction s arbitrary: p) (simp_all add: strlen_loop.simps)

lemma strlen_str: "str_at m p s \<Longrightarrow> p \<noteq> 0 \<Longrightarrow> strlen p m = Some (length s)"
  by (simp add: strlen_def strlen_loop_str)

lemma strnlen_loop_str:
  "str_at m (p + n) s \<Longrightarrow> n \<le> maxlen \<Longrightarrow>
   strnlen_loop n p maxlen m = Some (min (n + length s) maxlen)"
proof (induction s arbitrary: n)
  case (Cons x s)
  then show ?case by (subst strnlen_loop.simps) auto
qed (simp add: strnlen_loop.simps)

lemma strcmp_loop_str:
  "str_at m a s \<Longrightarrow> str_at m b t \<Longrightarrow> \<exists>r. strcmp_loop a b m = Some r \<and> (r = 0 \<longleftrightarrow> s = t)
     \<and> (r < 0 \<longleftrightarrow> (s, t) \<in> lexord {(x, y). x < y}) \<and> r \<in> {- 1, 0, 1}"
proof (induction s arbitrary: a b t)
  case Nil
  then show ?case by (cases t) (auto simp: strcmp_loop.simps word_gt_0)
next
  case (Cons x s)
  then show ?case
    by (cases t) (auto simp: strcmp_loop.simps word_gt_0 not_less)
qed

lemma strchr_loop_str:
  "str_at m p s \<Longrightarrow> strchr_loop p c m =
     Some (if c \<in> set (s @ [0]) then p + length (takeWhile (\<lambda>x. x \<noteq> c) (s @ [0])) else 0)"
  by (induction s arbitrary: p) (auto simp: strchr_loop.simps)

lemma strchr_found:
  assumes "str_at m d ds" "d \<noteq> 0"
  obtains r where "strchr d (sint c) m = Some r" "r \<noteq> 0 \<longleftrightarrow> c \<in> set ds \<or> c = 0"
  using assms by (auto simp: strchr_def strchr_loop_str)

lemma strspn_loop_str:
  "str_at m (p + n) s \<Longrightarrow> str_at m d ds \<Longrightarrow> d \<noteq> 0 \<Longrightarrow>
   strspn_loop n p d m = Some (n + length (takeWhile (\<lambda>x. x \<in> set ds) s))"
proof (induction s arbitrary: n)
  case (Cons x s)
  obtain r where "strchr d (sint x) m = Some r" "r \<noteq> 0 \<longleftrightarrow> x \<in> set ds \<or> x = 0"
    using strchr_found [OF Cons(3,4)] .
  then show ?case using Cons by (subst strspn_loop.simps) auto
qed (simp add: strspn_loop.simps)

lemma strcspn_loop_str:
  "str_at m (p + n) s \<Longrightarrow> str_at m d ds \<Longrightarrow> d \<noteq> 0 \<Longrightarrow>
   strcspn_loop n p d m = Some (n + length (takeWhile (\<lambda>x. x \<notin> set ds) s))"
proof (induction s arbitrary: n)
  case (Cons x s)
  obtain r where "strchr d (sint x) m = Some r" "r \<noteq> 0 \<longleftrightarrow> x \<in> set ds \<or> x = 0"
    using strchr_found [OF Cons(3,4)] .
  then show ?case using Cons by (subst strcspn_loop.simps) auto
qed (simp add: strcspn_loop.simps)

lemma strpbrk_str:
  "str_at m p s \<Longrightarrow> str_at m d ds \<Longrightarrow> d \<noteq> 0 \<Longrightarrow> strpbrk p d m =
     Some (if \<exists>x\<in>set s. x \<in> set ds then p + length (takeWhile (\<lambda>x. x \<notin> set ds) s) else 0)"
proof (induction s arbitrary: p)
  case (Cons x s)
  obtain r where "strchr d (sint x) m = Some r" "r \<noteq> 0 \<longleftrightarrow> x \<in> set ds \<or> x = 0"
    using strchr_found [OF Cons(3,4)] .
  then show ?case using Cons by (subst strpbrk.simps) auto
qed (simp add: strpbrk.simps)

lemma strrchr_loop_str:
  "str_at m p s \<Longrightarrow> c \<noteq> 0 \<Longrightarrow> strrchr_loop p c q m =
     Some (if c \<in> set s then p + length s - 1 - length (takeWhile (\<lambda>x. x \<noteq> c) (rev s)) else q)"
proof (induction s arbitrary: p q)
  case (Cons x s)
  then show ?case
    by (subst strrchr_loop.simps) (auto simp: takeWhile_append takeWhile_eq_all_conv [THEN iffD2])
qed (simp add: strrchr_loop.simps)

lemma block_take_drop:
  assumes "block m p (length s) = s" "i + n \<le> length s"
  shows "block m (p + i) n = take n (drop i s)"
proof (rule nth_equalityI)
  fix j assume "j < length (block m (p + i) n)"
  then have j: "j < n" by simp
  then have "block m p (length s) ! (i + j) = m (p + (i + j))" using assms(2) by simp
  then show "block m (p + i) n ! j = take n (drop i s) ! j"
    using j assms by (simp add: add.assoc)
qed (use assms in simp)

lemma strstr_loop_str:
  assumes "block m h (length hs) = hs" "block m n (length ns) = ns" "h \<noteq> 0" "n \<noteq> 0"
    and "lst + length ns = length hs"
  shows "i \<le> Suc lst \<Longrightarrow> \<exists>r. strstr_loop i lst h n (length ns) m = Some r
     \<and> (r = 0 \<and> (\<forall>j. i \<le> j \<and> j \<le> lst \<longrightarrow> take (length ns) (drop j hs) \<noteq> ns)
       \<or> (\<exists>k. i \<le> k \<and> k \<le> lst \<and> r = h + k \<and> take (length ns) (drop k hs) = ns
           \<and> (\<forall>j. i \<le> j \<and> j < k \<longrightarrow> take (length ns) (drop j hs) \<noteq> ns)))"
proof (induction "Suc lst - i" arbitrary: i)
  case 0
  then show ?case by (subst strstr_loop.simps) auto
next
  case (Suc k)
  then have le: "i \<le> lst" by simp
  have eq: "block m (h + i) (length ns) = take (length ns) (drop i hs)"
    using assms(1,5) le by (intro block_take_drop) auto
  have cmp: "memcmp (h + i) n (length ns) m = Some (memcmp_loop (length ns) (h + i) n m)"
    using assms(3,4) by (simp add: memcmp_def)
  show ?case
  proof (cases "take (length ns) (drop i hs) = ns")
    case True
    then have "strstr_loop i lst h n (length ns) m = Some (h + i)"
      using le cmp eq assms(2) by (subst strstr_loop.simps) (simp add: memcmp_eq_0)
    then show ?thesis using le True by (intro exI conjI disjI2) auto
  next
    case False
    then have "strstr_loop i lst h n (length ns) m = strstr_loop (i + 1) lst h n (length ns) m"
      using le cmp eq assms(2) by (subst strstr_loop.simps) (simp add: memcmp_eq_0)
    moreover have "\<And>j. i \<le> j \<longleftrightarrow> j = i \<or> i + 1 \<le> j" by auto
    ultimately show ?thesis using Suc(1) [of "i + 1"] Suc(2) le False by fastforce
  qed
qed

lemma strstr_str:
  assumes "str_at m h hs" "str_at m n ns" "h \<noteq> 0" "n \<noteq> 0"
  obtains "strstr h n m = Some 0" "\<And>j. take (length ns) (drop j hs) \<noteq> ns"
  | k where "strstr h n m = Some (h + k)" "take (length ns) (drop k hs) = ns"
      "\<And>j. j < k \<Longrightarrow> take (length ns) (drop j hs) \<noteq> ns"
proof (cases "length ns \<le> length hs")
  case True
  have short: "take (length ns) (drop j hs) \<noteq> ns" if "length hs - length ns < j" "ns \<noteq> []" for j
  proof
    assume "take (length ns) (drop j hs) = ns"
    from arg_cong [OF this, of length] show False using that True
      by (cases ns) auto
  qed
  have eq: "strstr h n m = strstr_loop 0 (length hs - length ns) h n (length ns) m"
    using assms True by (simp add: strstr_def strlen_str)
  consider (none) "strstr h n m = Some 0"
      "\<forall>j. j \<le> length hs - length ns \<longrightarrow> take (length ns) (drop j hs) \<noteq> ns"
    | (found) k where "strstr h n m = Some (h + k)" "take (length ns) (drop k hs) = ns"
      "\<forall>j < k. take (length ns) (drop j hs) \<noteq> ns"
    using strstr_loop_str [of m h hs n ns "length hs - length ns" 0] assms True
    unfolding eq by (auto simp: str_at_block)
  then show ?thesis
  proof cases
    case none
    then have "ns \<noteq> []" by auto
    then show ?thesis using that(1) none short by (meson not_le_imp_less)
  next
    case found
    then show ?thesis using that(2) by blast
  qed
next
  case False
  have "take (length ns) (drop j hs) \<noteq> ns" for j
    using False by (metis length_drop length_take min.cobounded1 diff_le_self dual_order.trans min.cobounded2)
  then show ?thesis using that(1) assms False by (simp add: strstr_def strlen_str)
qed

section \<open>Bounded copies\<close>

definition copied :: "nat \<Rightarrow> nat \<Rightarrow> nat \<Rightarrow> mem8 \<Rightarrow> mem8" where
  "copied dst src n m a =
     (if a = dst + n then 0 else if dst \<le> a \<and> a < dst + n then m (src + (a - dst)) else m a)"

lemma str_at_copied:
  assumes "str_at m src s" "n \<le> length s"
  shows "str_at (copied dst src n m) dst (take n s)"
proof -
  have b: "block m src n = take n s"
    using block_take_drop [of m src s 0 n] assms by (simp add: str_at_block)
  have "block (copied dst src n m) dst n = take n s"
    unfolding b [symmetric] by (rule nth_equalityI) (auto simp: copied_def)
  then show ?thesis using assms by (auto simp: str_at_block copied_def dest: in_set_takeD)
qed

lemma copied_frame [simp]: "a < dst \<or> dst + n < a \<Longrightarrow> copied dst src n m a = m a"
  by (auto simp: copied_def)

lemma memcpy_copied:
  assumes "dst \<noteq> 0" "src \<noteq> 0" "dst + n < src \<or> src + n \<le> dst"
  shows "do { (_, m) \<leftarrow> memcpy dst src n m; Some (r, m(dst + n := 0)) } = Some (r, copied dst src n m)"
proof -
  have "(\<lambda>a. if dst \<le> a \<and> a < dst + n then m (src + (a - dst)) else m a)(dst + n := 0)
      = copied dst src n m" by (auto simp: copied_def fun_eq_iff)
  moreover have "memcpy dst src n m
      = Some (dst, \<lambda>a. if dst \<le> a \<and> a < dst + n then m (src + (a - dst)) else m a)"
    using assms by (intro memcpy_correct) auto
  ultimately show ?thesis by simp
qed

lemma strlcpy_str:
  assumes "str_at m src s" "dst \<noteq> 0" "src \<noteq> 0" "0 < sz"
    and "dst + sz \<le> src \<or> src + length s < dst"
  shows "strlcpy dst src sz m = Some (length s, copied dst src (min (length s) (sz - 1)) m)"
proof -
  have "(if length s < sz - 1 then length s else sz - 1) = min (length s) (sz - 1)" by simp
  moreover have "dst + min (length s) (sz - 1) < src \<or> src + min (length s) (sz - 1) \<le> dst"
    using assms(4,5) by auto
  ultimately show ?thesis using assms(1-4)
    by (simp add: strlcpy_def strlen_str memcpy_copied Let_def split del: if_split)
qed

lemma strlcat_str:
  assumes "str_at m src s" "str_at m dst d" "dst \<noteq> 0" "src \<noteq> 0" "length d < sz"
    and "dst + sz \<le> src \<or> src + length s < dst"
  shows "strlcat dst src sz m = Some ((length s + length d) mod 2 ^ 32,
     copied (dst + length d) src (min (length s) (sz - length d - 1)) m)"
proof -
  have "(if length s < sz - length d - 1 then length s else sz - length d - 1)
      = min (length s) (sz - length d - 1)" by simp
  moreover have "dst + length d + min (length s) (sz - length d - 1) < src
      \<or> src + min (length s) (sz - length d - 1) \<le> dst + length d"
    using assms(5,6) by auto
  ultimately show ?thesis using assms(1-5)
    by (simp add: strlcat_def strlen_str memcpy_copied Let_def split del: if_split)
qed

lemma str_at_appendI:
  "block m p (length s) = s \<Longrightarrow> 0 \<notin> set s \<Longrightarrow> str_at m (p + length s) t \<Longrightarrow> str_at m p (s @ t)"
  by (induction s arbitrary: p) auto

text \<open>C24: \<open>strlcpy\<close> and \<open>strlcat\<close> with a buffer of \<open>sz\<close> bytes that does not overlap the source
  leave a terminated string in it, the source (for \<open>strlcat\<close> appended to the old contents) cut to
  \<open>sz - 1\<close> characters; they write no byte outside the buffer, and the length they return tells
  whether the string was cut.\<close>

theorem strlcpy_strlcat_bounded:
  assumes src: "str_at m src s" "src \<noteq> 0" and dst: "str_at m dst d" "dst \<noteq> 0" "length d < sz"
    and disj: "dst + sz \<le> src \<or> src + length s < dst"
  shows "(\<exists>m'. strlcpy dst src sz m = Some (length s, m') \<and> str_at m' dst (take (sz - 1) s)
      \<and> (\<forall>a. a < dst \<or> dst + sz \<le> a \<longrightarrow> m' a = m a))
    \<and> (\<exists>m'. strlcat dst src sz m = Some ((length s + length d) mod 2 ^ 32, m')
      \<and> str_at m' dst (take (sz - 1) (d @ s))
      \<and> (\<forall>a. a < dst \<or> dst + sz \<le> a \<longrightarrow> m' a = m a))"
proof (intro conjI)
  have "take (min (length s) (sz - 1)) s = take (sz - 1) s" by (simp add: min_def)
  then have "str_at (copied dst src (min (length s) (sz - 1)) m) dst (take (sz - 1) s)"
    using str_at_copied [OF src(1), of "min (length s) (sz - 1)" dst] by simp
  then show "\<exists>m'. strlcpy dst src sz m = Some (length s, m') \<and> str_at m' dst (take (sz - 1) s)
      \<and> (\<forall>a. a < dst \<or> dst + sz \<le> a \<longrightarrow> m' a = m a)"
    using strlcpy_str [OF src(1) dst(2) src(2) _ disj] dst(3) by (intro exI conjI) auto
  let ?n = "min (length s) (sz - length d - 1)"
  let ?m = "copied (dst + length d) src ?n m"
  have "block ?m dst (length d) = block m dst (length d)" by (rule block_cong) simp
  moreover have "str_at ?m (dst + length d) (take ?n s)" using src(1) by (rule str_at_copied) simp
  moreover have "take ?n s = take (sz - 1 - length d) s" by (simp add: min_def)
  ultimately have "str_at ?m dst (d @ take (sz - 1 - length d) s)"
    using dst(1) by (intro str_at_appendI) (simp_all add: str_at_block)
  then have "str_at ?m dst (take (sz - 1) (d @ s))" using dst(3) by simp
  then show "\<exists>m'. strlcat dst src sz m = Some ((length s + length d) mod 2 ^ 32, m')
      \<and> str_at m' dst (take (sz - 1) (d @ s))
      \<and> (\<forall>a. a < dst \<or> dst + sz \<le> a \<longrightarrow> m' a = m a)"
    using strlcat_str [OF src(1) dst(1,2) src(2) dst(3) disj] dst(3) by (intro exI conjI) auto
qed

definition demo_mem :: mem8 where
  "demo_mem a = (if a < 8 then (if a = 4 then 97 else 0)
     else if a < 13 then [98, 99, 100, 101, 0] ! (a - 8) else 0)"

theorem strlcpy_strlcat_bounded_witness:
  "(\<exists>m'. strlcat 4 8 4 demo_mem = Some (5, m') \<and> str_at m' 4 [97, 98, 99] \<and> m' 8 = 98)
   \<and> (\<exists>m'. strlcpy 4 8 4 demo_mem = Some (4, m') \<and> str_at m' 4 [98, 99, 100] \<and> m' 8 = 98)"
proof -
  have h: "str_at demo_mem 8 [98, 99, 100, 101]" "str_at demo_mem 4 [97]"
    by (simp_all add: demo_mem_def)
  have t: "take (4 - 1) [98, 99, 100, 101 :: u8] = [98, 99, 100]"
    "take (4 - 1) ([97] @ [98, 99, 100, 101 :: u8]) = [97, 98, 99]"
    "length [98, 99, 100, 101 :: u8] = 4" "length [97 :: u8] = 1" by simp_all
  have v: "demo_mem 8 = 98" by (simp add: demo_mem_def)
  have "(\<exists>m'. strlcpy 4 8 4 demo_mem = Some (4, m') \<and> str_at m' 4 [98, 99, 100]
      \<and> (\<forall>a. a < 4 \<or> 4 + 4 \<le> a \<longrightarrow> m' a = demo_mem a))
    \<and> (\<exists>m'. strlcat 4 8 4 demo_mem = Some ((4 + 1) mod 2 ^ 32, m') \<and> str_at m' 4 [97, 98, 99]
      \<and> (\<forall>a. a < 4 \<or> 4 + 4 \<le> a \<longrightarrow> m' a = demo_mem a))"
    using strlcpy_strlcat_bounded [OF h(1) _ h(2), of 4] unfolding t by simp
  moreover have "\<And>m'. (\<forall>a. a < 4 \<or> 4 + 4 \<le> a \<longrightarrow> m' a = demo_mem a) \<Longrightarrow> m' 8 = 98"
    using v by simp
  moreover have "(4 + 1) mod 2 ^ 32 = (5 :: nat)" by simp
  ultimately show ?thesis by metis
qed

section \<open>Tokens\<close>

text \<open>The reference: the maximal runs of characters that are not delimiters.\<close>

function tokens :: "u8 set \<Rightarrow> u8 list \<Rightarrow> u8 list list" where
  "tokens D s = (case dropWhile (\<lambda>x. x \<in> D) s of [] \<Rightarrow> []
     | x # s' \<Rightarrow> (x # takeWhile (\<lambda>x. x \<notin> D) s') # tokens D (tl (dropWhile (\<lambda>x. x \<notin> D) s')))"
  by auto
termination
proof (relation "measure (\<lambda>(D, s). length s)", simp, clarsimp)
  fix D s x and s' :: "u8 list" assume "dropWhile (\<lambda>x. x \<in> D) s = x # s'"
  then have "length s' < length s" by (metis length_dropWhile_le length_Cons Suc_le_eq)
  moreover have "length (dropWhile (\<lambda>x. x \<notin> D) s') \<le> length s'" by (rule length_dropWhile_le)
  ultimately show "length (dropWhile (\<lambda>x. x \<notin> D) s') - Suc 0 < length s" by linarith
qed

declare tokens.simps [simp del]

text \<open>The loop in which \<open>strtok_r\<close> is meant to be used: collect the tokens until there are none.\<close>

partial_function (option) tokenize :: "nat \<Rightarrow> nat \<Rightarrow> nat \<Rightarrow> mem8 \<Rightarrow> (nat list \<times> mem8) option" where
  "tokenize s delimiters save m = do {
     (token, save, m) \<leftarrow> strtok_r s delimiters (Some save) m;
     if token = 0 then Some ([], m)
     else do { (ts, m) \<leftarrow> tokenize 0 delimiters save m; Some (token # ts, m) } }"

lemma strtok_skip_str:
  "str_at m p s \<Longrightarrow> str_at m d ds \<Longrightarrow> d \<noteq> 0 \<Longrightarrow> strtok_skip p d m =
     Some (dropWhile (\<lambda>x. x \<in> set ds) s = [], p + length (takeWhile (\<lambda>x. x \<in> set ds) s))"
proof (induction s arbitrary: p)
  case Nil
  obtain r where "strchr d (sint (0 :: u8)) m = Some r" "r \<noteq> 0"
    using strchr_found [OF Nil(2,3), of 0] by blast
  then show ?case using Nil by (subst strtok_skip.simps) simp
next
  case (Cons x s)
  obtain r where "strchr d (sint x) m = Some r" "r \<noteq> 0 \<longleftrightarrow> x \<in> set ds \<or> x = 0"
    using strchr_found [OF Cons(3,4)] .
  then show ?case using Cons by (subst strtok_skip.simps) auto
qed

lemma strtok_span_str:
  "str_at m p s \<Longrightarrow> str_at m d ds \<Longrightarrow> d \<noteq> 0 \<Longrightarrow>
   strtok_span p d m = Some (p + length (takeWhile (\<lambda>x. x \<notin> set ds) s))"
proof (induction s arbitrary: p)
  case Nil
  obtain r where "strchr d (sint (0 :: u8)) m = Some r" "r \<noteq> 0"
    using strchr_found [OF Nil(2,3), of 0] by blast
  then show ?case using Nil by (subst strtok_span.simps) simp
next
  case (Cons x s)
  obtain r where "strchr d (sint x) m = Some r" "r \<noteq> 0 \<longleftrightarrow> x \<in> set ds \<or> x = 0"
    using strchr_found [OF Cons(3,4)] .
  then show ?case using Cons by (subst strtok_span.simps) auto
qed

lemma strtok_r_end:
  assumes "str_at m p s" "str_at m d ds" "d \<noteq> 0" "p \<noteq> 0" "p = (if a = 0 then sv else a)"
    and "dropWhile (\<lambda>x. x \<in> set ds) s = []"
  shows "strtok_r a d (Some sv) m = Some (0, p + length s, m)"
  using assms(3-6) strtok_skip_str [OF assms(1-3)]
  by (simp add: strtok_r_def Let_def takeWhile_eq_all_conv [THEN iffD2])

lemma strtok_r_token:
  assumes "str_at m p s" "str_at m d ds" "d \<noteq> 0" "p \<noteq> 0" "p = (if a = 0 then sv else a)"
    and drop: "dropWhile (\<lambda>x. x \<in> set ds) s = x # s'"
  defines "q \<equiv> p + length (takeWhile (\<lambda>x. x \<in> set ds) s)"
  defines "e \<equiv> q + Suc (length (takeWhile (\<lambda>x. x \<notin> set ds) s'))"
  defines "rest \<equiv> dropWhile (\<lambda>x. x \<notin> set ds) s'"
  shows "strtok_r a d (Some sv) m
      = Some (if rest = [] then (q, e, m) else (q, e + 1, m(e := 0)))"
    and "str_at m q (x # s')" "str_at m e rest" "p \<le> q" "e + length rest = p + length s"
proof -
  have split: "s = takeWhile (\<lambda>x. x \<in> set ds) s @ x # s'"
    using takeWhile_dropWhile_id [of "\<lambda>x. x \<in> set ds" s] drop by simp
  show q: "str_at m q (x # s')" unfolding q_def
    using assms(1) by (intro str_at_append) (simp flip: split)
  have s': "s' = takeWhile (\<lambda>x. x \<notin> set ds) s' @ rest" by (simp add: rest_def)
  have x: "x \<notin> set ds" using drop by (metis dropWhile_eq_Cons_conv)
  then have span: "strtok_span q d m = Some e"
    using strtok_span_str [OF q assms(2,3)] by (simp add: e_def)
  have skip: "strtok_skip p d m = Some (False, q)"
    using strtok_skip_str [OF assms(1-3)] drop by (simp add: q_def)
  show e: "str_at m e rest"
    using str_at_append [of m q "x # takeWhile (\<lambda>x. x \<notin> set ds) s'" rest] q s'
    by (simp add: e_def)
  then have "m e = 0 \<longleftrightarrow> rest = []" by (cases rest) auto
  then show "strtok_r a d (Some sv) m
      = Some (if rest = [] then (q, e, m) else (q, e + 1, m(e := 0)))"
    using assms(3,4) skip span
    by (simp add: strtok_r_def Let_def assms(5) [symmetric] del: One_nat_def)
  show "p \<le> q" by (simp add: q_def)
  have "length s = length (takeWhile (\<lambda>x. x \<in> set ds) s) + Suc (length s')"
    using arg_cong [OF split, of length] by simp
  then show "e + length rest = p + length s"
    using arg_cong [OF s', of length] by (simp add: e_def q_def)
qed

lemma tokenize_correct:
  assumes "str_at m p s" "str_at m d ds" "d \<noteq> 0" "p \<noteq> 0" "p = (if a = 0 then sv else a)"
    and "d + length ds < p \<or> p + length s < d"
  shows "\<exists>ps m'. tokenize a d sv m = Some (ps, m') \<and> list_all2 (str_at m') ps (tokens (set ds) s)
     \<and> (\<forall>b. b < p \<or> p + length s \<le> b \<longrightarrow> m' b = m b)"
  using assms
proof (induction "length s" arbitrary: m p s a sv rule: less_induct)
  case less
  show ?case
  proof (cases "dropWhile (\<lambda>x. x \<in> set ds) s")
    case Nil
    have "tokens (set ds) s = []" by (subst tokens.simps, subst Nil) simp
    then show ?thesis using strtok_r_end [OF less(2-6) Nil] by (subst tokenize.simps) simp
  next
    case (Cons x s')
    note tok = strtok_r_token [OF less(2-6) Cons]
    define q where "q = p + length (takeWhile (\<lambda>x. x \<in> set ds) s)"
    define t where "t = x # takeWhile (\<lambda>x. x \<notin> set ds) s'"
    define rest where "rest = dropWhile (\<lambda>x. x \<notin> set ds) s'"
    define sv' where "sv' = (if rest = [] then q + length t else q + length t + 1)"
    define m1 where "m1 = (if rest = [] then m else m(q + length t := 0))"
    have call: "strtok_r a d (Some sv) m = Some (q, sv', m1)"
      and str: "str_at m q (x # s')" "str_at m (q + length t) rest" and pq: "p \<le> q"
      and len: "q + length t + length rest = p + length s"
      using tok by (auto simp: q_def t_def rest_def sv'_def m1_def)
    have s': "x # s' = t @ rest" by (simp add: t_def rest_def)
    have t0: "0 \<notin> set t" using str_at_nonzero [OF str(1)] unfolding s' by auto
    have m1: "m1 b = m b" if "b \<noteq> q + length t" for b using that by (simp add: m1_def)
    have end1: "m1 (q + length t) = 0" using str(2) by (cases rest) (auto simp: m1_def)
    have tl: "str_at m1 sv' (tl rest)"
    proof (cases rest)
      case (Cons y r)
      then show ?thesis using str(2) str_at_cong [of "Suc (q + length t)" r m1 m]
        by (simp add: sv'_def m1)
    qed (use str in \<open>simp add: sv'_def m1_def\<close>)
    have "m1 i = m i" if "d \<le> i" "i \<le> d + length ds" for i
      using that less(7) len pq by (intro m1) linarith
    then have ds1: "str_at m1 d ds" using less(3) str_at_cong [of d ds m1 m] by blast
    have sv1: "sv' + length (tl rest) = p + length s" using len by (cases rest) (simp_all add: sv'_def)
    have sv2: "p < sv'" using pq by (simp add: sv'_def t_def)
    have short: "length (tl rest) < length s" using sv1 sv2 by linarith
    obtain ps m' where rec: "tokenize 0 d sv' m1 = Some (ps, m')"
      and ps: "list_all2 (str_at m') ps (tokens (set ds) (tl rest))"
      and frame: "\<forall>b. b < sv' \<or> p + length s \<le> b \<longrightarrow> m' b = m1 b"
      using less(1) [OF short tl ds1 less(4), of 0 sv'] sv1 sv2 less(7) by auto
    have "block m1 q (length t) = t"
      using str(1) block_take_drop [of m q "t @ rest" 0 "length t"]
      by (auto simp: s' str_at_block m1 intro!: trans [OF block_cong [of q _ m1 m]])
    moreover have "m' (q + length t) = m1 (q + length t)"
      using frame len by (cases "rest = []") (auto simp: sv'_def)
    then have "m' (q + length t) = 0" using end1 by simp
    moreover have "block m' q (length t) = block m1 q (length t)"
      using frame by (intro block_cong) (auto simp: sv'_def split: if_splits)
    ultimately have "str_at m' q t" using t0 by (simp add: str_at_block)
    moreover have "tokens (set ds) s = t # tokens (set ds) (tl rest)"
      by (subst tokens.simps) (simp add: Cons t_def rest_def)
    moreover have "q \<noteq> 0" using less(5) pq by simp
    moreover have "m' b = m b" if "b < p \<or> p + length s \<le> b" for b
      using that frame sv1 sv2 len pq by (cases rest) (auto simp: m1_def)
    ultimately show ?thesis using call rec ps by (subst tokenize.simps) simp
  qed
qed

text \<open>C23: For a string that does not overlap the string of delimiters, calling \<open>strtok_r\<close> first
  with the string and then with a null pointer until it returns a null pointer ends, and gives
  pointers to exactly the maximal runs of characters that are not delimiters, in order. In the
  final memory each token is a terminated string, and no byte outside the string has changed.\<close>

theorem strtok_r_tokens:
  assumes "str_at m p s" "str_at m d ds" "d \<noteq> 0" "p \<noteq> 0"
    and "d + length ds < p \<or> p + length s < d"
  shows "\<exists>ps m'. tokenize p d sv m = Some (ps, m')
     \<and> list_all2 (str_at m') ps (tokens (set ds) s)
     \<and> (\<forall>b. b < p \<or> p + length s \<le> b \<longrightarrow> m' b = m b)"
  using assms(4) by (intro tokenize_correct assms) simp

definition demo_line :: "u8 list" where
  "demo_line = [32, 97, 98, 32, 32, 99]"

theorem strtok_r_tokens_witness:
  "\<exists>p1 p2 m'. tokenize 10 2 0 (\<lambda>a. if a = 2 then 32 else if 10 \<le> a \<and> a < 16 then demo_line ! (a - 10) else 0)
     = Some ([p1, p2], m') \<and> str_at m' p1 [97, 98] \<and> str_at m' p2 [99]"
proof -
  let ?m = "\<lambda>a. if a = 2 then 32 else if 10 \<le> a \<and> a < 16 then demo_line ! (a - 10) else 0"
  have h: "str_at ?m 10 demo_line" "str_at ?m 2 [32]" by (simp_all add: demo_line_def)
  have t: "tokens (set [32]) demo_line = [[97, 98], [99]]"
    by (simp add: demo_line_def tokens.simps)
  have "2 + length [32 :: u8] < 10 \<or> 10 + length demo_line < 2" by simp
  from strtok_r_tokens [OF h _ _ this, of 0] show ?thesis
    unfolding t by (auto simp: list_all2_Cons2)
qed

end
