(* ===== verification/Stdlib.thy ===== *)
theory Stdlib
  imports Cstring Ctype "HOL-Library.Multiset"
begin

text \<open>
  \<^verbatim>\<open>lib/stdlib.c\<close> and \<^verbatim>\<open>lib/random.c\<close>: conversion of decimal strings, heap sort and binary search
  over arrays of elements of any size, and the RC4 generator.

  A comparison function gets the addresses of two elements, an auxiliary value and the
  memory and returns a number, or \<open>None\<close> when it panics. The locale \<open>element_order\<close> is the
  contract that the comments of \<^verbatim>\<open>sort\<close> and \<^verbatim>\<open>binary_search\<close> ask of it; \<open>memcmp\<close> satisfies it.
  The heap invariant with one open position, \<open>down_inv\<close>, carries \<open>heapify\<close>; the property is
  that \<open>bsearch\<close> after \<open>qsort\<close> decides membership in the original array.
\<close>

section \<open>Decimal strings\<close>

partial_function (option) atoi_space :: "nat \<Rightarrow> mem8 \<Rightarrow> nat option" where
  "atoi_space s m = (if isspace (uint (m s)) then atoi_space (s + 1) m else Some s)"

partial_function (option) atoi_digits :: "nat \<Rightarrow> u32 \<Rightarrow> mem8 \<Rightarrow> u32 option" where
  "atoi_digits s v m =
     (if isdigit (sint (m s)) then atoi_digits (s + 1) (v * 10 - (signed (m s) - 48)) m
      else Some v)"

definition atoi :: "nat \<Rightarrow> mem8 \<Rightarrow> u32 option" where
  "atoi s m = do {
     ASSERT (s \<noteq> 0);
     s \<leftarrow> atoi_space s m;
     let (negative, s) = (if m s = 43 then (False, s + 1)
                          else if m s = 45 then (True, s + 1) else (False, s));
     v \<leftarrow> atoi_digits s 0 m;
     Some (if \<not> negative then - v else v) }"

section \<open>Heap sort and binary search\<close>

type_synonym 'x compare = "nat \<Rightarrow> nat \<Rightarrow> 'x \<Rightarrow> mem8 \<Rightarrow> int option"

definition compare_thunk :: "(nat \<Rightarrow> nat \<Rightarrow> mem8 \<Rightarrow> int option) compare" where
  "compare_thunk a b aux = aux a b"

text \<open>The address of the element with 1-based index \<open>idx\<close>.\<close>

definition elem_addr :: "nat \<Rightarrow> nat \<Rightarrow> nat \<Rightarrow> nat" where
  "elem_addr array idx sz = array + (idx + 2 ^ 32 - 1) mod 2 ^ 32 * sz mod 2 ^ 32"

definition swap_at :: "nat \<Rightarrow> nat \<Rightarrow> nat \<Rightarrow> mem8 \<Rightarrow> mem8" where
  "swap_at a b i m = (let t = m (a + i); m = m(a + i := m (b + i)) in m(b + i := t))"

definition do_swap :: "nat \<Rightarrow> nat \<Rightarrow> nat \<Rightarrow> nat \<Rightarrow> mem8 \<Rightarrow> mem8" where
  "do_swap array a_idx b_idx sz m =
     fold (swap_at (elem_addr array a_idx sz) (elem_addr array b_idx sz)) [0..<sz] m"

definition do_compare :: "nat \<Rightarrow> nat \<Rightarrow> nat \<Rightarrow> nat \<Rightarrow> 'x compare \<Rightarrow> 'x \<Rightarrow> mem8 \<Rightarrow> int option" where
  "do_compare array a_idx b_idx sz compare aux m =
     compare (elem_addr array a_idx sz) (elem_addr array b_idx sz) aux m"

text \<open>One of the two tests of \<open>heapify\<close>: the child if it exists and is greater.\<close>

definition heapify_test :: "nat \<Rightarrow> nat \<Rightarrow> nat \<Rightarrow> nat \<Rightarrow> nat \<Rightarrow> 'x compare \<Rightarrow> 'x \<Rightarrow> mem8 \<Rightarrow> nat option" where
  "heapify_test array child mx cnt sz compare aux m =
     (if child \<le> cnt then do {
        r \<leftarrow> do_compare array child mx sz compare aux m;
        Some (if r > 0 then child else mx) }
      else Some mx)"

definition heapify_max :: "nat \<Rightarrow> nat \<Rightarrow> nat \<Rightarrow> nat \<Rightarrow> 'x compare \<Rightarrow> 'x \<Rightarrow> mem8 \<Rightarrow> nat option" where
  "heapify_max array i cnt sz compare aux m = do {
     mx \<leftarrow> heapify_test array (2 * i mod 2 ^ 32) i cnt sz compare aux m;
     heapify_test array ((2 * i + 1) mod 2 ^ 32) mx cnt sz compare aux m }"

partial_function (option) heapify :: "nat \<Rightarrow> nat \<Rightarrow> nat \<Rightarrow> nat \<Rightarrow> 'x compare \<Rightarrow> 'x \<Rightarrow> mem8 \<Rightarrow> mem8 option"
where
  "heapify array i cnt sz compare aux m = do {
     mx \<leftarrow> heapify_max array i cnt sz compare aux m;
     if mx = i then Some m
     else heapify array mx cnt sz compare aux (do_swap array i mx sz m) }"

definition sort_down :: "nat \<Rightarrow> nat \<Rightarrow> nat \<Rightarrow> 'x compare \<Rightarrow> 'x \<Rightarrow> mem8 \<Rightarrow> mem8 option" where
  "sort_down array i sz compare aux m =
     heapify array 1 (i - 1) sz compare aux (do_swap array 1 i sz m)"

definition sort_array :: "nat \<Rightarrow> nat \<Rightarrow> nat \<Rightarrow> 'x compare \<Rightarrow> 'x \<Rightarrow> mem8 \<Rightarrow> mem8 option" where
  "sort_array array cnt sz compare aux m = do {
     ASSERT (array \<noteq> 0 \<or> cnt = 0);
     ASSERT (sz > 0);
     m \<leftarrow> for_each (rev [1..<Suc (cnt div 2)]) (\<lambda>i. heapify array i cnt sz compare aux) m;
     for_each (rev [2..<Suc cnt]) (\<lambda>i. sort_down array i sz compare aux) m }"

definition qsort :: "nat \<Rightarrow> nat \<Rightarrow> nat \<Rightarrow> (nat \<Rightarrow> nat \<Rightarrow> mem8 \<Rightarrow> int option) \<Rightarrow> mem8 \<Rightarrow> mem8 option" where
  "qsort array cnt sz compare = sort_array array cnt sz compare_thunk compare"

text \<open>The loop of \<open>binary_search\<close>; the division traps for elements of size 0.\<close>

partial_function (option) search_loop :: "nat \<Rightarrow> nat \<Rightarrow> nat \<Rightarrow> nat \<Rightarrow> 'x compare \<Rightarrow> 'x \<Rightarrow> mem8 \<Rightarrow> nat option"
where
  "search_loop key lo hi sz compare aux m =
     (if lo < hi then do {
        ASSERT (sz \<noteq> 0);
        let range = (hi - lo) div sz;
        let middle = lo + range div 2 * sz;
        r \<leftarrow> compare key middle aux m;
        if r < 0 then search_loop key lo middle sz compare aux m
        else if r > 0 then search_loop key (middle + sz) hi sz compare aux m
        else Some middle }
      else Some 0)"

definition binary_search :: "nat \<Rightarrow> nat \<Rightarrow> nat \<Rightarrow> nat \<Rightarrow> 'x compare \<Rightarrow> 'x \<Rightarrow> mem8 \<Rightarrow> nat option" where
  "binary_search key array cnt sz compare aux m =
     search_loop key array (array + sz * cnt mod 2 ^ 32) sz compare aux m"

definition bsearch :: "nat \<Rightarrow> nat \<Rightarrow> nat \<Rightarrow> nat \<Rightarrow> (nat \<Rightarrow> nat \<Rightarrow> mem8 \<Rightarrow> int option) \<Rightarrow> mem8 \<Rightarrow> nat option"
where
  "bsearch key array cnt sz compare = binary_search key array cnt sz compare_thunk compare"

section \<open>The RC4 generator\<close>

record rc4 =
  rc4_s :: "u8 list"
  s_i :: u8
  s_j :: u8
  inited :: bool

definition swap_byte :: "nat \<Rightarrow> nat \<Rightarrow> u8 list \<Rightarrow> u8 list" where
  "swap_byte a b s = (let t = s ! a; s = s[a := s ! b] in s[b := t])"

definition random_mix :: "u32 \<Rightarrow> nat \<Rightarrow> u8 list \<times> u8 \<Rightarrow> u8 list \<times> u8" where
  "random_mix seed i = (\<lambda>(s, j).
     let j = j + (s ! i + ucast (drop_bit (8 * (i mod 4)) seed))
     in (swap_byte i (unat j) s, j))"

definition random_init :: "u32 \<Rightarrow> rc4 \<Rightarrow> rc4" where
  "random_init seed r =
     (if inited r then r
      else let s = map word_of_nat [0..<256];
               (s, j) = fold (random_mix seed) [0..<256] (s, 0)
           in \<lparr>rc4_s = s, s_i = 0, s_j = 0, inited = True\<rparr>)"

definition random_step :: "rc4 \<Rightarrow> u8 \<times> rc4" where
  "random_step r =
     (let i = s_i r + 1;
          j = s_j r + rc4_s r ! unat i;
          s = swap_byte (unat i) (unat j) (rc4_s r);
          k = s ! unat i + s ! unat j
      in (s ! unat k, r\<lparr>rc4_s := s, s_i := i, s_j := j\<rparr>))"

fun random_fill :: "nat \<Rightarrow> nat \<Rightarrow> rc4 \<times> mem8 \<Rightarrow> rc4 \<times> mem8" where
  "random_fill 0 buf (r, m) = (r, m)"
| "random_fill (Suc sz) buf (r, m) =
     (let (x, r) = random_step r in random_fill sz (buf + 1) (r, m(buf := x)))"

definition random_bytes :: "nat \<Rightarrow> nat \<Rightarrow> rc4 \<times> mem8 \<Rightarrow> rc4 \<times> mem8" where
  "random_bytes buf sz = (\<lambda>(r, m).
     let r = (if \<not> inited r then random_init 0 r else r) in random_fill sz buf (r, m))"

text \<open>The local variable of \<open>random_ulong\<close> is at \<open>ul\<close>; the processor stores integers with the least
  significant byte first.\<close>

definition random_ulong :: "nat \<Rightarrow> rc4 \<times> mem8 \<Rightarrow> u32 \<times> rc4 \<times> mem8" where
  "random_ulong ul rm =
     (let (r, m) = random_bytes ul 4 rm
      in (word_rcat [m (ul + 3), m (ul + 2), m (ul + 1), m ul], r, m))"

section \<open>Decimal strings denote their value\<close>

definition decimal :: "u8 list \<Rightarrow> int" where
  "decimal ds = foldl (\<lambda>v d. 10 * v + (sint d - 48)) 0 ds"

lemma atoi_space_str:
  "str_at m p (sp @ x # s) \<Longrightarrow> \<forall>y\<in>set sp. isspace (uint y) \<Longrightarrow> \<not> isspace (uint x) \<Longrightarrow>
   atoi_space p m = Some (p + length sp)"
  by (induction sp arbitrary: p) (simp_all add: atoi_space.simps)

lemma atoi_digits_str:
  "str_at m p (ds @ s) \<Longrightarrow> \<forall>y\<in>set ds. isdigit (sint y) \<Longrightarrow> s = [] \<or> \<not> isdigit (sint (hd s)) \<Longrightarrow>
   atoi_digits p (word_of_int (- v)) m
     = Some (word_of_int (- foldl (\<lambda>v d. 10 * v + (sint d - 48)) v ds))"
proof (induction ds arbitrary: p v)
  case Nil
  then show ?case by (cases s; subst atoi_digits.simps) (auto simp: isdigit_def)
next
  case (Cons d ds)
  have "word_of_int (- v) * 10 - (signed d - 48) = (word_of_int (- (10 * v + (sint d - 48))) :: u32)"
    by (simp add: algebra_simps)
  then show ?case using Cons.IH [of "Suc p" "10 * v + (sint d - 48)"] Cons.prems
    by (subst atoi_digits.simps) (simp add: algebra_simps)
qed

lemma atoi_correct:
  assumes "str_at m p (sp @ sg @ ds @ s)" "p \<noteq> 0" "\<forall>y\<in>set sp. isspace (uint y)"
    and "sg \<in> {[], [43], [45]}" "ds \<noteq> []" "\<forall>y\<in>set ds. isdigit (sint y)"
    and "s = [] \<or> \<not> isdigit (sint (hd s))"
  shows "atoi p m = Some (word_of_int (if sg = [45] then - decimal ds else decimal ds))"
proof -
  obtain d ds' where ds: "ds = d # ds'" using assms(5) by (cases ds) auto
  have "48 \<le> sint d" "sint d \<le> 57" using assms(6) by (auto simp: ds isdigit_def)
  then have d: "d \<noteq> 43" "d \<noteq> 45" "\<not> isspace (uint d)"
    by (auto simp: isspace_def sint_uint signed_take_bit_int_eq_self)
  have sp: "atoi_space p m = Some (p + length sp)"
    using assms(1,3,4) d by (intro atoi_space_str [of m p sp "hd (sg @ ds)" "tl (sg @ ds @ s)"])
      (auto simp: ds isspace_def)
  have sg: "str_at m (p + length sp) (sg @ ds @ s)" using str_at_append [OF assms(1)] .
  have "atoi_digits (p + length sp + length sg) 0 m = Some (word_of_int (- decimal ds))"
    using atoi_digits_str [OF str_at_append [OF sg] assms(6,7), of 0] by (simp add: decimal_def)
  then show ?thesis using assms(2,4) sg sp d by (auto simp: atoi_def ds)
qed

section \<open>Arrays of elements\<close>

definition elem_at :: "nat \<Rightarrow> nat \<Rightarrow> mem8 \<Rightarrow> nat \<Rightarrow> u8 list" where
  "elem_at array sz m i = block m (array + (i - 1) * sz) sz"

definition elems :: "nat \<Rightarrow> nat \<Rightarrow> nat \<Rightarrow> mem8 \<Rightarrow> u8 list list" where
  "elems array cnt sz m = map (elem_at array sz m) [1..<Suc cnt]"

definition array_ok :: "nat \<Rightarrow> nat \<Rightarrow> nat \<Rightarrow> bool" where
  "array_ok array cnt sz \<longleftrightarrow> array \<noteq> 0 \<and> array + cnt * sz \<le> 2 ^ 32 \<and> 0 < sz \<and> cnt < 2 ^ 31"

definition same_outside :: "nat \<Rightarrow> nat \<Rightarrow> mem8 \<Rightarrow> mem8 \<Rightarrow> bool" where
  "same_outside p n m m' \<longleftrightarrow> (\<forall>x. x < p \<or> p + n \<le> x \<longrightarrow> m' x = m x)"

lemma same_outside_trans: "same_outside p n m m' \<Longrightarrow> same_outside p n m' m'' \<Longrightarrow> same_outside p n m m''"
  by (simp add: same_outside_def)

lemma same_outside_refl [simp]: "same_outside p n m m"
  by (simp add: same_outside_def)

lemma slot_le: "i < j \<Longrightarrow> i * sz + sz \<le> j * (sz :: nat)"
  by (metis Suc_leI add.commute mult_Suc mult_le_mono1)

lemma elem_addr_ok:
  assumes "array_ok array cnt sz" "1 \<le> i" "i \<le> cnt"
  shows "elem_addr array i sz = array + (i - 1) * sz" "array + (i - 1) * sz + sz \<le> array + cnt * sz"
proof -
  have *: "(i - 1) * sz + sz \<le> cnt * sz" using slot_le [of "i - 1" cnt sz] assms by simp
  have "(i + 2 ^ 32 - 1) mod 2 ^ 32 = i - 1" using assms by (subst mod_sub_le) (auto simp: array_ok_def)
  moreover have "(i - 1) * sz < 2 ^ 32" using * assms(1) by (simp add: array_ok_def)
  ultimately show "elem_addr array i sz = array + (i - 1) * sz" by (simp add: elem_addr_def)
  show "array + (i - 1) * sz + sz \<le> array + cnt * sz" using * by simp
qed

lemma swap_fold:
  assumes "a = b \<or> a + sz \<le> b \<or> b + sz \<le> a" "n \<le> sz"
  shows "fold (swap_at a b) [0..<n] m = (\<lambda>x. if a \<le> x \<and> x < a + n then m (b + (x - a))
     else if b \<le> x \<and> x < b + n then m (a + (x - b)) else m x)"
  using assms(2)
proof (induction n)
  case (Suc n)
  show ?case using Suc assms(1) by (auto simp: swap_at_def fun_eq_iff less_Suc_eq)
qed (auto simp: fun_eq_iff)

lemma do_swap_elem:
  assumes ok: "array_ok array cnt sz" and ab: "1 \<le> a" "a \<le> cnt" "1 \<le> b" "b \<le> cnt"
  shows "1 \<le> i \<Longrightarrow> elem_at array sz (do_swap array a b sz m) i =
     (if i = a then elem_at array sz m b else if i = b then elem_at array sz m a
      else elem_at array sz m i)"
    and "same_outside array (cnt * sz) m (do_swap array a b sz m)"
proof -
  have disj: "i = j \<or> array + (i - 1) * sz + sz \<le> array + (j - 1) * sz
      \<or> array + (j - 1) * sz + sz \<le> array + (i - 1) * sz" if "1 \<le> i" "1 \<le> j" for i j
    using slot_le [of "i - 1" "j - 1" sz] slot_le [of "j - 1" "i - 1" sz] that by linarith
  have sw: "do_swap array a b sz m = (\<lambda>x. if array + (a - 1) * sz \<le> x \<and> x < array + (a - 1) * sz + sz
       then m (array + (b - 1) * sz + (x - (array + (a - 1) * sz)))
     else if array + (b - 1) * sz \<le> x \<and> x < array + (b - 1) * sz + sz
       then m (array + (a - 1) * sz + (x - (array + (b - 1) * sz))) else m x)"
    unfolding do_swap_def elem_addr_ok [OF ok ab(1,2)] elem_addr_ok [OF ok ab(3,4)]
    using disj [OF ab(1,3)] by (intro swap_fold) auto
  show "same_outside array (cnt * sz) m (do_swap array a b sz m)"
    using elem_addr_ok(2) [OF ok ab(1,2)] elem_addr_ok(2) [OF ok ab(3,4)]
    by (auto simp: same_outside_def sw)
  assume i: "1 \<le> i"
  show "elem_at array sz (do_swap array a b sz m) i =
     (if i = a then elem_at array sz m b else if i = b then elem_at array sz m a
      else elem_at array sz m i)"
    using disj [OF i ab(1)] disj [OF i ab(3)]
    by (intro nth_equalityI) (auto simp: elem_at_def sw add.assoc)
qed

lemma elems_nth [simp]: "i < cnt \<Longrightarrow> elems array cnt sz m ! i = elem_at array sz m (Suc i)"
  by (simp add: elems_def del: upt_Suc)

lemma length_elems [simp]: "length (elems array cnt sz m) = cnt"
  by (simp add: elems_def)

lemma set_elems: "set (elems array cnt sz m) = elem_at array sz m ` {1..cnt}"
  by (simp add: elems_def atLeastLessThanSuc_atLeastAtMost del: upt_Suc)

lemma do_swap_mset:
  assumes "array_ok array cnt sz" "1 \<le> a" "a \<le> cnt" "1 \<le> b" "b \<le> cnt"
  shows "mset (elems array cnt sz (do_swap array a b sz m)) = mset (elems array cnt sz m)"
proof -
  let ?e = "elems array cnt sz m"
  have "elems array cnt sz (do_swap array a b sz m) = ?e[b - 1 := ?e ! (a - 1), a - 1 := ?e ! (b - 1)]"
    using assms by (intro nth_equalityI) (auto simp: do_swap_elem [OF assms] nth_list_update)
  moreover have "a - 1 < length ?e" "b - 1 < length ?e" using assms by auto
  ultimately show ?thesis by (simp only: mset_swap)
qed

lemma do_swap_prefix:
  assumes "array_ok array cnt sz" "1 \<le> a" "a \<le> n" "1 \<le> b" "b \<le> n" "n \<le> cnt"
  shows "elem_at array sz (do_swap array a b sz m) ` {1..n} = elem_at array sz m ` {1..n}"
  using assms do_swap_elem(1) [of array cnt sz a b _ m]
  by (auto simp: image_iff Bex_def)

text \<open>\<open>m'\<close> has the first \<open>n\<close> elements of the array in some other order and is \<open>m\<close> elsewhere.\<close>

definition permuted :: "nat \<Rightarrow> nat \<Rightarrow> nat \<Rightarrow> nat \<Rightarrow> mem8 \<Rightarrow> mem8 \<Rightarrow> bool" where
  "permuted array cnt sz n m m' \<longleftrightarrow> mset (elems array cnt sz m') = mset (elems array cnt sz m)
     \<and> elem_at array sz m' ` {1..n} = elem_at array sz m ` {1..n}
     \<and> (\<forall>j>n. elem_at array sz m' j = elem_at array sz m j) \<and> same_outside array (cnt * sz) m m'"

lemma permuted_refl [simp]: "permuted array cnt sz n m m"
  by (simp add: permuted_def)

lemma permuted_trans:
  "permuted array cnt sz n m m' \<Longrightarrow> permuted array cnt sz n m' m'' \<Longrightarrow> permuted array cnt sz n m m''"
  by (auto simp: permuted_def intro: same_outside_trans)

lemma do_swap_permuted:
  assumes "array_ok array cnt sz" "1 \<le> a" "a \<le> n" "1 \<le> b" "b \<le> n" "n \<le> cnt"
  shows "permuted array cnt sz n m (do_swap array a b sz m)"
  using assms do_swap_mset [of array cnt sz a b m] do_swap_elem(1) [of array cnt sz a b _ m]
    do_swap_elem(2) [of array cnt sz a b m] do_swap_prefix [of array cnt sz a n b m]
  by (simp add: permuted_def)

section \<open>Sorting with a comparison function\<close>

locale element_order =
  fixes sz :: nat and compare :: "'x compare" and aux :: 'x and c :: "u8 list \<Rightarrow> u8 list \<Rightarrow> int"
  assumes compare: "a \<noteq> 0 \<Longrightarrow> b \<noteq> 0 \<Longrightarrow> compare a b aux m = Some (c (block m a sz) (block m b sz))"
    and sign: "sgn (c y x) = - sgn (c x y)"
    and trans: "c x y \<le> 0 \<Longrightarrow> c y z \<le> 0 \<Longrightarrow> c x z \<le> 0"
begin

lemma compare_sym: "c x y > 0 \<longleftrightarrow> c y x < 0" "c x y \<ge> 0 \<longleftrightarrow> c y x \<le> 0"
  using sign [of x y] by (auto simp: sgn_if split: if_splits)

lemma compare_refl: "c x x \<le> 0"
  using sign [of x x] by (auto simp: sgn_if split: if_splits)

lemma compare_total: "\<not> c x y \<le> 0 \<Longrightarrow> c y x \<le> 0"
  using compare_sym [of x y] by simp

definition heap_at :: "(nat \<Rightarrow> u8 list) \<Rightarrow> nat \<Rightarrow> nat \<Rightarrow> bool" where
  "heap_at e n j \<longleftrightarrow> (\<forall>ch\<in>{2 * j, 2 * j + 1}. ch \<le> n \<longrightarrow> c (e ch) (e j) \<le> 0)"

definition heap :: "(nat \<Rightarrow> u8 list) \<Rightarrow> nat \<Rightarrow> nat \<Rightarrow> bool" where
  "heap e lo n \<longleftrightarrow> (\<forall>j\<ge>lo. heap_at e n j)"

definition down_inv :: "(nat \<Rightarrow> u8 list) \<Rightarrow> nat \<Rightarrow> nat \<Rightarrow> nat \<Rightarrow> bool" where
  "down_inv e lo k n \<longleftrightarrow> (\<forall>j\<ge>lo. j \<noteq> k \<longrightarrow> heap_at e n j)
     \<and> (lo \<le> k div 2 \<longrightarrow> (\<forall>ch\<in>{2 * k, 2 * k + 1}. ch \<le> n \<longrightarrow> c (e ch) (e (k div 2)) \<le> 0))"

lemma down_inv_swap:
  assumes inv: "down_inv e lo k n" and k: "1 \<le> lo" "lo \<le> k" and mx: "mx \<in> {2 * k, 2 * k + 1}" "mx \<le> n"
    and top: "\<forall>j\<in>{k, 2 * k, 2 * k + 1}. j \<le> n \<longrightarrow> c (e j) (e mx) \<le> 0"
    and e': "\<forall>i\<ge>1. e' i = (if i = k then e mx else if i = mx then e k else e i)"
  shows "down_inv e' lo mx n"
proof -
  have mxk: "mx div 2 = k" "mx \<noteq> k" "k \<le> n" "lo \<le> mx" using mx k by auto
  have "heap_at e' n j" if j: "lo \<le> j" "j \<noteq> mx" for j
  proof (cases "j = k")
    case True
    then show ?thesis using top e' mxk k mx by (auto simp: heap_at_def)
  next
    case False
    show ?thesis unfolding heap_at_def
    proof (intro ballI impI)
      fix ch assume ch: "ch \<in> {2 * j, 2 * j + 1}" "ch \<le> n"
      have dj: "ch div 2 = j" "1 \<le> ch" using ch j k by auto
      have e'j: "e' j = e j" using e' j k False by simp
      show "c (e' ch) (e' j) \<le> 0"
      proof (cases "ch = k")
        case True
        then have "c (e mx) (e j) \<le> 0" using inv dj j mx unfolding down_inv_def by auto
        then show ?thesis using e'j e' True dj by simp
      next
        case chk: False
        have "ch \<noteq> mx" using dj mxk False by auto
        then have "e' ch = e ch" using e' dj chk by simp
        moreover have "heap_at e n j" using inv j False unfolding down_inv_def by blast
        ultimately show ?thesis using e'j ch by (auto simp: heap_at_def)
      qed
    qed
  qed
  moreover have "c (e' ch) (e' k) \<le> 0" if ch: "ch \<in> {2 * mx, 2 * mx + 1}" "ch \<le> n" for ch
  proof -
    have "heap_at e n mx" using inv mxk unfolding down_inv_def by blast
    moreover have "e' ch = e ch" "e' k = e mx" using e' ch mx k by auto
    ultimately show ?thesis using ch by (auto simp: heap_at_def)
  qed
  ultimately show ?thesis unfolding down_inv_def mxk by blast
qed

lemma heap_root: "heap e 1 n \<Longrightarrow> 1 \<le> j \<Longrightarrow> j \<le> n \<Longrightarrow> c (e j) (e 1) \<le> 0"
proof (induction j rule: less_induct)
  case (less j)
  show ?case
  proof (cases "j = 1")
    case False
    then have *: "1 \<le> j div 2" "j div 2 < j" "j \<in> {2 * (j div 2), 2 * (j div 2) + 1}"
      using less.prems by auto
    have "c (e j) (e (j div 2)) \<le> 0" using * less.prems by (auto simp: heap_def heap_at_def)
    moreover have "c (e (j div 2)) (e 1) \<le> 0" using less * by auto
    ultimately show ?thesis by (rule trans)
  qed (simp add: compare_refl)
qed

lemma heapify_test_eq:
  assumes "array_ok array cnt sz" "1 \<le> ch" "1 \<le> mx" "mx \<le> cnt" "n \<le> cnt"
  shows "heapify_test array ch mx n sz compare aux m = Some
     (if ch \<le> n \<and> c (elem_at array sz m ch) (elem_at array sz m mx) > 0 then ch else mx)"
  using assms elem_addr_ok [OF assms(1,3,4)] elem_addr_ok [OF assms(1,2)]
  by (simp add: heapify_test_def do_compare_def compare elem_at_def array_ok_def)

lemma heapify_max_spec:
  assumes ok: "array_ok array cnt sz" and i: "1 \<le> i" "i \<le> n" "n \<le> cnt"
  obtains mx where "heapify_max array i n sz compare aux m = Some mx" "mx \<in> {i, 2 * i, 2 * i + 1}" "mx \<le> n"
    "\<forall>j\<in>{i, 2 * i, 2 * i + 1}. j \<le> n \<longrightarrow> c (elem_at array sz m j) (elem_at array sz m mx) \<le> 0"
proof -
  let ?e = "elem_at array sz m"
  have small: "2 * i mod 2 ^ 32 = 2 * i" "(2 * i + 1) mod 2 ^ 32 = 2 * i + 1"
    using ok i by (auto simp: array_ok_def)
  define a where "a = (if 2 * i \<le> n \<and> c (?e (2 * i)) (?e i) > 0 then 2 * i else i)"
  define b where "b = (if 2 * i + 1 \<le> n \<and> c (?e (2 * i + 1)) (?e a) > 0 then 2 * i + 1 else a)"
  have a: "1 \<le> a" "a \<le> n" "a \<in> {i, 2 * i}" "\<forall>j\<in>{i, 2 * i}. j \<le> n \<longrightarrow> c (?e j) (?e a) \<le> 0"
    using i compare_refl compare_total [of "?e (2 * i)" "?e i"] by (auto simp: a_def)
  have ab: "c (?e a) (?e b) \<le> 0" "2 * i + 1 \<le> n \<longrightarrow> c (?e (2 * i + 1)) (?e b) \<le> 0"
    using compare_refl compare_total [of "?e (2 * i + 1)" "?e a"] by (auto simp: b_def)
  show thesis
  proof (rule that)
    show "heapify_max array i n sz compare aux m = Some b"
      unfolding heapify_max_def small b_def
      using a i by (simp add: heapify_test_eq [OF ok] flip: a_def)
    show "b \<in> {i, 2 * i, 2 * i + 1}" "b \<le> n" using a by (auto simp: b_def)
    show "\<forall>j\<in>{i, 2 * i, 2 * i + 1}. j \<le> n \<longrightarrow> c (?e j) (?e b) \<le> 0" using a(4) ab trans by blast
  qed
qed

lemma heapify_spec:
  assumes ok: "array_ok array cnt sz" and lo: "1 \<le> lo" and n: "n \<le> cnt"
  shows "lo \<le> k \<Longrightarrow> k \<le> n \<Longrightarrow> down_inv (elem_at array sz m) lo k n \<Longrightarrow>
    \<exists>m'. heapify array k n sz compare aux m = Some m' \<and> heap (elem_at array sz m') lo n
      \<and> permuted array cnt sz n m m'"
proof (induction "n - k" arbitrary: k m rule: less_induct)
  case less
  obtain mx where mx: "heapify_max array k n sz compare aux m = Some mx" "mx \<in> {k, 2 * k, 2 * k + 1}"
    "mx \<le> n" "\<forall>j\<in>{k, 2 * k, 2 * k + 1}. j \<le> n \<longrightarrow> c (elem_at array sz m j) (elem_at array sz m mx) \<le> 0"
    using heapify_max_spec [OF ok, of k n m] lo n less.prems by auto
  show ?case
  proof (cases "mx = k")
    case True
    then have "heap_at (elem_at array sz m) n k" using mx(4) by (simp add: heap_at_def)
    then have "heap (elem_at array sz m) lo n"
      using less.prems(3) unfolding down_inv_def heap_def by metis
    then show ?thesis using mx(1) True by (subst heapify.simps) simp
  next
    case False
    let ?m = "do_swap array k mx sz m"
    have kx: "1 \<le> k" "k < mx" "1 \<le> mx" using False mx(2) lo less.prems by auto
    have "down_inv (elem_at array sz ?m) lo mx n"
      using lo less.prems mx False do_swap_elem(1) [OF ok, of k mx _ m] n kx
      by (intro down_inv_swap [of "elem_at array sz m" lo k n mx]) auto
    then obtain m' where m': "heapify array mx n sz compare aux ?m = Some m'"
      "heap (elem_at array sz m') lo n" "permuted array cnt sz n ?m m'"
      using less.hyps [of mx ?m] kx less.prems mx(3) diff_less_mono2 [of k mx n] by auto
    moreover have "permuted array cnt sz n m ?m"
      using do_swap_permuted [OF ok] kx less.prems mx(3) n by simp
    ultimately show ?thesis using mx(1) False permuted_trans by (subst heapify.simps) auto
  qed
qed

text \<open>Building the heap from the middle down.\<close>

lemma build_heap:
  assumes ok: "array_ok array cnt sz"
  shows "k \<le> cnt \<Longrightarrow> heap (elem_at array sz m) (Suc k) cnt \<Longrightarrow>
    \<exists>m'. for_each (rev [1..<Suc k]) (\<lambda>i. heapify array i cnt sz compare aux) m = Some m'
      \<and> heap (elem_at array sz m') 1 cnt \<and> permuted array cnt sz cnt m m'"
proof (induction k arbitrary: m)
  case (Suc k)
  have "down_inv (elem_at array sz m) (Suc k) (Suc k) cnt"
    using Suc.prems(2) by (auto simp: down_inv_def heap_def)
  then obtain m1 where m1: "heapify array (Suc k) cnt sz compare aux m = Some m1"
    "heap (elem_at array sz m1) (Suc k) cnt" "permuted array cnt sz cnt m m1"
    using heapify_spec [OF ok, of "Suc k" cnt "Suc k" m] Suc.prems(1) by auto
  obtain m2 where "for_each (rev [1..<Suc k]) (\<lambda>i. heapify array i cnt sz compare aux) m1 = Some m2"
    "heap (elem_at array sz m2) 1 cnt" "permuted array cnt sz cnt m1 m2"
    using Suc.IH [of m1] Suc.prems(1) m1(2) by auto
  moreover have "rev [1..<Suc (Suc k)] = Suc k # rev [1..<Suc k]" by simp
  ultimately show ?case using m1(1) permuted_trans [OF m1(3)] by (simp del: upt_Suc)
qed simp

definition tail_sorted :: "(nat \<Rightarrow> u8 list) \<Rightarrow> nat \<Rightarrow> nat \<Rightarrow> bool" where
  "tail_sorted e n cnt \<longleftrightarrow> (\<forall>i j. 1 \<le> i \<and> i < j \<and> n < j \<and> j \<le> cnt \<longrightarrow> c (e i) (e j) \<le> 0)"

lemma sort_down_spec:
  assumes ok: "array_ok array cnt sz" and n: "1 \<le> n" "Suc n \<le> cnt"
    and hp: "heap (elem_at array sz m) 1 (Suc n)" and ts: "tail_sorted (elem_at array sz m) (Suc n) cnt"
  shows "\<exists>m'. sort_down array (Suc n) sz compare aux m = Some m' \<and> heap (elem_at array sz m') 1 n
    \<and> tail_sorted (elem_at array sz m') n cnt \<and> permuted array cnt sz (Suc n) m m'"
proof -
  let ?e = "elem_at array sz"
  define m1 where "m1 = do_swap array 1 (Suc n) sz m"
  have sw: "i \<ge> 1 \<Longrightarrow> ?e m1 i = (if i = 1 then ?e m (Suc n) else if i = Suc n then ?e m 1 else ?e m i)" for i
    using do_swap_elem(1) [OF ok, of 1 "Suc n" i m] n by (simp add: m1_def)
  have "down_inv (?e m1) 1 1 n" using hp by (auto simp: down_inv_def heap_def heap_at_def sw)
  then obtain m' where m': "heapify array 1 n sz compare aux m1 = Some m'" "heap (?e m') 1 n"
    "permuted array cnt sz n m1 m'" using heapify_spec [OF ok, of 1 n 1 m1] n by auto
  have after: "?e m' j = ?e m1 j" if "n < j" for j using m'(3) that by (simp add: permuted_def)
  have before: "\<exists>k. 1 \<le> k \<and> k \<le> n \<and> ?e m' i = ?e m1 k" if "1 \<le> i" "i \<le> n" for i
  proof -
    have "?e m' i \<in> ?e m1 ` {1..n}" using m'(3) that unfolding permuted_def by auto
    then show ?thesis by auto
  qed
  have swm: "\<exists>k. 1 \<le> k \<and> k \<le> Suc n \<and> ?e m1 i = ?e m k" if "1 \<le> i" "i \<le> Suc n" for i
    using that sw [of i] by (intro exI [of _ "if i = 1 then Suc n else if i = Suc n then 1 else i"]) auto
  have "c (?e m' i) (?e m' j) \<le> 0" if ij: "1 \<le> i" "i < j" "n < j" "j \<le> cnt" for i j
  proof -
    obtain k where k: "1 \<le> k" "if i \<le> n then k \<le> n else k = i" "?e m' i = ?e m1 k"
      using before [of i] after [of i] ij by (cases "i \<le> n") auto
    show ?thesis
    proof (cases "j = Suc n")
      case True
      then obtain l where "1 \<le> l" "l \<le> Suc n" "?e m1 k = ?e m l" using swm [of k] k ij by auto
      then show ?thesis using heap_root [OF hp, of l] k True after [of j] sw [of j] by simp
    next
      case False
      then have j: "Suc n < j" using ij by simp
      have "\<exists>l. 1 \<le> l \<and> l < j \<and> ?e m1 k = ?e m l"
      proof (cases "k \<le> Suc n")
        case True
        then show ?thesis using swm [of k] k(1) j by (auto intro: le_less_trans)
      next
        case False
        then have "k = i" using k(2) by (auto split: if_splits)
        then show ?thesis using sw [of k] k(1) False ij by (intro exI [of _ i]) auto
      qed
      then show ?thesis using ts j ij k(3) after [of j] sw [of j] by (auto simp: tail_sorted_def)
    qed
  qed
  then have "tail_sorted (?e m') n cnt" by (simp add: tail_sorted_def)
  moreover have "permuted array cnt sz (Suc n) m m'"
  proof (rule permuted_trans)
    show "permuted array cnt sz (Suc n) m m1"
      unfolding m1_def using do_swap_permuted [OF ok, of 1 "Suc n" "Suc n" m] n by simp
    have "?e m' ` {1..Suc n} = ?e m1 ` {1..Suc n}"
      using m'(3) after [of "Suc n"] by (simp add: permuted_def atLeastAtMostSuc_conv)
    then show "permuted array cnt sz (Suc n) m1 m'" using m'(3) by (simp add: permuted_def)
  qed
  ultimately show ?thesis using m' by (auto simp: sort_down_def m1_def)
qed

lemma sort_loop:
  assumes ok: "array_ok array cnt sz"
  shows "n \<le> cnt \<Longrightarrow> heap (elem_at array sz m) 1 n \<Longrightarrow> tail_sorted (elem_at array sz m) n cnt \<Longrightarrow>
    \<exists>m'. for_each (rev [2..<Suc n]) (\<lambda>i. sort_down array i sz compare aux) m = Some m'
      \<and> tail_sorted (elem_at array sz m') 1 cnt
      \<and> mset (elems array cnt sz m') = mset (elems array cnt sz m) \<and> same_outside array (cnt * sz) m m'"
proof (induction n arbitrary: m)
  case (Suc n)
  show ?case
  proof (cases "n = 0")
    case True
    then show ?thesis using Suc.prems by auto
  next
    case False
    obtain m1 where m1: "sort_down array (Suc n) sz compare aux m = Some m1" "heap (elem_at array sz m1) 1 n"
      "tail_sorted (elem_at array sz m1) n cnt" "permuted array cnt sz (Suc n) m m1"
      using sort_down_spec [OF ok, of n m] Suc.prems False by auto
    obtain m2 where "for_each (rev [2..<Suc n]) (\<lambda>i. sort_down array i sz compare aux) m1 = Some m2"
      "tail_sorted (elem_at array sz m2) 1 cnt"
      "mset (elems array cnt sz m2) = mset (elems array cnt sz m1)" "same_outside array (cnt * sz) m1 m2"
      using Suc.IH [of m1] Suc.prems m1 by auto
    moreover have "rev [2..<Suc (Suc n)] = Suc n # rev [2..<Suc n]" using False by simp
    ultimately show ?thesis using m1 same_outside_trans
      by (auto simp: permuted_def simp del: upt_Suc)
  qed
qed (auto simp: tail_sorted_def)

lemma sorted_elems:
  assumes "tail_sorted (elem_at array sz m) 1 cnt"
  shows "sorted_wrt (\<lambda>x y. c x y \<le> 0) (elems array cnt sz m)"
  using assms by (auto simp: sorted_wrt_iff_nth_less tail_sorted_def)

lemma sort_array_correct:
  assumes ok: "array_ok array cnt sz"
  shows "\<exists>m'. sort_array array cnt sz compare aux m = Some m'
    \<and> sorted_wrt (\<lambda>x y. c x y \<le> 0) (elems array cnt sz m')
    \<and> mset (elems array cnt sz m') = mset (elems array cnt sz m) \<and> same_outside array (cnt * sz) m m'"
proof -
  have "heap (elem_at array sz m) (Suc (cnt div 2)) cnt" by (auto simp: heap_def heap_at_def)
  then obtain m1 where m1: "for_each (rev [1..<Suc (cnt div 2)]) (\<lambda>i. heapify array i cnt sz compare aux) m = Some m1"
    "heap (elem_at array sz m1) 1 cnt" "permuted array cnt sz cnt m m1"
    using build_heap [OF ok, of "cnt div 2" m] by auto
  moreover have "tail_sorted (elem_at array sz m1) cnt cnt" by (simp add: tail_sorted_def)
  ultimately obtain m2 where
    "for_each (rev [2..<Suc cnt]) (\<lambda>i. sort_down array i sz compare aux) m1 = Some m2"
    "tail_sorted (elem_at array sz m2) 1 cnt"
    "mset (elems array cnt sz m2) = mset (elems array cnt sz m1)" "same_outside array (cnt * sz) m1 m2"
    using sort_loop [OF ok, of cnt m1] by auto
  then show ?thesis using ok m1 sorted_elems same_outside_trans
    by (auto simp: sort_array_def array_ok_def permuted_def simp del: upt_Suc)
qed

definition search_result :: "nat \<Rightarrow> nat \<Rightarrow> nat \<Rightarrow> mem8 \<Rightarrow> nat \<Rightarrow> nat \<Rightarrow> nat \<Rightarrow> bool" where
  "search_result array cnt key m a b r \<longleftrightarrow>
     (if r = 0 then \<forall>i. a \<le> i \<and> i < b \<longrightarrow> c (block m key sz) (elems array cnt sz m ! i) \<noteq> 0
      else \<exists>i. a \<le> i \<and> i < b \<and> r = array + i * sz \<and> c (block m key sz) (elems array cnt sz m ! i) = 0)"

lemma search_result_extend:
  assumes "search_result array cnt key m a b r" "a' \<le> a" "b \<le> b'"
    and "\<And>i. a' \<le> i \<Longrightarrow> i < b' \<Longrightarrow> i < a \<or> b \<le> i \<Longrightarrow> c (block m key sz) (elems array cnt sz m ! i) \<noteq> 0"
  shows "search_result array cnt key m a' b' r"
proof (cases "r = 0")
  case True
  then show ?thesis using assms(1,4) unfolding search_result_def by (metis not_less)
next
  case False
  then obtain i where "a \<le> i" "i < b" "r = array + i * sz" "c (block m key sz) (elems array cnt sz m ! i) = 0"
    using assms(1) by (auto simp: search_result_def)
  then show ?thesis using False assms(2,3) by (auto simp: search_result_def intro!: exI [of _ i])
qed

lemma search_loop_spec:
  assumes ok: "array_ok array cnt sz" and key: "key \<noteq> 0"
    and sorted: "sorted_wrt (\<lambda>x y. c x y \<le> 0) (elems array cnt sz m)"
  shows "a \<le> b \<Longrightarrow> b \<le> cnt \<Longrightarrow>
    \<exists>r. search_loop key (array + a * sz) (array + b * sz) sz compare aux m = Some r
      \<and> search_result array cnt key m a b r"
proof (induction "b - a" arbitrary: a b rule: less_induct)
  case less
  let ?k = "block m key sz" and ?x = "\<lambda>i. elems array cnt sz m ! i"
  have pos: "0 < sz" "array \<noteq> 0" using ok by (auto simp: array_ok_def)
  have mono: "c (?x i) (?x j) \<le> 0" if "i \<le> j" "j < cnt" for i j
    using sorted that compare_refl by (cases "i = j") (auto simp: sorted_wrt_iff_nth_less)
  show ?case
  proof (cases "a < b")
    case False
    then show ?thesis using less.prems by (subst search_loop.simps) (simp add: search_result_def)
  next
    case True
    define d where "d = a + (b - a) div 2"
    have d: "a \<le> d" "d < b" "d < cnt" using True less.prems by (auto simp: d_def)
    have mid: "array + a * sz + ((array + b * sz) - (array + a * sz)) div sz div 2 * sz = array + d * sz"
    proof -
      have "(array + b * sz) - (array + a * sz) = (b - a) * sz" by (simp add: diff_mult_distrib)
      then show ?thesis using pos by (simp add: d_def distrib_right)
    qed
    have cmp: "compare key (array + d * sz) aux m = Some (c ?k (?x d))"
      using compare key pos d by (simp add: elem_at_def)
    have lt: "array + a * sz < array + b * sz" using True pos by simp
    have step: "search_loop key (array + a * sz) (array + b * sz) sz compare aux m =
       (if c ?k (?x d) < 0 then search_loop key (array + a * sz) (array + d * sz) sz compare aux m
        else if c ?k (?x d) > 0 then search_loop key (array + Suc d * sz) (array + b * sz) sz compare aux m
        else Some (array + d * sz))"
      using pos lt unfolding search_loop.simps [of key "array + a * sz" "array + b * sz"] Let_def mid cmp
      by (simp add: ac_simps)
    consider "c ?k (?x d) < 0" | "c ?k (?x d) > 0" | "c ?k (?x d) = 0" by linarith
    then show ?thesis
    proof cases
      case 1
      have no: "c ?k (?x i) \<noteq> 0" if "d \<le> i" "i < b" for i
        using 1 mono [of d i] that less.prems trans [of "?x d" "?x i" ?k]
          compare_sym [of ?k "?x i"] compare_sym [of "?x d" ?k] by auto
      obtain r where "search_loop key (array + a * sz) (array + d * sz) sz compare aux m = Some r"
        "search_result array cnt key m a d r" using less.hyps [of d a] d less.prems diff_less_mono [of d b a] by auto
      then show ?thesis using search_result_extend [of array cnt key m a d r a b] d no 1 unfolding step by auto
    next
      case 2
      have no: "c ?k (?x i) \<noteq> 0" if "a \<le> i" "i \<le> d" for i
        using 2 trans [of ?k "?x i" "?x d"] mono [of i d] that d by auto
      obtain r where "search_loop key (array + Suc d * sz) (array + b * sz) sz compare aux m = Some r"
        "search_result array cnt key m (Suc d) b r" using less.hyps [of b "Suc d"] d less.prems diff_less_mono2 [of a "Suc d" b] by auto
      then show ?thesis using search_result_extend [of array cnt key m "Suc d" b r a b] d no 2 unfolding step by auto
    next
      case 3
      then show ?thesis using d pos unfolding step by (auto simp: search_result_def intro!: exI [of _ d])
    qed
  qed
qed

lemma binary_search_correct:
  assumes ok: "array_ok array cnt sz" and key: "key \<noteq> 0"
    and sorted: "sorted_wrt (\<lambda>x y. c x y \<le> 0) (elems array cnt sz m)"
  shows "\<exists>r. binary_search key array cnt sz compare aux m = Some r \<and>
      (if r = 0 then \<forall>x\<in>set (elems array cnt sz m). c (block m key sz) x \<noteq> 0
       else \<exists>i<cnt. r = array + i * sz \<and> c (block m key sz) (block m r sz) = 0)"
proof -
  have "sz * cnt mod 2 ^ 32 = cnt * sz" using ok by (simp add: array_ok_def mult.commute)
  moreover obtain r where "search_loop key (array + 0 * sz) (array + cnt * sz) sz compare aux m = Some r"
    "search_result array cnt key m 0 cnt r"
    using search_loop_spec [OF assms, of 0 cnt] by auto
  ultimately show ?thesis
    by (auto simp: binary_search_def search_result_def elem_at_def in_set_conv_nth split: if_splits)
qed

end

section \<open>Comparison by memcmp\<close>

fun lexcmp :: "u8 list \<Rightarrow> u8 list \<Rightarrow> int" where
  "lexcmp (x # xs) (y # ys) = (if x \<noteq> y then (if x > y then 1 else - 1) else lexcmp xs ys)"
| "lexcmp [] [] = 0"
| "lexcmp [] (y # ys) = - 1"
| "lexcmp (x # xs) [] = 1"

lemma lexcmp_sign: "lexcmp y x = - lexcmp x y"
  by (induction x y rule: lexcmp.induct) auto

lemma lexcmp_trans: "lexcmp x y \<le> 0 \<Longrightarrow> lexcmp y z \<le> 0 \<Longrightarrow> lexcmp x z \<le> 0"
proof (induction x y arbitrary: z rule: lexcmp.induct)
  case (1 x xs y ys)
  then show ?case by (cases z) (auto split: if_splits)
next
  case (3 y ys)
  then show ?case by (cases z) auto
qed auto

lemma lexcmp_eq_0: "lexcmp x y = 0 \<longleftrightarrow> x = y"
  by (induction x y rule: lexcmp.induct) auto

lemma memcmp_lexcmp: "memcmp_loop sz a b m = lexcmp (block m a sz) (block m b sz)"
  by (induction sz a b m rule: memcmp_loop.induct) auto

interpretation memcmp_order: element_order sz compare_thunk "\<lambda>a b. memcmp a b sz" lexcmp for sz :: nat
proof unfold_locales
  show "a \<noteq> 0 \<Longrightarrow> b \<noteq> 0 \<Longrightarrow>
    compare_thunk a b (\<lambda>a b. memcmp a b sz) m = Some (lexcmp (block m a sz) (block m b sz))" for a b m
    by (simp add: compare_thunk_def memcmp_def memcmp_lexcmp)
  show "sgn (lexcmp y x) = - sgn (lexcmp x y)" for x y by (subst lexcmp_sign) (rule sgn_minus)
qed (rule lexcmp_trans)

section \<open>The generator keeps a permutation of the bytes\<close>

definition rc4_ok :: "u8 list \<Rightarrow> bool" where
  "rc4_ok s \<longleftrightarrow> length s = 256 \<and> distinct s"

lemma swap_byte_ok: "rc4_ok s \<Longrightarrow> a < 256 \<Longrightarrow> b < 256 \<Longrightarrow> rc4_ok (swap_byte a b s)"
  by (auto simp: rc4_ok_def swap_byte_def distinct_swap)

lemma unat_u8 [simp]: "unat (x :: u8) < 256"
  using unsigned_less [of x] by simp

lemma random_init_ok:
  assumes "inited r \<Longrightarrow> rc4_ok (rc4_s r)"
  shows "rc4_ok (rc4_s (random_init seed r)) \<and> inited (random_init seed r)"
proof -
  have *: "set is \<subseteq> {..<256} \<Longrightarrow> rc4_ok (fst st) \<Longrightarrow> rc4_ok (fst (fold (random_mix seed) is st))" for "is" st
    by (induction "is" arbitrary: st) (auto simp: random_mix_def Let_def swap_byte_ok split: prod.splits)
  have "distinct (map word_of_nat [0..<256] :: u8 list)"
    by (auto simp: distinct_map inj_on_def word_of_nat_eq_iff take_bit_eq_mod)
  then have "rc4_ok (map word_of_nat [0..<256])" by (simp add: rc4_ok_def)
  then show ?thesis using * [of "[0..<256]" "(map word_of_nat [0..<256], 0)"] assms
    by (auto simp: random_init_def lessThan_atLeast0 split: prod.splits)
qed

lemma random_fill_ok:
  "rc4_ok (rc4_s r) \<Longrightarrow> rc4_ok (rc4_s (fst (random_fill sz buf (r, m)))) \<and>
     same_outside buf sz m (snd (random_fill sz buf (r, m)))"
proof (induction sz arbitrary: buf r m)
  case (Suc sz)
  obtain x r' where x: "random_step r = (x, r')" by fastforce
  then have "rc4_ok (rc4_s r')" using Suc.prems by (auto simp: random_step_def Let_def swap_byte_ok)
  from Suc.IH [OF this, of "buf + 1" "m(buf := x)"] show ?case
    by (auto simp: x same_outside_def fun_upd_def)
qed simp

lemma random_bytes_ok:
  assumes "inited r \<Longrightarrow> rc4_ok (rc4_s r)" "random_bytes buf sz (r, m) = (r', m')"
  shows "rc4_ok (rc4_s r')" "same_outside buf sz m m'"
proof -
  let ?r = "if \<not> inited r then random_init 0 r else r"
  have "rc4_ok (rc4_s ?r)" using assms(1) random_init_ok [of r 0] by auto
  from random_fill_ok [OF this, of sz buf m] assms(2) show "rc4_ok (rc4_s r')" "same_outside buf sz m m'"
    by (auto simp: random_bytes_def Let_def)
qed

section \<open>Sorting and searching\<close>

text \<open>C33: For every comparison function that keeps the documented contract, \<open>qsort\<close> returns with the
  array sorted, holding the elements it held before, and nothing else changed; a \<open>bsearch\<close> of a key
  outside the array then returns null exactly if no element of the original array compares equal to
  the key, and otherwise the address of an element of the array that does.\<close>

theorem qsort_bsearch_correct:
  assumes cmp: "element_order sz compare_thunk compare c"
    and ok: "array \<noteq> 0" "0 < sz" "cnt < 2 ^ 31" "array + cnt * sz \<le> 2 ^ 32"
    and key: "key \<noteq> 0" "key + sz \<le> array \<or> array + cnt * sz \<le> key"
  shows "\<exists>m' r. qsort array cnt sz compare m = Some m'
    \<and> sorted_wrt (\<lambda>x y. c x y \<le> 0) (elems array cnt sz m')
    \<and> mset (elems array cnt sz m') = mset (elems array cnt sz m)
    \<and> (\<forall>x. x < array \<or> array + cnt * sz \<le> x \<longrightarrow> m' x = m x)
    \<and> bsearch key array cnt sz compare m' = Some r
    \<and> (r = 0 \<longleftrightarrow> (\<forall>x\<in>set (elems array cnt sz m). c (block m key sz) x \<noteq> 0))
    \<and> (r \<noteq> 0 \<longrightarrow> (\<exists>i<cnt. r = array + i * sz) \<and> c (block m key sz) (block m' r sz) = 0)"
proof -
  have aok: "array_ok array cnt sz" using ok by (simp add: array_ok_def)
  obtain m' where m': "qsort array cnt sz compare m = Some m'"
    "sorted_wrt (\<lambda>x y. c x y \<le> 0) (elems array cnt sz m')"
    "mset (elems array cnt sz m') = mset (elems array cnt sz m)" "same_outside array (cnt * sz) m m'"
    using element_order.sort_array_correct [OF cmp aok, of m] by (auto simp: qsort_def)
  have same: "set (elems array cnt sz m') = set (elems array cnt sz m)" using m'(3) by (rule mset_eq_setD)
  have kb: "block m' key sz = block m key sz"
    using m'(4) key(2) by (intro block_cong) (auto simp: same_outside_def)
  obtain r where r: "bsearch key array cnt sz compare m' = Some r"
    "if r = 0 then \<forall>x\<in>set (elems array cnt sz m). c (block m key sz) x \<noteq> 0
     else \<exists>i<cnt. r = array + i * sz \<and> c (block m key sz) (block m' r sz) = 0"
    using element_order.binary_search_correct [OF cmp aok key(1) m'(2)] unfolding bsearch_def same kb by blast
  have "\<exists>x\<in>set (elems array cnt sz m). c (block m key sz) x = 0" if r0: "r \<noteq> 0"
  proof -
    obtain i where "i < cnt" "r = array + i * sz" "c (block m key sz) (block m' r sz) = 0" using r(2) r0 by auto
    moreover from this have "block m' r sz \<in> set (elems array cnt sz m')"
      by (auto simp: in_set_conv_nth elem_at_def)
    ultimately show ?thesis using same by auto
  qed
  then have "r = 0 \<longleftrightarrow> (\<forall>x\<in>set (elems array cnt sz m). c (block m key sz) x \<noteq> 0)" using r(2) by metis
  moreover have "r \<noteq> 0 \<longrightarrow> (\<exists>i<cnt. r = array + i * sz) \<and> c (block m key sz) (block m' r sz) = 0"
    using r(2) by (cases "r = 0") auto
  ultimately show ?thesis using m'(1-3) m'(4) [unfolded same_outside_def] r(1)
    by (intro exI [of _ m'] exI [of _ r] conjI)
qed

lemma qsort_demo_elems:
  "elems 4 3 1 (\<lambda>a. word_of_nat (9 - a)) = [[5], [4], [3]]" "block (\<lambda>a. word_of_nat (9 - a)) 1 1 = [8]"
  by (simp_all add: elems_def elem_at_def upt_rec)

theorem qsort_bsearch_correct_witness:
  "\<exists>m' r. qsort 4 3 1 (\<lambda>a b. memcmp a b 1) (\<lambda>a. word_of_nat (9 - a)) = Some m'
     \<and> sorted_wrt (\<lambda>x y. lexcmp x y \<le> 0) (elems 4 3 1 m')
     \<and> mset (elems 4 3 1 m') = {#[5], [4], [3]#}
     \<and> bsearch 1 4 3 1 (\<lambda>a b. memcmp a b 1) m' = Some r \<and> r = 0"
proof -
  obtain m' r where "qsort 4 3 1 (\<lambda>a b. memcmp a b 1) (\<lambda>a. word_of_nat (9 - a)) = Some m'"
    "sorted_wrt (\<lambda>x y. lexcmp x y \<le> 0) (elems 4 3 1 m')" "mset (elems 4 3 1 m') = {#[5], [4], [3]#}"
    "bsearch 1 4 3 1 (\<lambda>a b. memcmp a b 1) m' = Some r"
    "r = 0 \<longleftrightarrow> (\<forall>x\<in>set [[5], [4], [3]]. lexcmp [8] x \<noteq> 0)"
    using qsort_bsearch_correct [OF memcmp_order.element_order_axioms, of 4 1 3 1 "\<lambda>a. word_of_nat (9 - a)"]
    unfolding qsort_demo_elems by fastforce
  then show ?thesis by (intro exI [of _ m'] exI [of _ r]) (simp add: lexcmp_eq_0)
qed

end
