(* ===== verification/Block.thy ===== *)
theory Block
  imports Prelude
begin

text \<open>
  Block devices (\<^verbatim>\<open>devices/block.c\<close>) and disk partitions (\<^verbatim>\<open>devices/partition.c\<close>).

  A block device is found by its address. Its immutable part is the record \<open>blockdev\<close>, the two
  counters are separate fields of the state. The driver operations are data: a disk of the
  disk controller, or a partition of another device. The controller itself is represented by
  the contents of its disks: reading a sector gives what was last written to it, and the

  \<^verbatim>\<open>malloc\<close>: \<open>mem_answers\<close> says whether the calls to come succeed, the addresses are fresh.

  The lemmas give reading and writing on the device a partition lies on. The properties are
  that a write through a device changes one sector of the disk and never leaves the device, and what
  scanning a partition table registers.
\<close>

section \<open>Data\<close>

datatype block_type = BLOCK_KERNEL | BLOCK_FILESYS | BLOCK_SCRATCH | BLOCK_SWAP | BLOCK_RAW | BLOCK_FOREIGN

abbreviation (input) BLOCK_SECTOR_SIZE :: nat where
  "BLOCK_SECTOR_SIZE \<equiv> 512"

record partition =
  p_block :: nat
  p_start :: nat

datatype block_operations = ide_operations nat | partition_operations partition

record blockdev =
  b_name :: string
  b_type :: block_type
  b_size :: nat
  b_ops :: block_operations

record blocks =
  media :: "nat \<Rightarrow> nat \<Rightarrow> u8 list"
  blkdevs :: "nat \<Rightarrow> blockdev option"
  read_cnt :: "nat \<Rightarrow> nat"
  write_cnt :: "nat \<Rightarrow> nat"
  all_blocks :: "nat list"
  block_by_role :: "block_type \<Rightarrow> nat"
  mem_answers :: "bool list"
  next_ptr :: nat

definition kmalloc :: "'a blocks_scheme \<Rightarrow> nat \<times> 'a blocks_scheme" where
  "kmalloc s = (case mem_answers s of
     True # r \<Rightarrow> (next_ptr s, s\<lparr>mem_answers := r, next_ptr := next_ptr s + 1\<rparr>)
   | False # r \<Rightarrow> (0, s\<lparr>mem_answers := r\<rparr>)
   | [] \<Rightarrow> (0, s))"

section \<open>Block devices\<close>

definition block_type_name :: "block_type \<Rightarrow> string" where
  "block_type_name type = (case type of BLOCK_KERNEL \<Rightarrow> ''kernel'' | BLOCK_FILESYS \<Rightarrow> ''filesys''
     | BLOCK_SCRATCH \<Rightarrow> ''scratch'' | BLOCK_SWAP \<Rightarrow> ''swap'' | BLOCK_RAW \<Rightarrow> ''raw'' | BLOCK_FOREIGN \<Rightarrow> ''foreign'')"

text \<open>\<open>role < BLOCK_ROLE_CNT\<close>\<close>

definition is_role :: "block_type \<Rightarrow> bool" where
  "is_role role \<longleftrightarrow> role \<noteq> BLOCK_RAW \<and> role \<noteq> BLOCK_FOREIGN"

definition block_get_role :: "block_type \<Rightarrow> 'a blocks_scheme \<Rightarrow> nat option" where
  "block_get_role role s = do { ASSERT (is_role role); Some (block_by_role s role) }"

definition block_set_role :: "block_type \<Rightarrow> nat \<Rightarrow> 'a blocks_scheme \<Rightarrow> 'a blocks_scheme option" where
  "block_set_role role b s = do {
     ASSERT (is_role role);
     Some (s\<lparr>block_by_role := (block_by_role s)(role := b)\<rparr>) }"

text \<open>\<open>list_elem_to_block\<close> of the first of the remaining elements: null at the end of the list.\<close>

definition list_elem_to_block :: "nat list \<Rightarrow> nat" where
  "list_elem_to_block es = (case es of [] \<Rightarrow> 0 | b # _ \<Rightarrow> b)"

definition block_first :: "'a blocks_scheme \<Rightarrow> nat" where
  "block_first s = list_elem_to_block (all_blocks s)"

definition block_next :: "nat \<Rightarrow> 'a blocks_scheme \<Rightarrow> nat" where
  "block_next b s = list_elem_to_block (tl (dropWhile (\<lambda>x. x \<noteq> b) (all_blocks s)))"

fun block_by_name :: "string \<Rightarrow> nat list \<Rightarrow> 'a blocks_scheme \<Rightarrow> nat option" where
  "block_by_name name [] s = Some 0"
| "block_by_name name (b # bs) s = do {
     d \<leftarrow> blkdevs s b;
     if name = b_name d then Some b else block_by_name name bs s }"

definition block_get_by_name :: "string \<Rightarrow> 'a blocks_scheme \<Rightarrow> nat option" where
  "block_get_by_name name s = block_by_name name (all_blocks s) s"

definition check_sector :: "blockdev \<Rightarrow> nat \<Rightarrow> unit option" where
  "check_sector d sector = (if sector \<ge> b_size d then None else Some ())"

text \<open>The transfer of one sector by the disk controller.\<close>

definition disk_read :: "nat \<Rightarrow> nat \<Rightarrow> 'a blocks_scheme \<Rightarrow> (u8 list \<times> 'a blocks_scheme) option" where
  "disk_read d sec_no s = do { ASSERT (sec_no < 2 ^ 28); Some (media s d sec_no, s) }"

definition disk_write :: "nat \<Rightarrow> nat \<Rightarrow> u8 list \<Rightarrow> 'a blocks_scheme \<Rightarrow> 'a blocks_scheme option" where
  "disk_write d sec_no buf s = do {
     ASSERT (sec_no < 2 ^ 28);
     Some (s\<lparr>media := (media s)(d := (media s d)(sec_no := buf))\<rparr>) }"

text \<open>The call of the driver through the operations of the device: for a partition it is
  \<open>partition_read\<close>, which calls \<open>block_read\<close> on the underlying device.\<close>

partial_function (option) block_read ::
  "nat \<Rightarrow> nat \<Rightarrow> 'a blocks_scheme \<Rightarrow> (u8 list \<times> 'a blocks_scheme) option" where
  "block_read b sector s = do {
     d \<leftarrow> blkdevs s b;
     check_sector d sector;
     (x, s) \<leftarrow> (case b_ops d of
       ide_operations n \<Rightarrow> disk_read n sector s
     | partition_operations p \<Rightarrow> block_read (p_block p) ((p_start p + sector) mod 2 ^ 32) s);
     Some (x, s\<lparr>read_cnt := (read_cnt s)(b := (read_cnt s b + 1) mod 2 ^ 64)\<rparr>) }"

definition partition_read :: "partition \<Rightarrow> nat \<Rightarrow> 'a blocks_scheme \<Rightarrow> (u8 list \<times> 'a blocks_scheme) option" where
  "partition_read p sector s = block_read (p_block p) ((p_start p + sector) mod 2 ^ 32) s"

partial_function (option) block_write ::
  "nat \<Rightarrow> nat \<Rightarrow> u8 list \<Rightarrow> 'a blocks_scheme \<Rightarrow> 'a blocks_scheme option" where
  "block_write b sector buf s = do {
     d \<leftarrow> blkdevs s b;
     check_sector d sector;
     ASSERT (b_type d \<noteq> BLOCK_FOREIGN);
     s \<leftarrow> (case b_ops d of
       ide_operations n \<Rightarrow> disk_write n sector buf s
     | partition_operations p \<Rightarrow> block_write (p_block p) ((p_start p + sector) mod 2 ^ 32) buf s);
     Some (s\<lparr>write_cnt := (write_cnt s)(b := (write_cnt s b + 1) mod 2 ^ 64)\<rparr>) }"

definition partition_write :: "partition \<Rightarrow> nat \<Rightarrow> u8 list \<Rightarrow> 'a blocks_scheme \<Rightarrow> 'a blocks_scheme option" where
  "partition_write p sector buf s = block_write (p_block p) ((p_start p + sector) mod 2 ^ 32) buf s"

definition block_size :: "nat \<Rightarrow> 'a blocks_scheme \<Rightarrow> nat option" where
  "block_size b s = map_option b_size (blkdevs s b)"

definition block_name :: "nat \<Rightarrow> 'a blocks_scheme \<Rightarrow> string option" where
  "block_name b s = map_option b_name (blkdevs s b)"

definition block_type_of :: "nat \<Rightarrow> 'a blocks_scheme \<Rightarrow> block_type option" where
  "block_type_of b s = map_option b_type (blkdevs s b)"

text \<open>\<open>strlcpy\<close> into an array of 16 characters keeps 15 of them.\<close>

definition block_register ::
  "string \<Rightarrow> block_type \<Rightarrow> nat \<Rightarrow> block_operations \<Rightarrow> 'a blocks_scheme \<Rightarrow> (nat \<times> 'a blocks_scheme) option" where
  "block_register name type sz ops s =
     (let (b, s) = kmalloc s in do {
        ASSERT (b \<noteq> 0);
        Some (b, s\<lparr>all_blocks := all_blocks s @ [b],
          blkdevs := (blkdevs s)(b := Some \<lparr>b_name = take 15 name, b_type = type, b_size = sz, b_ops = ops\<rparr>),
          read_cnt := (read_cnt s)(b := 0), write_cnt := (write_cnt s)(b := 0)\<rparr>) })"

section \<open>Partition tables\<close>

text \<open>Little-endian numbers in a sector.\<close>

definition le_at :: "nat \<Rightarrow> nat \<Rightarrow> u8 list \<Rightarrow> nat" where
  "le_at i n x = horner_sum unat 256 (take n (drop i x))"

record partition_table_entry =
  e_type :: u8
  e_offset :: nat
  e_size :: nat

definition table_entry :: "u8 list \<Rightarrow> nat \<Rightarrow> partition_table_entry" where
  "table_entry pt i = (let k = 446 + 16 * i
     in \<lparr>e_type = pt ! (k + 4), e_offset = le_at (k + 8) 4 pt, e_size = le_at (k + 12) 4 pt\<rparr>)"

fun decimal_digits :: "nat \<Rightarrow> string" where
  "decimal_digits n = (if n < 10 then [] else decimal_digits (n div 10)) @ [char_of (48 + n mod 10)]"

declare decimal_digits.simps [simp del]

definition partition_block_type :: "u8 \<Rightarrow> block_type" where
  "partition_block_type part_type = (if part_type = 0x20 then BLOCK_KERNEL
     else if part_type = 0x21 then BLOCK_FILESYS
     else if part_type = 0x22 then BLOCK_SCRATCH
     else if part_type = 0x23 then BLOCK_SWAP else BLOCK_FOREIGN)"

definition found_partition :: "nat \<Rightarrow> u8 \<Rightarrow> nat \<Rightarrow> nat \<Rightarrow> nat \<Rightarrow> 'a blocks_scheme \<Rightarrow> 'a blocks_scheme option" where
  "found_partition b part_type start sz part_nr s = do {
     bsz \<leftarrow> block_size b s;
     if start \<ge> bsz then Some s
     else if (start + sz) mod 2 ^ 32 < start \<or> (start + sz) mod 2 ^ 32 > bsz then Some s
     else (let (p, s) = kmalloc s in do {
       ASSERT (p \<noteq> 0);
       bname \<leftarrow> block_name b s;
       (_, s) \<leftarrow> block_register (take 15 (bname @ decimal_digits part_nr)) (partition_block_type part_type) sz
         (partition_operations \<lparr>p_block = b, p_start = start\<rparr>) s;
       Some s }) }"

definition is_extended :: "u8 \<Rightarrow> bool" where
  "is_extended t \<longleftrightarrow> t = 0x05 \<or> t = 0x0f \<or> t = 0x85 \<or> t = 0xc5"

text \<open>The loop over the four entries is \<open>table_loop\<close>; \<open>rec\<close> stands for
  \<open>read_partition_table\<close> and \<open>ext_call\<close> is its recursive call for an extended partition.\<close>

definition ext_call :: "(nat \<Rightarrow> nat \<Rightarrow> 'n \<Rightarrow> 'n option) \<Rightarrow> nat \<Rightarrow> nat \<Rightarrow> partition_table_entry \<Rightarrow> 'n \<Rightarrow> 'n option" where
  "ext_call rec sector primary e ns =
     (if sector = 0 then rec (e_offset e) (e_offset e) ns
      else rec ((e_offset e + primary) mod 2 ^ 32) primary ns)"

fun table_loop :: "(nat \<Rightarrow> nat \<Rightarrow> nat \<times> 'a blocks_scheme \<Rightarrow> (nat \<times> 'a blocks_scheme) option) \<Rightarrow>
  nat \<Rightarrow> nat \<Rightarrow> nat \<Rightarrow> partition_table_entry list \<Rightarrow> nat \<times> 'a blocks_scheme \<Rightarrow> (nat \<times> 'a blocks_scheme) option" where
  "table_loop rec b sector primary [] ns = Some ns"
| "table_loop rec b sector primary (e # es) ns = do {
     ns \<leftarrow> (if e_size e = 0 \<or> e_type e = 0 then Some ns
            else if is_extended (e_type e) then ext_call rec sector primary e ns
            else (case ns of (part_nr, s) \<Rightarrow> do {
              s \<leftarrow> found_partition b (e_type e) ((e_offset e + sector) mod 2 ^ 32) (e_size e) (part_nr + 1) s;
              Some (part_nr + 1, s) }));
     table_loop rec b sector primary es ns }"

lemma table_loop_mono [partial_function_mono]:
  assumes "\<And>sector primary ns. mono_option (\<lambda>f. g f sector primary ns)"
  shows "mono_option (\<lambda>f. table_loop (g f) b sector primary es ns)"
proof (induction es arbitrary: ns)
  case Nil
  show ?case by (simp add: monotone_def option.leq_refl)
next
  case (Cons e es)
  show ?case unfolding table_loop.simps ext_call_def
    by (intro bind_mono Cons) (use assms in \<open>auto intro!: if_mono option.const_mono split: prod.split\<close>)
qed

partial_function (option) read_partition_table ::
  "nat \<Rightarrow> nat \<Rightarrow> nat \<Rightarrow> nat \<times> 'a blocks_scheme \<Rightarrow> (nat \<times> 'a blocks_scheme) option" where
  "read_partition_table b sector primary ns = (case ns of (part_nr, s) \<Rightarrow> do {
     bsz \<leftarrow> block_size b s;
     if sector \<ge> bsz then Some (part_nr, s)
     else (let (pt, s) = kmalloc s in do {
       ASSERT (pt \<noteq> 0);
       (x, s) \<leftarrow> block_read b 0 s;
       if le_at 510 2 x \<noteq> 0xaa55 then Some (part_nr, s)
       else table_loop (read_partition_table b) b sector primary (map (table_entry x) [0..<4]) (part_nr, s) }) })"

definition partition_scan :: "nat \<Rightarrow> 'a blocks_scheme \<Rightarrow> 'a blocks_scheme option" where
  "partition_scan b s = map_option snd (read_partition_table b 0 0 (0, s))"

section \<open>Where the sectors of a device are\<close>

text \<open>The disk a device lies on, the number of its first sector there, and its size.\<close>

definition dev_geom :: "'a blocks_scheme \<Rightarrow> nat \<Rightarrow> (nat \<times> nat \<times> nat) option" where
  "dev_geom s b = do {
     dv \<leftarrow> blkdevs s b;
     case b_ops dv of
       ide_operations n \<Rightarrow> if b_size dv \<le> 2 ^ 28 then Some (n, 0, b_size dv) else None
     | partition_operations p \<Rightarrow> do {
         base \<leftarrow> blkdevs s (p_block p);
         case b_ops base of
           ide_operations n \<Rightarrow> if p_start p + b_size dv \<le> b_size base \<and> b_size base \<le> 2 ^ 28
             then Some (n, p_start p, b_size dv) else None
         | partition_operations q \<Rightarrow> None } }"

definition writable :: "'a blocks_scheme \<Rightarrow> nat \<Rightarrow> bool" where
  "writable s b \<longleftrightarrow> (case blkdevs s b of None \<Rightarrow> False | Some dv \<Rightarrow> b_type dv \<noteq> BLOCK_FOREIGN \<and>
     (case b_ops dv of ide_operations n \<Rightarrow> True
      | partition_operations p \<Rightarrow> (case blkdevs s (p_block p) of None \<Rightarrow> False
          | Some base \<Rightarrow> b_type base \<noteq> BLOCK_FOREIGN)))"

lemma dev_geom_cases:
  assumes "dev_geom s b = Some (d, st, sz)"
  obtains (disk) dv where "blkdevs s b = Some dv" "b_ops dv = ide_operations d" "st = 0" "sz = b_size dv" "sz \<le> 2 ^ 28"
  | (part) dv p base where "blkdevs s b = Some dv" "b_ops dv = partition_operations p" "sz = b_size dv"
      "st = p_start p" "blkdevs s (p_block p) = Some base" "b_ops base = ide_operations d"
      "st + sz \<le> b_size base" "b_size base \<le> 2 ^ 28"
proof -
  obtain dv where dv: "blkdevs s b = Some dv" using assms by (cases "blkdevs s b") (auto simp: dev_geom_def)
  show thesis
  proof (cases "b_ops dv")
    case (ide_operations n)
    then show ?thesis using assms disk dv by (auto simp: dev_geom_def split: if_splits)
  next
    case (partition_operations p)
    then obtain base where base: "blkdevs s (p_block p) = Some base"
      using assms dv by (cases "blkdevs s (p_block p)") (auto simp: dev_geom_def)
    then show ?thesis using assms part dv partition_operations
      by (cases "b_ops base") (auto simp: dev_geom_def split: if_splits)
  qed
qed

lemma block_read_disk:
  assumes "blkdevs s b = Some dv" "b_ops dv = ide_operations d" "i < b_size dv" "i < 2 ^ 28"
  shows "\<exists>rc. block_read b i s = Some (media s d i, s\<lparr>read_cnt := rc\<rparr>)"
  using assms by (subst block_read.simps) (auto simp: check_sector_def disk_read_def)

lemma block_write_disk:
  assumes "blkdevs s b = Some dv" "b_ops dv = ide_operations d" "i < b_size dv" "i < 2 ^ 28"
    and "b_type dv \<noteq> BLOCK_FOREIGN"
  shows "\<exists>wc. block_write b i x s
     = Some (s\<lparr>media := (media s)(d := (media s d)(i := x)), write_cnt := wc\<rparr>)"
  using assms by (subst block_write.simps) (auto simp: check_sector_def disk_write_def)

lemma block_read_eq:
  assumes "dev_geom s b = Some (d, st, sz)" "i < sz"
  shows "\<exists>rc. block_read b i s = Some (media s d (st + i), s\<lparr>read_cnt := rc\<rparr>)"
  using assms(1)
proof (cases rule: dev_geom_cases)
  case (disk dv)
  then show ?thesis using block_read_disk [of s b dv d i] assms(2) by simp
next
  case (part dv p base)
  then obtain rc where "block_read (p_block p) (st + i) s = Some (media s d (st + i), s\<lparr>read_cnt := rc\<rparr>)"
    using block_read_disk [of s "p_block p" base d "st + i"] assms(2) by auto
  moreover have "(st + i) mod 2 ^ 32 = st + i" using part assms(2) by simp
  ultimately show ?thesis using part assms(2) by (subst block_read.simps) (auto simp: check_sector_def)
qed

lemma block_write_eq:
  assumes "dev_geom s b = Some (d, st, sz)" "i < sz" "writable s b"
  shows "\<exists>wc. block_write b i x s
     = Some (s\<lparr>media := (media s)(d := (media s d)(st + i := x)), write_cnt := wc\<rparr>)"
  using assms(1)
proof (cases rule: dev_geom_cases)
  case (disk dv)
  then show ?thesis using block_write_disk [of s b dv d i x] assms(2,3) by (simp add: writable_def)
next
  case (part dv p base)
  then obtain wc where "block_write (p_block p) (st + i) x s
      = Some (s\<lparr>media := (media s)(d := (media s d)(st + i := x)), write_cnt := wc\<rparr>)"
    using block_write_disk [of s "p_block p" base d "st + i" x] assms(2,3) by (auto simp: writable_def)
  moreover have "(st + i) mod 2 ^ 32 = st + i" using part assms(2) by simp
  ultimately show ?thesis using part assms(2,3)
    by (subst block_write.simps) (auto simp: check_sector_def writable_def)
qed

lemma block_io_past_end:
  assumes "dev_geom s b = Some (d, st, sz)" "sz \<le> i"
  shows "block_read b i s = None" "block_write b i x s = None"
  using assms by (auto elim!: dev_geom_cases simp: block_read.simps block_write.simps check_sector_def)

lemma dev_geom_cong:
  assumes "blkdevs s' = blkdevs s"
  shows "dev_geom s' b = dev_geom s b" "writable s' b = writable s b"
  unfolding dev_geom_def writable_def assms by (rule refl)+

text \<open>A disk of 100 sectors with the given first sector, a file system partition in the sectors
  10 to 49 and a swap partition in 50 to 99.\<close>

definition demo_blocks :: "u8 list \<Rightarrow> blocks" where
  "demo_blocks table = \<lparr>media = (\<lambda>d i. if i = 0 then table else []),
     blkdevs = [1 \<mapsto> \<lparr>b_name = ''hda'', b_type = BLOCK_RAW, b_size = 100, b_ops = ide_operations 0\<rparr>,
       2 \<mapsto> \<lparr>b_name = ''hda1'', b_type = BLOCK_FILESYS, b_size = 40,
         b_ops = partition_operations \<lparr>p_block = 1, p_start = 10\<rparr>\<rparr>,
       3 \<mapsto> \<lparr>b_name = ''hda2'', b_type = BLOCK_SWAP, b_size = 50,
         b_ops = partition_operations \<lparr>p_block = 1, p_start = 50\<rparr>\<rparr>],
     read_cnt = (\<lambda>_. 0), write_cnt = (\<lambda>_. 0), all_blocks = [1, 2, 3], block_by_role = (\<lambda>_. 0),
     mem_answers = replicate 9 True, next_ptr = 4\<rparr>"

lemma demo_blocks_geom:
  "dev_geom (demo_blocks t) 1 = Some (0, 0, 100)" "dev_geom (demo_blocks t) 2 = Some (0, 10, 40)"
  "dev_geom (demo_blocks t) 3 = Some (0, 50, 50)" "writable (demo_blocks t) 2"
  by (simp_all add: dev_geom_def writable_def demo_blocks_def)

text \<open>C34: Writing a sector of a device and reading it back gives what was written; every sector of any
  device that does not lie at the same place of the same disk reads as before, so partitions that do
  not overlap cannot affect each other. An access past the end of the device panics, also when that
  sector exists on the disk the partition is on.\<close>

theorem block_write_isolated:
  assumes "dev_geom s b = Some (d, st, sz)" "writable s b"
  shows "if i < sz then \<exists>s'. block_write b i x s = Some s'
      \<and> map_option fst (block_read b i s') = Some x
      \<and> (\<forall>b' d' st' sz' j. dev_geom s b' = Some (d', st', sz') \<and> j < sz' \<and> (d', st' + j) \<noteq> (d, st + i) \<longrightarrow>
           map_option fst (block_read b' j s') = map_option fst (block_read b' j s))
    else block_write b i x s = None \<and> block_read b i s = None"
proof (cases "i < sz")
  case True
  obtain wc where "block_write b i x s
      = Some (s\<lparr>media := (media s)(d := (media s d)(st + i := x)), write_cnt := wc\<rparr>)"
    using block_write_eq [OF assms(1) True assms(2)] by blast
  then obtain s' where w: "block_write b i x s = Some s'" "media s' = (media s)(d := (media s d)(st + i := x))"
    "blkdevs s' = blkdevs s" by simp
  have rd: "map_option fst (block_read b' j s') = Some (media s' d' (st' + j))"
    "map_option fst (block_read b' j s) = Some (media s d' (st' + j))"
    if "dev_geom s b' = Some (d', st', sz')" "j < sz'" for b' d' st' sz' j
    using block_read_eq [of s b' d' st' sz' j] block_read_eq [of s' b' d' st' sz' j] that
    by (auto simp: dev_geom_cong [OF w(3)])
  have "map_option fst (block_read b' j s') = map_option fst (block_read b' j s)"
    if "dev_geom s b' = Some (d', st', sz')" "j < sz'" "(d', st' + j) \<noteq> (d, st + i)" for b' d' st' sz' j
    unfolding rd [OF that(1,2)] using that(3) by (auto simp: w(2))
  then show ?thesis using True w rd(1) [OF assms(1) True] by auto
qed (use block_io_past_end [OF assms(1)] in auto)

theorem block_write_isolated_witness:
  "(\<exists>s'. block_write 2 39 [7] (demo_blocks []) = Some s' \<and> map_option fst (block_read 2 39 s') = Some [7]
      \<and> map_option fst (block_read 3 0 s') = map_option fst (block_read 3 0 (demo_blocks [])))
   \<and> block_write 2 40 [7] (demo_blocks []) = None"
proof -
  obtain s' where s': "block_write 2 39 [7] (demo_blocks []) = Some s'" "map_option fst (block_read 2 39 s') = Some [7]"
    "\<forall>b' d' st' sz' j. dev_geom (demo_blocks []) b' = Some (d', st', sz') \<and> j < sz' \<and> (d', st' + j) \<noteq> (0, 10 + 39) \<longrightarrow>
       map_option fst (block_read b' j s') = map_option fst (block_read b' j (demo_blocks []))"
    using block_write_isolated [OF demo_blocks_geom(2,4), of 39 "[7]" "[]"] by auto
  have "map_option fst (block_read 3 0 s') = map_option fst (block_read 3 0 (demo_blocks []))"
    using s'(3) [rule_format, of 3 0 50 50 0] demo_blocks_geom(3) by simp
  moreover have "block_write 2 40 [7] (demo_blocks []) = None"
    using block_write_isolated [OF demo_blocks_geom(2,4), of 40 "[7]" "[]"] by simp
  ultimately show ?thesis using s'(1,2) by blast
qed

section \<open>Scanning a partition table\<close>

definition mem_ok :: "nat \<Rightarrow> 'a blocks_scheme \<Rightarrow> bool" where
  "mem_ok n s \<longleftrightarrow> n \<le> length (mem_answers s) \<and> (\<forall>i<n. mem_answers s ! i)"

lemma kmalloc_ok:
  assumes "mem_ok (Suc n) s"
  obtains s' where "kmalloc s = (next_ptr s, s')"
    "s' = s\<lparr>mem_answers := tl (mem_answers s), next_ptr := next_ptr s + 1\<rparr>" "mem_ok n s'"
proof -
  obtain x r where m: "mem_answers s = x # r" using assms by (cases "mem_answers s") (auto simp: mem_ok_def)
  then have "x" using assms by (auto simp: mem_ok_def dest: spec [of _ 0])
  moreover have "mem_ok n (s\<lparr>mem_answers := tl (mem_answers s), next_ptr := next_ptr s + 1\<rparr>)"
    using assms m by (auto simp: mem_ok_def dest: spec [of _ "Suc _"])
  ultimately show thesis using that m by (simp add: kmalloc_def)
qed

definition blocks_inv :: "'a blocks_scheme \<Rightarrow> bool" where
  "blocks_inv s \<longleftrightarrow> 0 < next_ptr s \<and> (\<forall>p. blkdevs s p \<noteq> None \<longrightarrow> p < next_ptr s)"

definition valid_entry :: "nat \<Rightarrow> partition_table_entry \<Rightarrow> bool" where
  "valid_entry sz e \<longleftrightarrow> e_size e \<noteq> 0 \<and> e_type e \<noteq> 0 \<and> e_offset e < sz \<and> e_offset e + e_size e \<le> sz"

text \<open>What scanning adds: the devices \<open>ps\<close>, one for each valid entry, in order.\<close>

definition registered ::
  "nat \<Rightarrow> partition_table_entry list \<Rightarrow> nat list \<Rightarrow> 'a blocks_scheme \<Rightarrow> 'a blocks_scheme \<Rightarrow> bool" where
  "registered d es ps s s' \<longleftrightarrow> media s' = media s \<and> all_blocks s' = all_blocks s @ ps
     \<and> next_ptr s \<le> next_ptr s' \<and> (\<forall>p<next_ptr s. blkdevs s' p = blkdevs s p)
     \<and> map (\<lambda>p. (dev_geom s' p, block_type_of p s')) ps
         = map (\<lambda>e. (Some (d, e_offset e, e_size e), Some (partition_block_type (e_type e)))) es
     \<and> (\<forall>p\<in>set ps. next_ptr s \<le> p \<and> p < next_ptr s')"

lemma mod_end:
  assumes "start < bsz" "bsz \<le> 2 ^ 28" "sz < 2 ^ 32"
  shows "(start + sz) mod 2 ^ 32 < start \<or> bsz < (start + sz) mod 2 ^ 32 \<longleftrightarrow> bsz < start + (sz :: nat)"
proof (cases "start + sz < 2 ^ 32")
  case False
  then have "(start + sz) mod 2 ^ 32 = start + sz - 2 ^ 32" using assms by (simp add: mod_if)
  moreover from this have "start + sz - 2 ^ 32 < start" "bsz < start + sz" using False assms by simp_all
  ultimately show ?thesis by simp
qed (use assms in auto)

lemma found_partition_valid:
  assumes inv: "blocks_inv s" and dv: "blkdevs s b = Some dv" "b_ops dv = ide_operations d" "b_size dv \<le> 2 ^ 28"
    and e: "valid_entry (b_size dv) e" "e_size e < 2 ^ 32" and mem: "mem_ok (Suc (Suc n)) s"
  obtains s' p where "found_partition b (e_type e) (e_offset e) (e_size e) nr s = Some s'"
    "registered d [e] [p] s s'" "blocks_inv s'" "mem_ok n s'"
proof -
  obtain s1 where s1: "kmalloc s = (next_ptr s, s1)"
    "s1 = s\<lparr>mem_answers := tl (mem_answers s), next_ptr := next_ptr s + 1\<rparr>" "mem_ok (Suc n) s1"
    using kmalloc_ok [OF mem] .
  obtain s2 where s2: "kmalloc s1 = (next_ptr s1, s2)"
    "s2 = s1\<lparr>mem_answers := tl (mem_answers s1), next_ptr := next_ptr s1 + 1\<rparr>" "mem_ok n s2"
    using kmalloc_ok [OF s1(3)] .
  define q where "q = \<lparr>b_name = take 15 (take 15 (b_name dv @ decimal_digits nr)),
    b_type = partition_block_type (e_type e), b_size = e_size e,
    b_ops = partition_operations \<lparr>p_block = b, p_start = e_offset e\<rparr>\<rparr>"
  define s3 where "s3 = s2\<lparr>all_blocks := all_blocks s2 @ [next_ptr s1],
    blkdevs := (blkdevs s2)(next_ptr s1 := Some q),
    read_cnt := (read_cnt s2)(next_ptr s1 := 0), write_cnt := (write_cnt s2)(next_ptr s1 := 0)\<rparr>"
  have pos: "0 < next_ptr s" "b < next_ptr s" using inv dv by (auto simp: blocks_inv_def)
  then have pos1: "0 < next_ptr s1" by (simp add: s1(2))
  have bs: "block_size b s = Some (b_size dv)" "block_name b s1 = Some (b_name dv)"
    using dv by (simp_all add: s1(2) block_size_def block_name_def)
  have reg: "block_register (take 15 (b_name dv @ decimal_digits nr)) (partition_block_type (e_type e)) (e_size e)
      (partition_operations \<lparr>p_block = b, p_start = e_offset e\<rparr>) s1 = Some (next_ptr s1, s3)"
    using pos1 by (simp add: block_register_def s2(1) s3_def q_def)
  have "\<not> ((e_offset e + e_size e) mod 2 ^ 32 < e_offset e \<or> b_size dv < (e_offset e + e_size e) mod 2 ^ 32)"
    using mod_end [of "e_offset e" "b_size dv" "e_size e"] dv e by (auto simp: valid_entry_def)
  then have "found_partition b (e_type e) (e_offset e) (e_size e) nr s = Some s3"
    using e(1) pos reg by (simp add: found_partition_def bs s1(1) valid_entry_def)
  moreover have "registered d [e] [next_ptr s1] s s3" "blocks_inv s3" "mem_ok n s3"
    using s1(2) s2(2,3) inv dv e
    by (auto simp: registered_def s3_def q_def dev_geom_def block_type_of_def valid_entry_def blocks_inv_def mem_ok_def)
  ultimately show thesis using that by blast
qed

lemma found_partition_invalid:
  assumes "blkdevs s b = Some dv" "b_size dv \<le> 2 ^ 28" "\<not> valid_entry (b_size dv) e" "e_size e \<noteq> 0" "e_type e \<noteq> 0"
    and "e_size e < 2 ^ 32"
  shows "found_partition b (e_type e) (e_offset e) (e_size e) nr s = Some s"
proof (cases "e_offset e < b_size dv")
  case True
  then have "b_size dv < e_offset e + e_size e" using assms by (simp add: valid_entry_def)
  then show ?thesis using True assms mod_end [of "e_offset e" "b_size dv" "e_size e"]
    by (simp add: found_partition_def block_size_def)
qed (use assms in \<open>simp add: found_partition_def block_size_def\<close>)

lemma dev_geom_stable:
  assumes "blocks_inv s" "\<forall>p<next_ptr s. blkdevs s' p = blkdevs s p" "dev_geom s b = Some g"
  shows "dev_geom s' b = Some g"
proof -
  obtain d st sz where g: "g = (d, st, sz)" by (cases g)
  have same: "blkdevs s p = Some dv \<Longrightarrow> blkdevs s' p = Some dv" for p dv
    using assms(1,2) by (auto simp: blocks_inv_def)
  from assms(3) [unfolded g] show ?thesis unfolding g
    by (cases rule: dev_geom_cases) (auto simp: dev_geom_def dest!: same)
qed

lemma registered_refl: "registered d [] [] s s"
  by (simp add: registered_def)

lemma registered_trans:
  assumes a: "registered d es ps s s1" and b: "registered d es' ps' s1 s2" and inv: "blocks_inv s1"
  shows "registered d (es @ es') (ps @ ps') s s2"
proof -
  have same: "\<forall>p<next_ptr s1. blkdevs s2 p = blkdevs s1 p" using b by (simp add: registered_def)
  have "(dev_geom s2 p, block_type_of p s2) = (dev_geom s1 p, block_type_of p s1)" if p: "p \<in> set ps" for p
  proof -
    have "(dev_geom s1 p, block_type_of p s1) \<in> set (map (\<lambda>p. (dev_geom s1 p, block_type_of p s1)) ps)"
      using p by simp
    moreover have "map (\<lambda>p. (dev_geom s1 p, block_type_of p s1)) ps
        = map (\<lambda>e. (Some (d, e_offset e, e_size e), Some (partition_block_type (e_type e)))) es"
      using a by (simp add: registered_def)
    ultimately have "(dev_geom s1 p, block_type_of p s1)
        \<in> set (map (\<lambda>e. (Some (d, e_offset e, e_size e), Some (partition_block_type (e_type e)))) es)" by metis
    then obtain g where "dev_geom s1 p = Some g" by auto
    then show ?thesis using dev_geom_stable [OF inv same] same p a
      by (simp add: registered_def block_type_of_def)
  qed
  then have "map (\<lambda>p. (dev_geom s2 p, block_type_of p s2)) ps = map (\<lambda>p. (dev_geom s1 p, block_type_of p s1)) ps"
    by simp
  also have "\<dots> = map (\<lambda>e. (Some (d, e_offset e, e_size e), Some (partition_block_type (e_type e)))) es"
    using a by (simp add: registered_def)
  finally show ?thesis using a b by (auto simp: registered_def)
qed

lemma table_loop_spec:
  assumes "blocks_inv s" "blkdevs s b = Some dv" "b_ops dv = ide_operations d" "b_size dv \<le> 2 ^ 28"
    and "\<forall>e\<in>set es. (e_size e = 0 \<or> e_type e = 0 \<or> \<not> is_extended (e_type e)) \<and> e_size e < 2 ^ 32 \<and> e_offset e < 2 ^ 32"
    and "mem_ok (2 * length es + n) s"
  shows "\<exists>nr' s' ps. table_loop rec b 0 primary es (nr, s) = Some (nr', s')
     \<and> registered d (filter (valid_entry (b_size dv)) es) ps s s' \<and> blocks_inv s'"
  using assms
proof (induction es arbitrary: nr s)
  case Nil
  then show ?case using registered_refl by fastforce
next
  case (Cons e es)
  have mem: "mem_ok (Suc (Suc (2 * length es + n))) s" using Cons.prems(6) by simp
  have le: "mem_ok (2 * length es + n) s" using mem by (simp add: mem_ok_def)
  consider (empty) "e_size e = 0 \<or> e_type e = 0"
    | (bad) "\<not> (e_size e = 0 \<or> e_type e = 0)" "\<not> valid_entry (b_size dv) e"
    | (ok) "\<not> (e_size e = 0 \<or> e_type e = 0)" "valid_entry (b_size dv) e" by blast
  then show ?case
  proof cases
    case empty
    then have "\<not> valid_entry (b_size dv) e" by (auto simp: valid_entry_def)
    then show ?thesis using empty Cons.IH [of s nr] Cons.prems le by auto
  next
    case bad
    then have "found_partition b (e_type e) (e_offset e) (e_size e) (nr + 1) s = Some s"
      using Cons.prems by (intro found_partition_invalid) auto
    then show ?thesis using bad Cons.IH [of s "nr + 1"] Cons.prems le by auto
  next
    case ok
    obtain s1 p where s1: "found_partition b (e_type e) (e_offset e) (e_size e) (nr + 1) s = Some s1"
      "registered d [e] [p] s s1" "blocks_inv s1" "mem_ok (2 * length es + n) s1"
      using found_partition_valid [OF Cons.prems(1-4) ok(2) _ mem] Cons.prems(5) by auto
    have b: "blkdevs s1 b = Some dv" using s1(2) Cons.prems(1,2) by (auto simp: registered_def blocks_inv_def)
    obtain nr' s' ps where s': "table_loop rec b 0 primary es (nr + 1, s1) = Some (nr', s')"
      "registered d (filter (valid_entry (b_size dv)) es) ps s1 s'" "blocks_inv s'"
      using Cons.IH [OF s1(3) b Cons.prems(3,4) _ s1(4), of "nr + 1"] Cons.prems(5) by auto
    have "registered d ([e] @ filter (valid_entry (b_size dv)) es) ([p] @ ps) s s'"
      by (rule registered_trans [OF s1(2) s'(2) s1(3)])
    moreover have "table_loop rec b 0 primary (e # es) (nr, s) = Some (nr', s')"
      using ok Cons.prems(5) s1(1) s'(1) by simp
    ultimately show ?thesis using ok s'(3) by auto
  qed
qed

lemma le_at_bound: "le_at i n x < 256 ^ n"
proof -
  have "horner_sum unat 256 (ys :: u8 list) < 256 ^ length ys" for ys
  proof (induction ys)
    case (Cons y ys)
    have "unat y < 256" using unsigned_less [of y] by simp
    then show ?case using Cons by simp
  qed simp
  from this [of "take n (drop i x)"] show ?thesis
    unfolding le_at_def by (rule less_le_trans) (simp add: power_increasing)
qed

lemma table_entry_bounds: "e_size (table_entry x i) < 2 ^ 32" "e_offset (table_entry x i) < 2 ^ 32"
  using le_at_bound [of _ 4 x] by (simp_all add: table_entry_def Let_def)

text \<open>C35: Scanning a disk whose partition table has a valid signature and no extended partition
  returns, changes no sector, and registers exactly one device for each entry that is not empty and
  lies inside the disk, in table order, with the sectors and the type the entry gives.\<close>

theorem partition_scan_registers:
  assumes "blocks_inv s" "blkdevs s b = Some dv" "b_ops dv = ide_operations d" "b_size dv \<le> 2 ^ 28" "0 < b_size dv"
    and "le_at 510 2 (media s d 0) = 0xaa55" "es = map (table_entry (media s d 0)) [0..<4]"
    and "\<forall>e\<in>set es. e_size e = 0 \<or> e_type e = 0 \<or> \<not> is_extended (e_type e)" "mem_ok 9 s"
  shows "\<exists>s' ps. partition_scan b s = Some s'
     \<and> media s' = media s \<and> all_blocks s' = all_blocks s @ ps \<and> (\<forall>p<next_ptr s. blkdevs s' p = blkdevs s p)
     \<and> map (\<lambda>p. (dev_geom s' p, block_type_of p s')) ps
         = map (\<lambda>e. (Some (d, e_offset e, e_size e), Some (partition_block_type (e_type e))))
             (filter (valid_entry (b_size dv)) es)"
proof -
  have "mem_ok (Suc 8) s" using assms(9) by simp
  then obtain s1 where s1: "kmalloc s = (next_ptr s, s1)"
    "s1 = s\<lparr>mem_answers := tl (mem_answers s), next_ptr := next_ptr s + 1\<rparr>" "mem_ok 8 s1"
    using kmalloc_ok by blast
  obtain rc where rd: "block_read b 0 s1 = Some (media s d 0, s1\<lparr>read_cnt := rc\<rparr>)"
    using block_read_disk [of s1 b dv d 0] assms(2,3,5) by (auto simp: s1(2))
  define s2 where "s2 = s1\<lparr>read_cnt := rc\<rparr>"
  have s2: "blocks_inv s2" "blkdevs s2 b = Some dv" "mem_ok (2 * length es + 0) s2"
    using assms(1,2,7) s1(3) by (auto simp: s2_def s1(2) blocks_inv_def mem_ok_def)
  have "\<forall>e\<in>set es. (e_size e = 0 \<or> e_type e = 0 \<or> \<not> is_extended (e_type e)) \<and> e_size e < 2 ^ 32 \<and> e_offset e < 2 ^ 32"
    using assms(7,8) table_entry_bounds by auto
  then obtain nr' s' ps where s': "table_loop (read_partition_table b) b 0 0 es (0, s2) = Some (nr', s')"
    "registered d (filter (valid_entry (b_size dv)) es) ps s2 s'" "blocks_inv s'"
    using table_loop_spec [OF s2(1,2) assms(3,4) _ s2(3)] by blast
  have "partition_scan b s = Some s'"
    using assms(1,2,5,6) s1(1) rd s'(1) unfolding partition_scan_def
    by (subst read_partition_table.simps)
      (simp add: block_size_def blocks_inv_def assms(7) [symmetric] s2_def [symmetric])
  moreover have "media s2 = media s" "all_blocks s2 = all_blocks s" "blkdevs s2 = blkdevs s" "next_ptr s \<le> next_ptr s2"
    by (simp_all add: s2_def s1(2))
  ultimately show ?thesis using s'(2) unfolding registered_def by (intro exI [of _ s'] exI [of _ ps]) auto
qed

text \<open>A table with a file system partition, a swap partition that does not fit on the disk, and an
  entry of the given type.\<close>

definition demo_table :: "u8 \<Rightarrow> u8 list" where
  "demo_table t = replicate 446 0
     @ [0, 0, 0, 0, 0x21, 0, 0, 0, 20, 0, 0, 0, 10, 0, 0, 0]
     @ [0, 0, 0, 0, 0x23, 0, 0, 0, 90, 0, 0, 0, 11, 0, 0, 0]
     @ [0, 0, 0, 0, t, 0, 0, 0, 30, 0, 0, 0, 5, 0, 0, 0]
     @ [0, 0, 0, 0, 0, 0, 0, 0, 0, 0, 0, 0, 0, 0, 0, 0] @ [0x55, 0xaa]"

lemma demo_table_entries:
  "map (table_entry (demo_table t)) [0..<4] =
     [\<lparr>e_type = 0x21, e_offset = 20, e_size = 10\<rparr>, \<lparr>e_type = 0x23, e_offset = 90, e_size = 11\<rparr>,
      \<lparr>e_type = t, e_offset = 30, e_size = 5\<rparr>, \<lparr>e_type = 0, e_offset = 0, e_size = 0\<rparr>]"
  "le_at 510 2 (demo_table t) = 0xaa55"
  by (simp_all add: upt_rec table_entry_def le_at_def demo_table_def nth_append)

theorem partition_scan_registers_witness:
  "\<exists>s' ps. partition_scan 1 (demo_blocks (demo_table 0x22)) = Some s' \<and> all_blocks s' = [1, 2, 3] @ ps
     \<and> map (\<lambda>p. (dev_geom s' p, block_type_of p s')) ps
         = [(Some (0, 20, 10), Some BLOCK_FILESYS), (Some (0, 30, 5), Some BLOCK_SCRATCH)]"
proof -
  let ?s = "demo_blocks (demo_table 0x22)"
  have "\<exists>s' ps. partition_scan 1 ?s = Some s' \<and> media s' = media ?s \<and> all_blocks s' = all_blocks ?s @ ps
     \<and> (\<forall>p<next_ptr ?s. blkdevs s' p = blkdevs ?s p)
     \<and> map (\<lambda>p. (dev_geom s' p, block_type_of p s')) ps
         = map (\<lambda>e. (Some (0, e_offset e, e_size e), Some (partition_block_type (e_type e))))
             (filter (valid_entry (b_size (the (blkdevs ?s 1)))) (map (table_entry (demo_table 0x22)) [0..<4]))"
    by (rule partition_scan_registers)
      (simp_all add: demo_table_entries demo_blocks_def blocks_inv_def mem_ok_def is_extended_def)
  then obtain s' ps where "partition_scan 1 ?s = Some s'" "all_blocks s' = all_blocks ?s @ ps"
    "map (\<lambda>p. (dev_geom s' p, block_type_of p s')) ps
         = map (\<lambda>e. (Some (0, e_offset e, e_size e), Some (partition_block_type (e_type e))))
             (filter (valid_entry (b_size (the (blkdevs ?s 1)))) (map (table_entry (demo_table 0x22)) [0..<4]))"
    by blast
  moreover have "map (\<lambda>e. (Some (0, e_offset e, e_size e), Some (partition_block_type (e_type e))))
      (filter (valid_entry (b_size (the (blkdevs ?s 1)))) (map (table_entry (demo_table 0x22)) [0..<4]))
      = [(Some (0, 20, 10), Some BLOCK_FILESYS), (Some (0, 30, 5), Some BLOCK_SCRATCH)]"
    unfolding demo_table_entries by (simp add: demo_blocks_def valid_entry_def partition_block_type_def)
  moreover have "all_blocks ?s = [1, 2, 3]" by (simp add: demo_blocks_def)
  ultimately show ?thesis by (intro exI [of _ s'] exI [of _ ps] conjI) simp_all
qed

subsection \<open>Extended partitions\<close>






















end
