(* ===== verification/Inode.thy ===== *)
theory Inode
  imports Block Bitmap
begin

text \<open>
  Inodes (\<^verbatim>\<open>filesys/inode.c\<close>), the free map (\<^verbatim>\<open>filesys/free-map.c\<close>) and open files
  (\<^verbatim>\<open>filesys/file.c\<close>).

  A call runs to its end before the next one starts. The three locks of the file system are
  flags: taking one that is held is \<open>None\<close>, because then the holder is the caller, or some
  call returned without giving the lock back, and the call never comes to an end. The two semaphores of
  an inode are their values. Objects that the code allocates are entries of maps from
  addresses. Offsets and sizes of type \<^verbatim>\<open>off_t\<close> are integers; a negative offset makes the code
  access memory outside its buffers, which is \<open>None\<close>. A buffer is the list of bytes that the
  call reads from or stores into it. On disk, numbers have their least significant byte first.

  The contents of a file are the bytes of its sectors up to its length. \<open>inode_read_at\<close> and
  \<open>inode_write_at\<close> are shown to be reading and overwriting a part of that list.
\<close>

section \<open>State\<close>

record inode_disk =
  d_start :: nat
  d_length :: int
  d_magic :: nat

record inode =
  i_sector :: nat
  open_cnt :: int
  removed :: bool
  i_data :: inode_disk
  current_readers :: nat
  writers_lock :: nat
  readers_lock :: nat

record open_file =
  f_inode :: nat
  f_pos :: int

record dir =
  dir_inode :: nat
  dir_pos :: int

record fs = blocks +
  fs_device :: nat
  inodes :: "nat \<Rightarrow> inode option"
  open_inodes :: "nat list"
  free_map :: bitmap
  free_map_file :: nat
  files :: "nat \<Rightarrow> open_file option"
  dirs :: "nat \<Rightarrow> dir option"
  filesys_lock :: bool
  free_map_lock :: bool
  dir_lock :: bool

abbreviation (input) INODE_MAGIC :: nat where "INODE_MAGIC \<equiv> 0x494e4f44"
abbreviation (input) FREE_MAP_SECTOR :: nat where "FREE_MAP_SECTOR \<equiv> 0"
abbreviation (input) ROOT_DIR_SECTOR :: nat where "ROOT_DIR_SECTOR \<equiv> 1"

text \<open>Numbers on disk.\<close>

definition le32 :: "nat \<Rightarrow> u8 list" where
  "le32 n = [word_of_nat n, word_of_nat (n div 256), word_of_nat (n div 65536), word_of_nat (n div 16777216)]"

definition encode_inode :: "inode_disk \<Rightarrow> u8 list" where
  "encode_inode d = le32 (d_start d) @ le32 (nat (d_length d mod 2 ^ 32)) @ le32 (d_magic d) @ replicate 500 0"

definition decode_inode :: "u8 list \<Rightarrow> inode_disk" where
  "decode_inode x = \<lparr>d_start = le_at 0 4 x, d_length = i32 (int (le_at 4 4 x)), d_magic = le_at 8 4 x\<rparr>"

section \<open>Locks and semaphores\<close>

definition acquire_filesys :: "'a fs_scheme \<Rightarrow> 'a fs_scheme option" where
  "acquire_filesys s = do { ASSERT (\<not> filesys_lock s); Some (s\<lparr>filesys_lock := True\<rparr>) }"

definition acquire_free_map :: "'a fs_scheme \<Rightarrow> 'a fs_scheme option" where
  "acquire_free_map s = do { ASSERT (\<not> free_map_lock s); Some (s\<lparr>free_map_lock := True\<rparr>) }"

definition acquire_dir :: "'a fs_scheme \<Rightarrow> 'a fs_scheme option" where
  "acquire_dir s = do { ASSERT (\<not> dir_lock s); Some (s\<lparr>dir_lock := True\<rparr>) }"

definition set_inode :: "nat \<Rightarrow> inode \<Rightarrow> 'a fs_scheme \<Rightarrow> 'a fs_scheme" where
  "set_inode p ino s = s\<lparr>inodes := (inodes s)(p := Some ino)\<rparr>"

definition down_readers :: "inode \<Rightarrow> inode option" where
  "down_readers ino = do { ASSERT (readers_lock ino > 0); Some (ino\<lparr>readers_lock := readers_lock ino - 1\<rparr>) }"

definition down_writers :: "inode \<Rightarrow> inode option" where
  "down_writers ino = do { ASSERT (writers_lock ino > 0); Some (ino\<lparr>writers_lock := writers_lock ino - 1\<rparr>) }"

definition begin_read :: "inode \<Rightarrow> inode option" where
  "begin_read ino = do {
     ino \<leftarrow> down_readers ino;
     ino \<leftarrow> (if current_readers ino = 0 then down_writers ino else Some ino);
     let ino = ino\<lparr>current_readers := (current_readers ino + 1) mod 2 ^ 32\<rparr>;
     Some (ino\<lparr>readers_lock := readers_lock ino + 1\<rparr>) }"

definition end_read :: "inode \<Rightarrow> inode option" where
  "end_read ino = do {
     ino \<leftarrow> down_readers ino;
     let ino = ino\<lparr>current_readers := (current_readers ino + 2 ^ 32 - 1) mod 2 ^ 32\<rparr>;
     let ino = (if current_readers ino = 0 then ino\<lparr>writers_lock := writers_lock ino + 1\<rparr> else ino);
     Some (ino\<lparr>readers_lock := readers_lock ino + 1\<rparr>) }"

section \<open>Reading and writing inodes\<close>

definition bytes_to_sectors :: "int \<Rightarrow> nat" where
  "bytes_to_sectors sz =
     (let x = i32 (sz + 511)
      in if x < 0 then nat (- (- x div 512) mod 2 ^ 32) else nat (x div 512))"

definition byte_to_sector :: "inode \<Rightarrow> int \<Rightarrow> nat" where
  "byte_to_sector ino pos =
     (if pos < d_length (i_data ino) then nat ((int (d_start (i_data ino)) + pos div 512) mod 2 ^ 32)
      else 2 ^ 32 - 1)"

definition inode_length :: "nat \<Rightarrow> 'a fs_scheme \<Rightarrow> int option" where
  "inode_length p s = map_option (\<lambda>ino. d_length (i_data ino)) (inodes s p)"

text \<open>The number of bytes that one pass through the loops transfers.\<close>

definition chunk_size :: "inode \<Rightarrow> int \<Rightarrow> int \<Rightarrow> int" where
  "chunk_size ino sz offset =
     (let sector_ofs = offset mod 512;
          inode_left = d_length (i_data ino) - offset;
          sector_left = 512 - sector_ofs;
          min_left = (if inode_left < sector_left then inode_left else sector_left)
      in if sz < min_left then sz else min_left)"

definition get_bounce :: "nat \<Rightarrow> 'a blocks_scheme \<Rightarrow> nat \<times> 'a blocks_scheme" where
  "get_bounce bounce s = (if bounce = 0 then kmalloc s else (bounce, s))"

function read_loop ::
  "nat \<Rightarrow> int \<Rightarrow> int \<Rightarrow> nat \<Rightarrow> u8 list \<Rightarrow> 'a fs_scheme \<Rightarrow> (u8 list \<times> 'a fs_scheme) option" where
  "read_loop p sz offset bounce acc s =
     (if sz > 0 then do {
        ino \<leftarrow> inodes s p;
        ASSERT (0 \<le> offset);
        let sector_idx = byte_to_sector ino offset;
        let sector_ofs = offset mod 512;
        let n = chunk_size ino sz offset;
        if n \<le> 0 then Some (acc, s)
        else if sector_ofs = 0 \<and> n = 512 then do {
          (x, s) \<leftarrow> block_read (fs_device s) sector_idx s;
          read_loop p (sz - n) (offset + n) bounce (acc @ x) s }
        else (let (bounce, s) = get_bounce bounce s in
          if bounce = 0 then Some (acc, s)
          else do {
            (x, s) \<leftarrow> block_read (fs_device s) sector_idx s;
            read_loop p (sz - n) (offset + n) bounce (acc @ take (nat n) (drop (nat sector_ofs) x)) s }) }
      else Some (acc, s))"
  by auto
termination by (relation "measure (\<lambda>(p, sz, _). nat sz)") auto

definition inode_read_at :: "nat \<Rightarrow> int \<Rightarrow> int \<Rightarrow> 'a fs_scheme \<Rightarrow> (int \<times> u8 list \<times> 'a fs_scheme) option" where
  "inode_read_at p sz offset s = do {
     ino \<leftarrow> inodes s p;
     ino \<leftarrow> begin_read ino;
     (buf, s) \<leftarrow> read_loop p sz offset 0 [] (set_inode p ino s);
     ino \<leftarrow> inodes s p;
     ino \<leftarrow> end_read ino;
     Some (int (length buf), buf, set_inode p ino s) }"

text \<open>The sector that a pass through the write loop writes when it uses the bounce buffer: the
  old contents, or zeros when the chunk covers all of the sector that is left, overwritten by the
  chunk.\<close>

definition bounce_sector :: "u8 list \<Rightarrow> nat \<Rightarrow> u8 list \<Rightarrow> u8 list" where
  "bounce_sector x ofs ch = take ofs x @ ch @ drop (ofs + length ch) x"

function write_loop ::
  "nat \<Rightarrow> u8 list \<Rightarrow> int \<Rightarrow> int \<Rightarrow> nat \<Rightarrow> int \<Rightarrow> 'a fs_scheme \<Rightarrow> (int \<times> 'a fs_scheme) option" where
  "write_loop p buf sz offset bounce written s =
     (if sz > 0 then do {
        ino \<leftarrow> inodes s p;
        ASSERT (0 \<le> offset);
        let sector_idx = byte_to_sector ino offset;
        let sector_ofs = offset mod 512;
        let n = chunk_size ino sz offset;
        let ch = take (nat n) (drop (nat written) buf);
        if n \<le> 0 then Some (written, s)
        else if sector_ofs = 0 \<and> n = 512 then do {
          s \<leftarrow> block_write (fs_device s) sector_idx ch s;
          write_loop p buf (sz - n) (offset + n) bounce (written + n) s }
        else (let (bounce, s) = get_bounce bounce s in
          if bounce = 0 then Some (written, s)
          else do {
            (x, s) \<leftarrow> (if sector_ofs > 0 \<or> n < 512 - sector_ofs then block_read (fs_device s) sector_idx s
                       else Some (replicate 512 0, s));
            s \<leftarrow> block_write (fs_device s) sector_idx (bounce_sector x (nat sector_ofs) ch) s;
            write_loop p buf (sz - n) (offset + n) bounce (written + n) s }) }
      else Some (written, s))"
  by auto
termination by (relation "measure (\<lambda>(p, buf, sz, _). nat sz)") auto

definition inode_write_at ::
  "nat \<Rightarrow> u8 list \<Rightarrow> int \<Rightarrow> int \<Rightarrow> 'a fs_scheme \<Rightarrow> (int \<times> 'a fs_scheme) option" where
  "inode_write_at p buf sz offset s = do {
     ino \<leftarrow> inodes s p;
     ino \<leftarrow> down_writers ino;
     (written, s) \<leftarrow> write_loop p buf sz offset 0 0 (set_inode p ino s);
     ino \<leftarrow> inodes s p;
     Some (written, set_inode p (ino\<lparr>writers_lock := writers_lock ino + 1\<rparr>) s) }"

declare read_loop.simps [simp del] write_loop.simps [simp del]

section \<open>Sectors of the file system device\<close>

definition fsec :: "'a fs_scheme \<Rightarrow> nat \<Rightarrow> u8 list" where
  "fsec s i = (case dev_geom s (fs_device s) of Some (d, st, n) \<Rightarrow> media s d (st + i) | None \<Rightarrow> [])"

definition fs_size :: "'a fs_scheme \<Rightarrow> nat" where
  "fs_size s = (case dev_geom s (fs_device s) of Some (d, st, n) \<Rightarrow> n | None \<Rightarrow> 0)"

definition fs_dev_ok :: "'a fs_scheme \<Rightarrow> bool" where
  "fs_dev_ok s \<longleftrightarrow> dev_geom s (fs_device s) \<noteq> None \<and> writable s (fs_device s) \<and> (\<forall>i<fs_size s. length (fsec s i) = 512)"

text \<open>Two states that differ at most in the contents of the disks, the counters and the allocations.\<close>

definition same_fs :: "'a fs_scheme \<Rightarrow> 'a fs_scheme \<Rightarrow> bool" where
  "same_fs s s' \<longleftrightarrow> blocks.more s' = blocks.more s \<and> blkdevs s' = blkdevs s \<and> all_blocks s' = all_blocks s
     \<and> block_by_role s' = block_by_role s \<and> next_ptr s \<le> next_ptr s'"

lemma same_fs_refl [simp]: "same_fs s s"
  by (simp add: same_fs_def)

lemma same_fs_trans: "same_fs s s1 \<Longrightarrow> same_fs s1 s2 \<Longrightarrow> same_fs s s2"
  by (simp add: same_fs_def)

lemma same_fs_upd [simp]:
  "same_fs s (s\<lparr>read_cnt := rc\<rparr>)" "same_fs s (s\<lparr>media := m, write_cnt := wc\<rparr>)"
  "next_ptr s \<le> n \<Longrightarrow> same_fs s (s\<lparr>mem_answers := a, next_ptr := n\<rparr>)" "same_fs s (s\<lparr>mem_answers := a\<rparr>)"
  by (simp_all add: same_fs_def)

lemma more_fs:
  assumes "blocks.more s' = blocks.more (s :: 'a fs_scheme)"
  shows "fs_device s' = fs_device s" "inodes s' = inodes s" "open_inodes s' = open_inodes s" "free_map s' = free_map s"
    "free_map_file s' = free_map_file s" "files s' = files s" "dirs s' = dirs s" "filesys_lock s' = filesys_lock s"
    "free_map_lock s' = free_map_lock s" "dir_lock s' = dir_lock s" "fs.more s' = fs.more s"
  using assms by (cases s, cases s', simp)+

lemma same_fs_fields:
  assumes "same_fs s s'"
  shows "fs_device s' = fs_device s" "inodes s' = inodes s" "open_inodes s' = open_inodes s" "free_map s' = free_map s"
    "free_map_file s' = free_map_file s" "files s' = files s" "dirs s' = dirs s" "filesys_lock s' = filesys_lock s"
    "free_map_lock s' = free_map_lock s" "dir_lock s' = dir_lock s" "blkdevs s' = blkdevs s" "fs_size s' = fs_size s"
  using assms more_fs [of s' s] dev_geom_cong [of s' s] by (auto simp: same_fs_def fs_size_def)

lemma same_fs_fsec: "same_fs s s' \<Longrightarrow> media s' = media s \<Longrightarrow> fsec s' = fsec s"
  using same_fs_fields [of s s'] dev_geom_cong [of s' s] by (auto simp: fsec_def fun_eq_iff split: option.splits)

lemma same_fs_dev_ok: "same_fs s s' \<Longrightarrow> media s' = media s \<Longrightarrow> fs_dev_ok s' = fs_dev_ok s"
  using same_fs_fields [of s s'] dev_geom_cong [of s' s] same_fs_fsec [of s s'] by (simp add: fs_dev_ok_def)

lemma fs_block_read:
  assumes "fs_dev_ok s" "i < fs_size s"
  shows "\<exists>s'. block_read (fs_device s) i s = Some (fsec s i, s') \<and> same_fs s s' \<and> media s' = media s
    \<and> mem_answers s' = mem_answers s"
proof -
  obtain d st n where g: "dev_geom s (fs_device s) = Some (d, st, n)" using assms(1) by (auto simp: fs_dev_ok_def)
  then obtain rc where "block_read (fs_device s) i s = Some (media s d (st + i), s\<lparr>read_cnt := rc\<rparr>)"
    using block_read_eq [OF g, of i] assms(2) by (auto simp: fs_size_def)
  then show ?thesis using g by (simp add: fsec_def)
qed

lemma fs_block_write:
  assumes "fs_dev_ok s" "i < fs_size s" "length x = 512"
  shows "\<exists>s'. block_write (fs_device s) i x s = Some s' \<and> same_fs s s' \<and> fsec s' = (fsec s)(i := x) \<and> fs_dev_ok s'
    \<and> mem_answers s' = mem_answers s"
proof -
  obtain d st n where g: "dev_geom s (fs_device s) = Some (d, st, n)" and w: "writable s (fs_device s)"
    using assms(1) by (auto simp: fs_dev_ok_def)
  then obtain wc where wr: "block_write (fs_device s) i x s
      = Some (s\<lparr>media := (media s)(d := (media s d)(st + i := x)), write_cnt := wc\<rparr>)" (is "_ = Some ?s")
    using block_write_eq [OF g, of i x] assms(2) by (auto simp: fs_size_def)
  have geo: "dev_geom ?s (fs_device s) = Some (d, st, n)" "writable ?s (fs_device s)"
    using g w dev_geom_cong [of ?s s "fs_device s"] by simp_all
  then have sec: "fsec ?s = (fsec s)(i := x)" using g by (auto simp: fsec_def fun_eq_iff)
  then have "fs_dev_ok ?s" using geo g assms(1,3) by (simp add: fs_dev_ok_def fs_size_def)
  then show ?thesis using wr sec by (intro exI [of _ ?s]) simp
qed

section \<open>The contents of a file\<close>

definition nsect :: "inode \<Rightarrow> nat" where
  "nsect ino = nat ((d_length (i_data ino) + 511) div 512)"

definition inode_fits :: "'a fs_scheme \<Rightarrow> inode \<Rightarrow> bool" where
  "inode_fits s ino \<longleftrightarrow> 0 \<le> d_length (i_data ino) \<and> d_length (i_data ino) < 2 ^ 31 \<and>
     d_start (i_data ino) + nsect ino \<le> fs_size s"

definition fbyte :: "'a fs_scheme \<Rightarrow> inode \<Rightarrow> nat \<Rightarrow> u8" where
  "fbyte s ino k = fsec s (d_start (i_data ino) + k div 512) ! (k mod 512)"

definition contents :: "'a fs_scheme \<Rightarrow> inode \<Rightarrow> u8 list" where
  "contents s ino = map (fbyte s ino) [0..<nat (d_length (i_data ino))]"

lemma length_contents [simp]: "length (contents s ino) = nat (d_length (i_data ino))"
  by (simp add: contents_def)

lemma nth_contents [simp]: "k < nat (d_length (i_data ino)) \<Longrightarrow> contents s ino ! k = fbyte s ino k"
  by (simp add: contents_def)

lemma fs_size_bound: "fs_dev_ok s \<Longrightarrow> fs_size s \<le> 2 ^ 28"
proof -
  assume "fs_dev_ok s"
  then obtain d st n where g: "dev_geom s (fs_device s) = Some (d, st, n)" by (auto simp: fs_dev_ok_def)
  then have "n \<le> 2 ^ 28" by (cases rule: dev_geom_cases) auto
  then show ?thesis by (simp add: fs_size_def g)
qed

lemma sector_in_file:
  assumes "inode_fits s ino" "int off < d_length (i_data ino)"
  shows "d_start (i_data ino) + off div 512 < fs_size s" "off div 512 < nsect ino"
proof -
  have "off div 512 < nsect ino" using assms by (simp add: nsect_def inode_fits_def)
  then show "d_start (i_data ino) + off div 512 < fs_size s" "off div 512 < nsect ino"
    using assms(1) by (auto simp: inode_fits_def)
qed

lemma byte_to_sector_eq:
  assumes "fs_dev_ok s" "inode_fits s ino" "int off < d_length (i_data ino)"
  shows "byte_to_sector ino (int off) = d_start (i_data ino) + off div 512"
proof -
  have "d_start (i_data ino) + off div 512 < 2 ^ 32"
    using sector_in_file(1) [OF assms(2,3)] fs_size_bound [OF assms(1)] by simp
  then have "(int (d_start (i_data ino)) + int off div 512) mod 2 ^ 32 = int (d_start (i_data ino) + off div 512)"
    by (simp add: zdiv_int)
  then show ?thesis using assms(3) by (simp add: byte_to_sector_def)
qed

lemma chunk_size_nat:
  assumes "0 < sz" "int off < d_length (i_data ino)"
  defines "n \<equiv> nat (chunk_size ino sz (int off))"
  shows "chunk_size ino sz (int off) = int n" "0 < n" "int n \<le> sz" "int (off + n) \<le> d_length (i_data ino)"
    "off mod 512 + n \<le> 512" "off mod 512 + n = 512 \<or> int n = sz \<or> int (off + n) = d_length (i_data ino)"
proof -
  define m where "m = off mod 512"
  have m: "int off mod 512 = int m" "m < 512" by (simp_all add: m_def zmod_int)
  have c: "chunk_size ino sz (int off) = min sz (min (d_length (i_data ino) - int off) (512 - int m))"
    by (simp add: chunk_size_def Let_def m min_def)
  then have pos: "0 < chunk_size ino sz (int off)" using assms(1,2) m by simp
  then show n: "chunk_size ino sz (int off) = int n" "0 < n" by (simp_all add: n_def)
  show "int n \<le> sz" "int (off + n) \<le> d_length (i_data ino)" "off mod 512 + n \<le> 512"
    "off mod 512 + n = 512 \<or> int n = sz \<or> int (off + n) = d_length (i_data ino)"
    using c n m unfolding m_def [symmetric] min_def by (auto split: if_splits)
qed

lemma same_sector:
  "off mod 512 + k < 512 \<Longrightarrow> (off + k) div 512 = off div 512 \<and> (off + k) mod 512 = off mod 512 + (k :: nat)"
proof -
  assume lt: "off mod 512 + k < 512"
  define q r where "q = off div 512" and "r = off mod 512"
  have "off = q * 512 + r" by (simp add: q_def r_def)
  then show ?thesis using lt unfolding r_def [symmetric] q_def [symmetric] by (simp add: add.assoc)
qed

lemma chunk_slice:
  assumes "length (fsec s (d_start (i_data ino) + off div 512)) = 512" "off mod 512 + n \<le> 512"
    and "int (off + n) \<le> d_length (i_data ino)"
  shows "take n (drop (off mod 512) (fsec s (d_start (i_data ino) + off div 512)))
    = take n (drop off (contents s ino))"
proof (rule nth_equalityI)
  fix k assume "k < length (take n (drop (off mod 512) (fsec s (d_start (i_data ino) + off div 512))))"
  then have k: "k < n" using assms by simp
  then have "(off + k) div 512 = off div 512" "(off + k) mod 512 = off mod 512 + k"
    using assms(2) same_sector [of off k] by auto
  then show "take n (drop (off mod 512) (fsec s (d_start (i_data ino) + off div 512))) ! k
      = take n (drop off (contents s ino)) ! k"
    using k assms by (simp add: fbyte_def)
qed (use assms in auto)

section \<open>Reading returns a part of the contents\<close>

definition can_bounce :: "nat \<Rightarrow> 'a fs_scheme \<Rightarrow> bool" where
  "can_bounce b s \<longleftrightarrow> b \<noteq> 0 \<or> mem_ok 1 s \<and> 0 < next_ptr s"

text \<open>At most \<open>k\<close> allocations were made.\<close>

definition popped :: "nat \<Rightarrow> 'a fs_scheme \<Rightarrow> 'a fs_scheme \<Rightarrow> bool" where
  "popped k s s' \<longleftrightarrow> (\<exists>j\<le>k. mem_answers s' = drop j (mem_answers s))"

lemma popped_same: "mem_answers s' = mem_answers s \<Longrightarrow> popped k s s'"
  by (auto simp: popped_def intro!: exI [of _ 0])

lemma popped_trans: "popped k s s1 \<Longrightarrow> popped l s1 s2 \<Longrightarrow> popped (k + l) s s2"
proof -
  assume "popped k s s1" "popped l s1 s2"
  then obtain i j where "i \<le> k" "j \<le> l" "mem_answers s1 = drop i (mem_answers s)" "mem_answers s2 = drop j (mem_answers s1)"
    by (auto simp: popped_def)
  then show ?thesis unfolding popped_def by (intro exI [of _ "i + j"]) (simp add: add.commute)
qed

lemma popped_mem_ok: "popped k s s' \<Longrightarrow> mem_ok (k + n) s \<Longrightarrow> mem_ok n s'"
  by (auto simp: popped_def mem_ok_def)

lemma popped_mono: "popped k s s' \<Longrightarrow> k \<le> l \<Longrightarrow> popped l s s'"
  by (auto simp: popped_def intro: order_trans)

lemma get_bounce_spec:
  assumes "get_bounce b s = (b', s')"
  shows "same_fs s s'" "media s' = media s" "can_bounce b s \<Longrightarrow> b' \<noteq> 0" "popped (of_bool (b = 0)) s s'"
proof -
  show "same_fs s s'" "media s' = media s" "popped (of_bool (b = 0)) s s'"
    using assms by (auto simp: get_bounce_def kmalloc_def popped_def intro!: exI [of _ "of_bool (b = 0)"]
        split: if_splits list.splits bool.splits)
  show "b' \<noteq> 0" if cb: "can_bounce b s"
  proof (cases "b = 0")
    case True
    then obtain r where "mem_answers s = True # r" "0 < next_ptr s"
      using cb by (cases "mem_answers s") (auto simp: can_bounce_def mem_ok_def)
    then show ?thesis using assms True by (simp add: get_bounce_def kmalloc_def split: prod.splits)
  qed (use assms in \<open>simp add: get_bounce_def\<close>)
qed

lemma can_bounce_cong: "same_fs s s' \<Longrightarrow> mem_answers s' = mem_answers s \<Longrightarrow> can_bounce b s \<Longrightarrow> can_bounce b s'"
  by (auto simp: can_bounce_def mem_ok_def same_fs_def)

text \<open>How many bytes there are to transfer.\<close>

definition todo :: "inode \<Rightarrow> int \<Rightarrow> nat \<Rightarrow> nat" where
  "todo ino sz off = nat (min sz (d_length (i_data ino) - int off))"

text \<open>Some bytes were transferred; all there are, unless no memory was left for the bounce buffer.\<close>

definition done_ok :: "inode \<Rightarrow> int \<Rightarrow> nat \<Rightarrow> bool \<Rightarrow> nat \<Rightarrow> bool" where
  "done_ok ino sz off ok n \<longleftrightarrow> n \<le> todo ino sz off \<and> (ok \<longrightarrow> n = todo ino sz off)"

lemma chunk_size_none: "0 < sz \<Longrightarrow> d_length (i_data ino) \<le> int off \<Longrightarrow> chunk_size ino sz (int off) \<le> 0"
  by (auto simp: chunk_size_def Let_def)

lemma done_ok_step:
  assumes "done_ok ino (sz - int n) (off + n) ok m" "int n \<le> sz" "int (off + n) \<le> d_length (i_data ino)"
  shows "done_ok ino sz off ok (n + m)"
  using assms by (auto simp: done_ok_def todo_def)

lemma done_ok_mono: "done_ok ino sz off ok n \<Longrightarrow> (ok' \<Longrightarrow> ok) \<Longrightarrow> done_ok ino sz off ok' n"
  by (auto simp: done_ok_def)

lemma inode_fits_cong: "same_fs s s' \<Longrightarrow> inode_fits s' ino = inode_fits s ino"
  using same_fs_fields(12) [of s s'] by (simp add: inode_fits_def)

lemma contents_cong: "fsec s' = fsec s \<Longrightarrow> contents s' ino = contents s ino"
  by (simp add: contents_def fbyte_def)

lemma read_loop_spec:
  assumes "fs_dev_ok s" "inodes s p = Some ino" "inode_fits s ino"
  shows "\<exists>n s'. read_loop p sz (int off) b acc s = Some (acc @ take n (drop off (contents s ino)), s')
    \<and> done_ok ino sz off (can_bounce b s) n \<and> same_fs s s' \<and> media s' = media s
    \<and> popped (of_bool (b = 0)) s s'"
  using assms
proof (induction "nat sz" arbitrary: sz off b acc s rule: less_induct)
  case less
  consider (zero) "sz \<le> 0" | (eof) "0 < sz" "d_length (i_data ino) \<le> int off" | (more) "0 < sz" "int off < d_length (i_data ino)"
    by linarith
  then show ?case
  proof cases
    case zero
    then show ?thesis by (subst read_loop.simps) (auto simp: done_ok_def todo_def popped_same)
  next
    case eof
    then show ?thesis using chunk_size_none [OF eof] less.prems(2)
      by (subst read_loop.simps) (auto simp: done_ok_def todo_def Let_def popped_same)
  next
    case more
    define n where "n = nat (chunk_size ino sz (int off))"
    note n = chunk_size_nat [OF more, folded n_def]
    note idx = byte_to_sector_eq [OF less.prems(1,3) more(2)]
    have inside: "d_start (i_data ino) + off div 512 < fs_size s" using sector_in_file [OF less.prems(3) more(2)] by simp
    then have len: "length (fsec s (d_start (i_data ino) + off div 512)) = 512" using less.prems(1) by (simp add: fs_dev_ok_def)
    note sl = chunk_slice [OF len n(5,4)]
    have m512: "int off mod 512 = int (off mod 512)" by (simp add: zmod_int)
    have rest: "\<exists>k s'. read_loop p (sz - int n) (int off + int n) b' (acc @ take n (drop off (contents s ino))) s1
        = Some (acc @ take k (drop off (contents s ino)), s')
      \<and> done_ok ino sz off (can_bounce b' s1) k \<and> same_fs s s' \<and> media s' = media s \<and> popped (of_bool (b' = 0)) s1 s'"
      if s1: "same_fs s s1" "media s1 = media s" for b' s1
    proof -
      have "nat (sz - int n) < nat sz" using n(2,3) by linarith
      moreover have "fs_dev_ok s1" "inodes s1 p = Some ino" "inode_fits s1 ino" "contents s1 ino = contents s ino"
        using less.prems same_fs_dev_ok [OF s1] same_fs_fields(2) [OF s1(1)] inode_fits_cong [OF s1(1)]
          contents_cong [OF same_fs_fsec [OF s1]] by auto
      ultimately obtain m s' where "read_loop p (sz - int n) (int (off + n)) b' (acc @ take n (drop off (contents s ino))) s1
          = Some ((acc @ take n (drop off (contents s ino))) @ take m (drop (off + n) (contents s ino)), s')"
        "done_ok ino (sz - int n) (off + n) (can_bounce b' s1) m" "same_fs s1 s'" "media s' = media s1"
        "popped (of_bool (b' = 0)) s1 s'"
        using less.hyps [of "sz - int n" s1 "off + n" b' "acc @ take n (drop off (contents s ino))"] by metis
      moreover have "take n (drop off (contents s ino)) @ take m (drop (off + n) (contents s ino))
          = take (n + m) (drop off (contents s ino))" by (simp add: take_add add.commute [of n off] drop_drop)
      ultimately show ?thesis using done_ok_step [OF _ n(3,4)] same_fs_trans [OF s1(1)] s1(2)
        by (intro exI [of _ "n + m"] exI [of _ s']) auto
    qed
    show ?thesis
    proof (cases "off mod 512 = 0 \<and> n = 512")
      case True
      obtain s1 where s1: "block_read (fs_device s) (d_start (i_data ino) + off div 512) s
          = Some (fsec s (d_start (i_data ino) + off div 512), s1)" "same_fs s s1" "media s1 = media s"
          "mem_answers s1 = mem_answers s" using fs_block_read [OF less.prems(1) inside] by blast
      have "fsec s (d_start (i_data ino) + off div 512) = take n (drop off (contents s ino))"
        using sl True len by simp
      then have "read_loop p sz (int off) b acc s
          = read_loop p (sz - int n) (int off + int n) b (acc @ take n (drop off (contents s ino))) s1"
        using more(1) less.prems(2) n(1,2) idx s1(1) True by (subst read_loop.simps) (simp add: Let_def m512)
      moreover obtain k s' where "read_loop p (sz - int n) (int off + int n) b (acc @ take n (drop off (contents s ino))) s1
          = Some (acc @ take k (drop off (contents s ino)), s')"
        "done_ok ino sz off (can_bounce b s1) k" "same_fs s s'" "media s' = media s" "popped (of_bool (b = 0)) s1 s'"
        using rest [OF s1(2,3), of b] by blast
      moreover from this have "done_ok ino sz off (can_bounce b s) k"
        using done_ok_mono can_bounce_cong [OF s1(2,4)] by blast
      ultimately show ?thesis using s1(4) by (intro exI [of _ k] exI [of _ s']) (simp add: popped_def)
    next
      case False
      then have ne: "\<not> (int off mod 512 = 0 \<and> int n = 512)" by (auto simp: m512)
      obtain b1 s1 where b1: "get_bounce b s = (b1, s1)" by fastforce
      note g = get_bounce_spec [OF b1]
      show ?thesis
      proof (cases "b1 = 0")
        case True
        then show ?thesis using more(1) less.prems(2) n(1,2) ne b1 g
          by (subst read_loop.simps) (auto simp: Let_def done_ok_def intro!: exI [of _ 0])
      next
        case False
        have ok1: "fs_dev_ok s1" "d_start (i_data ino) + off div 512 < fs_size s1" "fs_device s1 = fs_device s"
          using same_fs_dev_ok [OF g(1,2)] less.prems(1) inside same_fs_fields [OF g(1)] by auto
        obtain s2 where s2: "block_read (fs_device s) (d_start (i_data ino) + off div 512) s1
            = Some (fsec s (d_start (i_data ino) + off div 512), s2)" "same_fs s1 s2" "media s2 = media s1"
            "mem_answers s2 = mem_answers s1"
          using fs_block_read [OF ok1(1,2)] same_fs_fsec [OF g(1,2)] ok1(3) by auto
        have "read_loop p sz (int off) b acc s
            = read_loop p (sz - int n) (int off + int n) b1 (acc @ take n (drop off (contents s ino))) s2"
          using more(1) less.prems(2) n(1,2) idx s2(1) ne b1 False sl ok1(3)
          by (subst read_loop.simps) (auto simp: Let_def m512)
        moreover have "can_bounce b1 s2" using False by (simp add: can_bounce_def)
        moreover obtain k s' where "read_loop p (sz - int n) (int off + int n) b1 (acc @ take n (drop off (contents s ino))) s2
            = Some (acc @ take k (drop off (contents s ino)), s')"
          "done_ok ino sz off (can_bounce b1 s2) k" "same_fs s s'" "media s' = media s" "popped (of_bool (b1 = 0)) s2 s'"
          using rest [OF same_fs_trans [OF g(1) s2(2)], of b1] g(2) s2(3) by auto
        moreover from this have "popped (of_bool (b = 0) + 0) s s'"
          using popped_trans [OF g(4), of 0 s'] s2(4) False by (simp add: popped_def)
        ultimately show ?thesis by (intro exI [of _ k] exI [of _ s']) (simp add: done_ok_def)
      qed
    qed
  qed
qed

section \<open>Writing overwrites a part of the contents\<close>

lemma bounce_sector_nth:
  assumes "length x = 512" "ofs + length ch \<le> 512"
  shows "length (bounce_sector x ofs ch) = 512"
    "j < 512 \<Longrightarrow> bounce_sector x ofs ch ! j = (if ofs \<le> j \<and> j < ofs + length ch then ch ! (j - ofs) else x ! j)"
  using assms by (auto simp: bounce_sector_def nth_append)

lemma in_chunk:
  assumes "off mod 512 + n \<le> 512" "0 < n"
  shows "off \<le> k \<and> k < off + n \<longleftrightarrow> k div 512 = off div 512 \<and> off mod 512 \<le> k mod 512 \<and> k mod 512 < off mod 512 + (n :: nat)"
proof
  assume a: "off \<le> k \<and> k < off + n"
  then have "off mod 512 + (k - off) < 512" using assms(1) by linarith
  from same_sector [OF this] a show "k div 512 = off div 512 \<and> off mod 512 \<le> k mod 512 \<and> k mod 512 < off mod 512 + n"
    by auto
next
  assume "k div 512 = off div 512 \<and> off mod 512 \<le> k mod 512 \<and> k mod 512 < off mod 512 + n"
  moreover have "k = k div 512 * 512 + k mod 512" "off = off div 512 * 512 + off mod 512" by simp_all
  ultimately show "off \<le> k \<and> k < off + n" by linarith
qed

text \<open>\<open>bs\<close> was written at \<open>off\<close>, and nothing else changed.\<close>

definition wrote :: "inode \<Rightarrow> nat \<Rightarrow> u8 list \<Rightarrow> 'a fs_scheme \<Rightarrow> 'a fs_scheme \<Rightarrow> bool" where
  "wrote ino off bs s s' \<longleftrightarrow> same_fs s s' \<and> fs_dev_ok s'
     \<and> (\<forall>i. i < d_start (i_data ino) \<or> d_start (i_data ino) + nsect ino \<le> i \<longrightarrow> fsec s' i = fsec s i)
     \<and> (\<forall>k. fbyte s' ino k = (if off \<le> k \<and> k < off + length bs then bs ! (k - off) else fbyte s ino k))"

lemma wrote_nothing: "fs_dev_ok s \<Longrightarrow> wrote ino off [] s s"
  by (auto simp: wrote_def)

lemma wrote_trans:
  assumes "wrote ino off bs s s1" "wrote ino (off + length bs) cs s1 s2"
  shows "wrote ino off (bs @ cs) s s2"
  using assms by (auto simp: wrote_def nth_append intro: same_fs_trans)

lemma wrote_alloc:
  assumes "same_fs s s1" "media s1 = media s" "wrote ino off bs s1 s2"
  shows "wrote ino off bs s s2"
  using assms same_fs_fsec [OF assms(1,2)] by (auto simp: wrote_def fbyte_def intro: same_fs_trans)

lemma write_chunk:
  assumes ok: "fs_dev_ok s" "inode_fits s ino" and off: "int off < d_length (i_data ino)"
    and ch: "0 < length ch" "off mod 512 + length ch \<le> 512"
  obtains s' where "block_write (fs_device s) (d_start (i_data ino) + off div 512)
      (bounce_sector (fsec s (d_start (i_data ino) + off div 512)) (off mod 512) ch) s = Some s'"
    "wrote ino off ch s s'" "mem_answers s' = mem_answers s"
proof -
  let ?i = "d_start (i_data ino) + off div 512"
  let ?x = "bounce_sector (fsec s ?i) (off mod 512) ch"
  have i: "?i < fs_size s" "off div 512 < nsect ino" using sector_in_file [OF ok(2) off] by auto
  then have len: "length (fsec s ?i) = 512" using ok(1) by (simp add: fs_dev_ok_def)
  note x = bounce_sector_nth [OF len ch(2)]
  obtain s' where s': "block_write (fs_device s) ?i ?x s = Some s'" "same_fs s s'" "fsec s' = (fsec s)(?i := ?x)"
    "fs_dev_ok s'" "mem_answers s' = mem_answers s" using fs_block_write [OF ok(1) i(1) x(1)] by blast
  have "fbyte s' ino k = (if off \<le> k \<and> k < off + length ch then ch ! (k - off) else fbyte s ino k)" for k
  proof (cases "k div 512 = off div 512")
    case True
    moreover have "off \<le> k \<Longrightarrow> k - off = k mod 512 - off mod 512"
      using True by (metis add_diff_cancel_left div_mult_mod_eq)
    ultimately show ?thesis using in_chunk [OF ch(2,1), of k] x(2) [of "k mod 512"] by (auto simp: fbyte_def s'(3))
  next
    case False
    then show ?thesis using in_chunk [OF ch(2,1), of k] by (auto simp: fbyte_def s'(3))
  qed
  then have "wrote ino off ch s s'" using s' i(2) by (auto simp: wrote_def)
  then show thesis using that s' by blast
qed

lemma write_loop_spec:
  assumes "fs_dev_ok s" "inodes s p = Some ino" "inode_fits s ino" "int w + sz \<le> int (length buf)"
  shows "\<exists>n s'. write_loop p buf sz (int off) b (int w) s = Some (int (w + n), s')
    \<and> done_ok ino sz off (can_bounce b s) n \<and> wrote ino off (take n (drop w buf)) s s'
    \<and> popped (of_bool (b = 0)) s s'"
  using assms
proof (induction "nat sz" arbitrary: sz off b w s rule: less_induct)
  case less
  consider (zero) "sz \<le> 0" | (eof) "0 < sz" "d_length (i_data ino) \<le> int off" | (more) "0 < sz" "int off < d_length (i_data ino)"
    by linarith
  then show ?case
  proof cases
    case zero
    then show ?thesis using wrote_nothing [OF less.prems(1)]
      by (subst write_loop.simps) (auto simp: done_ok_def todo_def popped_same intro!: exI [of _ 0])
  next
    case eof
    then show ?thesis using chunk_size_none [OF eof] less.prems(2) wrote_nothing [OF less.prems(1)]
      by (subst write_loop.simps) (auto simp: done_ok_def todo_def Let_def popped_same intro!: exI [of _ 0])
  next
    case more
    define n where "n = nat (chunk_size ino sz (int off))"
    define ch where "ch = take n (drop w buf)"
    note n = chunk_size_nat [OF more, folded n_def]
    note idx = byte_to_sector_eq [OF less.prems(1,3) more(2)]
    have inside: "d_start (i_data ino) + off div 512 < fs_size s" using sector_in_file [OF less.prems(3) more(2)] by simp
    then have len: "length (fsec s (d_start (i_data ino) + off div 512)) = 512" using less.prems(1) by (simp add: fs_dev_ok_def)
    have lch: "length ch = n" using less.prems(4) n(3) by (simp add: ch_def)
    have m512: "int off mod 512 = int (off mod 512)" by (simp add: zmod_int)
    have rest: "\<exists>k s'. write_loop p buf (sz - int n) (int off + int n) b' (int w + int n) s1 = Some (int (w + k), s')
      \<and> done_ok ino sz off (can_bounce b' s1) k \<and> wrote ino off (take k (drop w buf)) s s'
      \<and> popped (of_bool (b' = 0)) s1 s'"
      if s1: "wrote ino off ch s s1" for b' s1
    proof -
      have same: "same_fs s s1" "fs_dev_ok s1" using s1 by (auto simp: wrote_def)
      have "nat (sz - int n) < nat sz" using n(2,3) by linarith
      moreover have "inodes s1 p = Some ino" "inode_fits s1 ino" "int (w + n) + (sz - int n) \<le> int (length buf)"
        using less.prems same_fs_fields(2) [OF same(1)] inode_fits_cong [OF same(1)] by auto
      ultimately obtain m s' where "write_loop p buf (sz - int n) (int (off + n)) b' (int (w + n)) s1
          = Some (int (w + n + m), s')" "done_ok ino (sz - int n) (off + n) (can_bounce b' s1) m"
        "wrote ino (off + n) (take m (drop (w + n) buf)) s1 s'" "popped (of_bool (b' = 0)) s1 s'"
        using less.hyps [of "sz - int n" s1 "w + n" "off + n" b'] same(2) by metis
      moreover have "ch @ take m (drop (w + n) buf) = take (n + m) (drop w buf)"
        by (simp add: ch_def take_add add.commute [of n w] drop_drop)
      ultimately show ?thesis
        using done_ok_step [OF _ n(3,4)] wrote_trans [OF s1, of "take m (drop (w + n) buf)" s'] lch
        by (intro exI [of _ "n + m"] exI [of _ s']) (auto simp: add.assoc)
    qed
    show ?thesis
    proof (cases "off mod 512 = 0 \<and> n = 512")
      case True
      obtain s1 where s1: "block_write (fs_device s) (d_start (i_data ino) + off div 512)
          (bounce_sector (fsec s (d_start (i_data ino) + off div 512)) (off mod 512) ch) s = Some s1"
        "wrote ino off ch s s1" "mem_answers s1 = mem_answers s"
        using write_chunk [OF less.prems(1,3) more(2), of ch] n(2,5) lch by auto
      have "bounce_sector (fsec s (d_start (i_data ino) + off div 512)) (off mod 512) ch = ch"
        using True len lch by (simp add: bounce_sector_def)
      then have "write_loop p buf sz (int off) b (int w) s
          = write_loop p buf (sz - int n) (int off + int n) b (int w + int n) s1"
        using more(1) less.prems(2) n(1,2) idx s1(1) True by (subst write_loop.simps) (simp add: Let_def m512 ch_def)
      moreover obtain k s' where "write_loop p buf (sz - int n) (int off + int n) b (int w + int n) s1 = Some (int (w + k), s')"
        "done_ok ino sz off (can_bounce b s1) k" "wrote ino off (take k (drop w buf)) s s'" "popped (of_bool (b = 0)) s1 s'"
        using rest [OF s1(2), of b] by blast
      moreover from this have "done_ok ino sz off (can_bounce b s) k"
        using done_ok_mono can_bounce_cong [OF _ s1(3)] s1(2) unfolding wrote_def by blast
      ultimately show ?thesis using s1(3) by (intro exI [of _ k] exI [of _ s']) (simp add: popped_def)
    next
      case False
      then have ne: "\<not> (int off mod 512 = 0 \<and> int n = 512)" by (auto simp: m512)
      have part: "int off mod 512 > 0 \<or> int n < 512 - int off mod 512" using False n(5) by (auto simp: m512)
      obtain b1 s1 where b1: "get_bounce b s = (b1, s1)" by fastforce
      note g = get_bounce_spec [OF b1]
      show ?thesis
      proof (cases "b1 = 0")
        case True
        then show ?thesis using more(1) less.prems(2) n(1,2) ne b1 g wrote_alloc [OF g(1,2) wrote_nothing]
            same_fs_dev_ok [OF g(1,2)] less.prems(1)
          by (subst write_loop.simps) (auto simp: Let_def done_ok_def intro!: exI [of _ 0])
      next
        case False
        have ok1: "fs_dev_ok s1" "d_start (i_data ino) + off div 512 < fs_size s1" "fs_device s1 = fs_device s"
          using same_fs_dev_ok [OF g(1,2)] less.prems(1) inside same_fs_fields [OF g(1)] by auto
        obtain s2 where s2: "block_read (fs_device s) (d_start (i_data ino) + off div 512) s1
            = Some (fsec s (d_start (i_data ino) + off div 512), s2)" "same_fs s1 s2" "media s2 = media s1"
            "mem_answers s2 = mem_answers s1"
          using fs_block_read [OF ok1(1,2)] same_fs_fsec [OF g(1,2)] ok1(3) by auto
        have same2: "same_fs s s2" "media s2 = media s" using same_fs_trans [OF g(1) s2(2)] s2(3) g(2) by auto
        have ok2: "fs_dev_ok s2" "inode_fits s2 ino" "fs_device s2 = fs_device s" "fsec s2 = fsec s"
          using same_fs_dev_ok [OF same2] less.prems(1,3) inode_fits_cong [OF same2(1)] same_fs_fields(1) [OF same2(1)]
            same_fs_fsec [OF same2] by auto
        obtain s3 where s3: "block_write (fs_device s) (d_start (i_data ino) + off div 512)
            (bounce_sector (fsec s (d_start (i_data ino) + off div 512)) (off mod 512) ch) s2 = Some s3"
          "wrote ino off ch s2 s3" "mem_answers s3 = mem_answers s2"
          using write_chunk [OF ok2(1,2) more(2), of ch] n(2,5) lch unfolding ok2(3,4) by auto
        have "write_loop p buf sz (int off) b (int w) s
            = write_loop p buf (sz - int n) (int off + int n) b1 (int w + int n) s3"
          using more(1) less.prems(2) n(1,2) idx s2(1) s3(1) ne part b1 False ok1(3) ok2(3)
          by (subst write_loop.simps) (auto simp: Let_def m512 ch_def)
        moreover have "can_bounce b1 s3" using False by (simp add: can_bounce_def)
        moreover obtain k s' where "write_loop p buf (sz - int n) (int off + int n) b1 (int w + int n) s3 = Some (int (w + k), s')"
          "done_ok ino sz off (can_bounce b1 s3) k" "wrote ino off (take k (drop w buf)) s s'" "popped (of_bool (b1 = 0)) s3 s'"
          using rest [OF wrote_alloc [OF same2 s3(2)], of b1] by blast
        moreover from this have "popped (of_bool (b = 0) + 0) s s'"
          using popped_trans [OF g(4), of 0 s'] s2(4) s3(3) False by (simp add: popped_def)
        ultimately show ?thesis by (intro exI [of _ k] exI [of _ s']) (simp add: done_ok_def)
      qed
    qed
  qed
qed

section \<open>Whole calls\<close>

definition idle :: "inode \<Rightarrow> bool" where
  "idle ino \<longleftrightarrow> current_readers ino = 0 \<and> writers_lock ino = 1 \<and> readers_lock ino = 1"

lemma set_inode_simps [simp]:
  "fs_dev_ok (set_inode p i s) = fs_dev_ok s" "fsec (set_inode p i s) = fsec s" "fs_size (set_inode p i s) = fs_size s"
  "inodes (set_inode p i s) p = Some i" "can_bounce b (set_inode p i s) = can_bounce b s" "media (set_inode p i s) = media s"
  "dev_geom (set_inode p i s) b = dev_geom s b" "fs_device (set_inode p i s) = fs_device s"
  "mem_answers (set_inode p i s) = mem_answers s" "next_ptr (set_inode p i s) = next_ptr s"
  using dev_geom_cong [of "set_inode p i s" s]
  by (auto simp: set_inode_def fs_dev_ok_def fsec_def fs_size_def can_bounce_def mem_ok_def fun_eq_iff split: option.splits)

lemma set_inode_same:
  assumes "same_fs (set_inode p i s) s1" "inodes s p = Some ino"
  shows "same_fs s (set_inode p ino s1)"
  using assms by (cases s, cases s1) (auto simp: set_inode_def same_fs_def)

lemma idle_read:
  assumes "idle ino"
  obtains i where "begin_read ino = Some i" "i_data i = i_data ino" "end_read i = Some ino"
  using assms by (auto simp: idle_def begin_read_def end_read_def down_readers_def down_writers_def)

lemma idle_write:
  assumes "idle ino"
  obtains i where "down_writers ino = Some i" "i_data i = i_data ino" "i\<lparr>writers_lock := writers_lock i + 1\<rparr> = ino"
  using assms by (auto simp: idle_def down_writers_def)

lemma i_data_cong:
  assumes "i_data i = i_data ino"
  shows "contents s i = contents s ino" "inode_fits s i = inode_fits s ino" "todo i = todo ino" "done_ok i = done_ok ino"
    "fbyte s i = fbyte s ino" "nsect i = nsect ino"
  using assms by (auto simp: contents_def fbyte_def inode_fits_def nsect_def todo_def done_ok_def fun_eq_iff)

lemma wrote_set_inode:
  assumes "wrote i off bs (set_inode p i s) s1" "i_data i = i_data ino" "inodes s p = Some ino"
  shows "wrote ino off bs s (set_inode p ino s1)"
  using assms set_inode_same [of p i s s1 ino] by (auto simp: wrote_def fbyte_def nsect_def)

lemma inode_read_at_spec:
  assumes "fs_dev_ok s" "inodes s p = Some ino" "idle ino" "inode_fits s ino"
  obtains n s' where "inode_read_at p sz (int off) s = Some (int n, take n (drop off (contents s ino)), s')"
    "done_ok ino sz off (can_bounce 0 s) n" "same_fs s s'" "media s' = media s" "popped 1 s s'"
proof -
  obtain i where i: "begin_read ino = Some i" "i_data i = i_data ino" "end_read i = Some ino" using idle_read [OF assms(3)] .
  note c = i_data_cong [OF i(2)]
  have "fs_dev_ok (set_inode p i s)" "inodes (set_inode p i s) p = Some i" "inode_fits (set_inode p i s) i"
    using assms c(2) [of s] by (simp_all add: inode_fits_def)
  from read_loop_spec [OF this, of sz off 0 "[]"]
  obtain n s1 where n: "read_loop p sz (int off) 0 [] (set_inode p i s) = Some (take n (drop off (contents (set_inode p i s) i)), s1)"
    "done_ok ino sz off (can_bounce 0 s) n" "same_fs (set_inode p i s) s1" "media s1 = media s"
    "popped 1 (set_inode p i s) s1"
    unfolding c(4) by auto
  have "contents (set_inode p i s) i = contents s ino" using c(1) contents_cong [of "set_inode p i s" s] by simp
  moreover have "inodes s1 p = Some i" using same_fs_fields(2) [OF n(3)] by simp
  moreover have "length (take n (drop off (contents s ino))) = n"
    using n(2) by (auto simp: done_ok_def todo_def)
  ultimately have "inode_read_at p sz (int off) s = Some (int n, take n (drop off (contents s ino)), set_inode p ino s1)"
    using n(1) i(1,3) assms(2) by (simp add: inode_read_at_def)
  then show thesis using that [of n "set_inode p ino s1"] n(2,4,5) set_inode_same [OF n(3) assms(2)]
    by (simp add: popped_def)
qed

lemma inode_write_at_spec:
  assumes "fs_dev_ok s" "inodes s p = Some ino" "idle ino" "inode_fits s ino" "sz \<le> int (length buf)"
  obtains n s' where "inode_write_at p buf sz (int off) s = Some (int n, s')"
    "done_ok ino sz off (can_bounce 0 s) n" "wrote ino off (take n buf) s s'" "popped 1 s s'"
proof -
  obtain i where i: "down_writers ino = Some i" "i_data i = i_data ino" "i\<lparr>writers_lock := writers_lock i + 1\<rparr> = ino"
    using idle_write [OF assms(3)] .
  note c = i_data_cong [OF i(2)]
  have pre: "fs_dev_ok (set_inode p i s)" "inodes (set_inode p i s) p = Some i" "inode_fits (set_inode p i s) i"
    using assms c(2) [of s] by (simp_all add: inode_fits_def)
  obtain n s1 where n: "write_loop p buf sz (int off) 0 0 (set_inode p i s) = Some (int n, s1)"
    "done_ok ino sz off (can_bounce 0 s) n" "wrote i off (take n buf) (set_inode p i s) s1"
    "popped 1 (set_inode p i s) s1"
    using write_loop_spec [OF pre, of 0 sz buf off 0] assms(5) unfolding c(4) by auto
  have "inodes s1 p = Some i" using n(3) same_fs_fields(2) [of "set_inode p i s" s1] by (simp add: wrote_def)
  then have "inode_write_at p buf sz (int off) s = Some (int n, set_inode p ino s1)"
    using n(1) i(1,3) assms(2) by (simp add: inode_write_at_def)
  moreover have "popped 1 s (set_inode p ino s1)" using n(4) by (simp add: popped_def)
  ultimately show thesis using that n(2) wrote_set_inode [OF n(3) i(2) assms(2)] by blast
qed

definition overwrite :: "u8 list \<Rightarrow> nat \<Rightarrow> u8 list \<Rightarrow> u8 list" where
  "overwrite c off bs = take off c @ bs @ drop (off + length bs) c"

lemma wrote_contents:
  assumes "wrote ino off bs s s'" "bs = [] \<or> off + length bs \<le> nat (d_length (i_data ino))"
  shows "contents s' ino = overwrite (contents s ino) off bs"
proof (cases "bs = []")
  case True
  then have "fbyte s' ino k = fbyte s ino k" for k using assms(1) by (auto simp: wrote_def)
  then have "fbyte s' ino = fbyte s ino" by (rule ext)
  then show ?thesis using True by (simp add: overwrite_def contents_def)
next
  case False
  then show ?thesis using assms by (intro nth_equalityI) (auto simp: wrote_def overwrite_def nth_append)
qed

lemma wrote_other:
  assumes "wrote ino off bs s s'" "d_start (i_data i) + nsect i \<le> d_start (i_data ino)
    \<or> d_start (i_data ino) + nsect ino \<le> d_start (i_data i)" "0 \<le> d_length (i_data i)"
  shows "contents s' i = contents s i"
proof (rule nth_equalityI)
  fix k assume "k < length (contents s' i)"
  then have k: "k < nat (d_length (i_data i))" by simp
  then have "k div 512 < nsect i" by (simp add: nsect_def)
  then have "fsec s' (d_start (i_data i) + k div 512) = fsec s (d_start (i_data i) + k div 512)"
    using assms(1,2) unfolding wrote_def by auto
  then show "contents s' i ! k = contents s i ! k" using k by (simp add: fbyte_def)
qed simp

text \<open>C37: A file is a list of bytes. Writing at any offset overwrites the bytes from there on with the
  beginning of the buffer, never past the end of the file; all of it unless no memory is left for
  the bounce buffer, and the count returned says how much. Every file on other sectors keeps its contents.
  Reading afterwards returns the bytes of the new contents from the offset on, and changes
  nothing.\<close>

theorem inode_refines_bytes:
  assumes "fs_dev_ok s" "inodes s p = Some ino" "idle ino" "inode_fits s ino" "sz \<le> int (length buf)"
  shows "\<exists>n s' m s''. inode_write_at p buf sz (int off) s = Some (int n, s')
      \<and> n \<le> nat (min sz (d_length (i_data ino) - int off))
      \<and> (can_bounce 0 s \<longrightarrow> n = nat (min sz (d_length (i_data ino) - int off)))
      \<and> contents s' ino = overwrite (contents s ino) off (take n buf) \<and> inodes s' = inodes s
      \<and> (\<forall>i. 0 \<le> d_length (i_data i) \<and> (d_start (i_data i) + nsect i \<le> d_start (i_data ino)
           \<or> d_start (i_data ino) + nsect ino \<le> d_start (i_data i)) \<longrightarrow> contents s' i = contents s i)
      \<and> inode_read_at p sz (int off) s' = Some (int m, take m (drop off (contents s' ino)), s'')
      \<and> m \<le> nat (min sz (d_length (i_data ino) - int off))
      \<and> (can_bounce 0 s' \<longrightarrow> m = nat (min sz (d_length (i_data ino) - int off))) \<and> media s'' = media s'"
proof -
  obtain n s' where n: "inode_write_at p buf sz (int off) s = Some (int n, s')"
    "done_ok ino sz off (can_bounce 0 s) n" "wrote ino off (take n buf) s s'" using inode_write_at_spec [OF assms] .
  have same: "same_fs s s'" "fs_dev_ok s'" using n(3) by (auto simp: wrote_def)
  have "take n buf = [] \<or> off + length (take n buf) \<le> nat (d_length (i_data ino))"
    using n(2) by (auto simp: done_ok_def todo_def)
  note c = wrote_contents [OF n(3) this]
  have "inodes s' p = Some ino" "inode_fits s' ino"
    using same_fs_fields(2) [OF same(1)] inode_fits_cong [OF same(1)] assms(2,4) by auto
  then obtain m s'' where "inode_read_at p sz (int off) s' = Some (int m, take m (drop off (contents s' ino)), s'')"
    "done_ok ino sz off (can_bounce 0 s') m" "media s'' = media s'"
    using inode_read_at_spec [OF same(2) _ assms(3)] by metis
  moreover have "\<forall>i. 0 \<le> d_length (i_data i) \<and> (d_start (i_data i) + nsect i \<le> d_start (i_data ino)
           \<or> d_start (i_data ino) + nsect ino \<le> d_start (i_data i)) \<longrightarrow> contents s' i = contents s i"
    using wrote_other [OF n(3)] by blast
  ultimately show ?thesis using n(1,2) c same_fs_fields(2) [OF same(1)] unfolding done_ok_def todo_def
    by (intro exI [of _ n] exI [of _ s'] exI [of _ m] exI [of _ s'']) blast
qed

text \<open>A file of 1000 bytes in the sectors 5 and 6 of the second demonstration device.\<close>

definition demo_inode :: inode where
  "demo_inode = \<lparr>i_sector = 3, open_cnt = 1, removed = False,
     i_data = \<lparr>d_start = 5, d_length = 1000, d_magic = INODE_MAGIC\<rparr>,
     current_readers = 0, writers_lock = 1, readers_lock = 1\<rparr>"

definition demo_fs :: fs where
  "demo_fs = blocks.extend ((demo_blocks [])\<lparr>media := (\<lambda>d i. replicate 512 0)\<rparr>)
     (fs.fields 2 [10 \<mapsto> demo_inode] [10] \<lparr>bit_cnt = 40, bits = [0x7f, 0]\<rparr> 0 Map.empty Map.empty False False False)"

lemma demo_fs_ok: "fs_dev_ok demo_fs" "inodes demo_fs 10 = Some demo_inode" "idle demo_inode"
  "inode_fits demo_fs demo_inode" "can_bounce 0 demo_fs"
proof -
  have g: "dev_geom demo_fs 2 = Some (0, 10, 40)" "writable demo_fs 2" "fs_device demo_fs = 2"
    by (simp_all add: dev_geom_def writable_def demo_fs_def demo_blocks_def blocks.defs fs.defs)
  moreover have "media demo_fs = (\<lambda>d i. replicate 512 0)" by (simp add: demo_fs_def demo_blocks_def blocks.defs fs.defs)
  ultimately show "fs_dev_ok demo_fs" "inode_fits demo_fs demo_inode"
    by (simp_all add: fs_dev_ok_def fs_size_def fsec_def inode_fits_def demo_inode_def nsect_def)
  show "inodes demo_fs 10 = Some demo_inode" "idle demo_inode" "can_bounce 0 demo_fs"
    by (simp_all add: demo_fs_def demo_blocks_def blocks.defs fs.defs idle_def demo_inode_def can_bounce_def mem_ok_def)
qed

theorem inode_refines_bytes_witness:
  "\<exists>n s'. inode_write_at 10 [1, 2, 3] 3 511 demo_fs = Some (3, s')
     \<and> contents s' demo_inode = overwrite (contents demo_fs demo_inode) 511 [1, 2, 3]"
  using inode_refines_bytes [OF demo_fs_ok(1-4), of 3 "[1, 2, 3]" 511] demo_fs_ok(5)
  by (auto simp: demo_inode_def)

end
