(* ===== verification/Open_Files.thy ===== *)
theory Open_Files
  imports Inode
begin

text \<open>
  The life of inodes and open files: the free map (\<^verbatim>\<open>filesys/free-map.c\<close>), creating, opening,
  closing and removing inodes (\<^verbatim>\<open>filesys/inode.c\<close>) and open files (\<^verbatim>\<open>filesys/file.c\<close>).

  The free map is a bitmap that is also written to a file, through the same functions that
  write every other file.
\<close>

section \<open>Files\<close>

definition file_read :: "nat \<Rightarrow> int \<Rightarrow> 'a fs_scheme \<Rightarrow> (int \<times> u8 list \<times> 'a fs_scheme) option" where
  "file_read f sz s = do {
     fl \<leftarrow> files s f;
     (n, buf, s) \<leftarrow> inode_read_at (f_inode fl) sz (f_pos fl) s;
     Some (n, buf, s\<lparr>files := (files s)(f := Some (fl\<lparr>f_pos := i32 (f_pos fl + n)\<rparr>))\<rparr>) }"

definition file_read_at :: "nat \<Rightarrow> int \<Rightarrow> int \<Rightarrow> 'a fs_scheme \<Rightarrow> (int \<times> u8 list \<times> 'a fs_scheme) option" where
  "file_read_at f sz file_ofs s = do { fl \<leftarrow> files s f; inode_read_at (f_inode fl) sz file_ofs s }"

definition file_write :: "nat \<Rightarrow> u8 list \<Rightarrow> int \<Rightarrow> 'a fs_scheme \<Rightarrow> (int \<times> 'a fs_scheme) option" where
  "file_write f buf sz s = do {
     fl \<leftarrow> files s f;
     (n, s) \<leftarrow> inode_write_at (f_inode fl) buf sz (f_pos fl) s;
     Some (n, s\<lparr>files := (files s)(f := Some (fl\<lparr>f_pos := i32 (f_pos fl + n)\<rparr>))\<rparr>) }"

definition file_write_at :: "nat \<Rightarrow> u8 list \<Rightarrow> int \<Rightarrow> int \<Rightarrow> 'a fs_scheme \<Rightarrow> (int \<times> 'a fs_scheme) option" where
  "file_write_at f buf sz file_ofs s = do { fl \<leftarrow> files s f; inode_write_at (f_inode fl) buf sz file_ofs s }"

definition file_length :: "nat \<Rightarrow> 'a fs_scheme \<Rightarrow> int option" where
  "file_length f s = do { fl \<leftarrow> files s f; inode_length (f_inode fl) s }"

definition file_seek :: "nat \<Rightarrow> int \<Rightarrow> 'a fs_scheme \<Rightarrow> 'a fs_scheme option" where
  "file_seek f new_pos s = do {
     ASSERT (f \<noteq> 0);
     ASSERT (new_pos \<ge> 0);
     fl \<leftarrow> files s f;
     Some (s\<lparr>files := (files s)(f := Some (fl\<lparr>f_pos := new_pos\<rparr>))\<rparr>) }"

definition file_tell :: "nat \<Rightarrow> 'a fs_scheme \<Rightarrow> int option" where
  "file_tell f s = do { ASSERT (f \<noteq> 0); fl \<leftarrow> files s f; Some (f_pos fl) }"

definition file_get_inode :: "nat \<Rightarrow> 'a fs_scheme \<Rightarrow> nat option" where
  "file_get_inode f s = map_option f_inode (files s f)"

section \<open>The free map\<close>

definition free_map_init :: "32 word list \<Rightarrow> 'a fs_scheme \<Rightarrow> 'a fs_scheme option" where
  "free_map_init ws s = do {
     let s = s\<lparr>free_map_lock := False\<rparr>;
     n \<leftarrow> block_size (fs_device s) s;
     let (p, s) = kmalloc s;
     let (q, s) = (if p \<noteq> 0 then kmalloc s else (0, s));
     r \<leftarrow> bitmap_create n (p \<noteq> 0) (if q \<noteq> 0 then Some ws else None);
     b \<leftarrow> r;
     b \<leftarrow> bitmap_mark b FREE_MAP_SECTOR;
     b \<leftarrow> bitmap_mark b ROOT_DIR_SECTOR;
     Some (s\<lparr>free_map := b\<rparr>) }"

text \<open>\<open>bitmap_write (free_map, free_map_file)\<close>: the elements of the bitmap in the byte order of the machine.\<close>

definition bitmap_bytes :: "32 word list \<Rightarrow> u8 list" where
  "bitmap_bytes ws = concat (map (\<lambda>w. le32 (unat w)) ws)"

definition free_map_write :: "'a fs_scheme \<Rightarrow> (bool \<times> 'a fs_scheme) option" where
  "free_map_write s =
     (case bitmap_write (free_map s) (\<lambda>ws n. case file_write_at (free_map_file s) (bitmap_bytes ws) (int n) 0 s of
        None \<Rightarrow> (0, None) | Some (k, s') \<Rightarrow> (nat k, Some s')) of
        (ok, r) \<Rightarrow> map_option (\<lambda>s'. (ok, s')) r)"

definition free_map_allocate :: "nat \<Rightarrow> 'a fs_scheme \<Rightarrow> (nat option \<times> 'a fs_scheme) option" where
  "free_map_allocate cnt s = do {
     s \<leftarrow> acquire_free_map s;
     (sector, b) \<leftarrow> bitmap_scan_and_flip (free_map s) 0 cnt False;
     let s = s\<lparr>free_map := b\<rparr>;
     (sector, s) \<leftarrow> (if sector \<noteq> BITMAP_ERROR \<and> free_map_file s \<noteq> 0 then do {
         (ok, s) \<leftarrow> free_map_write s;
         if \<not> ok then do {
           b \<leftarrow> bitmap_set_multiple (free_map s) sector cnt False;
           Some (BITMAP_ERROR, s\<lparr>free_map := b\<rparr>) }
         else Some (sector, s) }
       else Some (sector, s));
     Some (if sector \<noteq> BITMAP_ERROR then Some sector else None, s\<lparr>free_map_lock := False\<rparr>) }"

definition free_map_release :: "nat \<Rightarrow> nat \<Rightarrow> 'a fs_scheme \<Rightarrow> 'a fs_scheme option" where
  "free_map_release sector cnt s = do {
     s \<leftarrow> acquire_free_map s;
     a \<leftarrow> bitmap_all (free_map s) sector cnt;
     ASSERT a;
     b \<leftarrow> bitmap_set_multiple (free_map s) sector cnt False;
     (_, s) \<leftarrow> free_map_write (s\<lparr>free_map := b\<rparr>);
     Some (s\<lparr>free_map_lock := False\<rparr>) }"

section \<open>Opening and closing inodes\<close>

definition inode_init :: "'a fs_scheme \<Rightarrow> 'a fs_scheme" where
  "inode_init s = s\<lparr>open_inodes := [], filesys_lock := False\<rparr>"

definition inode_create :: "nat \<Rightarrow> int \<Rightarrow> 'a fs_scheme \<Rightarrow> (bool \<times> 'a fs_scheme) option" where
  "inode_create sector len s = do {
     s \<leftarrow> acquire_filesys s;
     ASSERT (len \<ge> 0);
     let (p, s) = kmalloc s;
     (success, s) \<leftarrow> (if p \<noteq> 0 then do {
         let sectors = bytes_to_sectors len;
         (r, s) \<leftarrow> free_map_allocate sectors s;
         (case r of
            None \<Rightarrow> Some (False, s)
          | Some start \<Rightarrow> do {
              s \<leftarrow> block_write (fs_device s) sector
                    (encode_inode \<lparr>d_start = start, d_length = len, d_magic = INODE_MAGIC\<rparr>) s;
              s \<leftarrow> for_each [0..<sectors] (\<lambda>i s. block_write (fs_device s) ((start + i) mod 2 ^ 32) (replicate 512 0) s) s;
              Some (True, s) }) }
       else Some (False, s));
     Some (success, s\<lparr>filesys_lock := False\<rparr>) }"

definition inode_reopen :: "nat \<Rightarrow> 'a fs_scheme \<Rightarrow> (nat \<times> 'a fs_scheme) option" where
  "inode_reopen p s =
     (if p = 0 then Some (p, s)
      else do { ino \<leftarrow> inodes s p; Some (p, set_inode p (ino\<lparr>open_cnt := i32 (open_cnt ino + 1)\<rparr>) s) })"

text \<open>The search for an open inode of the sector.\<close>

definition find_open :: "nat \<Rightarrow> 'a fs_scheme \<Rightarrow> nat option" where
  "find_open sector s = find (\<lambda>p. map_option i_sector (inodes s p) = Some sector) (open_inodes s)"

definition inode_open :: "nat \<Rightarrow> 'a fs_scheme \<Rightarrow> (nat \<times> 'a fs_scheme) option" where
  "inode_open sector s = do {
     s \<leftarrow> acquire_filesys s;
     case find_open sector s of
       Some p \<Rightarrow> do {
         (p, s) \<leftarrow> inode_reopen p s;
         Some (p, s\<lparr>filesys_lock := False\<rparr>) }
     | None \<Rightarrow> (let (p, s) = kmalloc s in
         if p = 0 then Some (0, s)
         else do {
           let s = s\<lparr>open_inodes := p # open_inodes s\<rparr>;
           (x, s) \<leftarrow> block_read (fs_device s) sector s;
           let s = set_inode p \<lparr>i_sector = sector, open_cnt = 1, removed = False, i_data = decode_inode x,
             current_readers = 0, writers_lock = 1, readers_lock = 1\<rparr> s;
           Some (p, s\<lparr>filesys_lock := False\<rparr>) }) }"

definition inode_get_inumber :: "nat \<Rightarrow> 'a fs_scheme \<Rightarrow> nat option" where
  "inode_get_inumber p s = map_option i_sector (inodes s p)"

definition inode_close :: "nat \<Rightarrow> 'a fs_scheme \<Rightarrow> 'a fs_scheme option" where
  "inode_close p s =
     (if p = 0 then Some s
      else do {
        s \<leftarrow> acquire_filesys s;
        ino \<leftarrow> inodes s p;
        let ino = ino\<lparr>open_cnt := i32 (open_cnt ino - 1)\<rparr>;
        let s = set_inode p ino s;
        s \<leftarrow> (if open_cnt ino = 0 then do {
            let s = s\<lparr>open_inodes := remove1 p (open_inodes s)\<rparr>;
            s \<leftarrow> (if removed ino then do {
                s \<leftarrow> free_map_release (i_sector ino) 1 s;
                free_map_release (d_start (i_data ino)) (bytes_to_sectors (d_length (i_data ino))) s }
              else Some s);
            Some (s\<lparr>inodes := (inodes s)(p := None)\<rparr>) }
          else Some s);
        Some (s\<lparr>filesys_lock := False\<rparr>) })"

definition inode_remove :: "nat \<Rightarrow> 'a fs_scheme \<Rightarrow> 'a fs_scheme option" where
  "inode_remove p s = do {
     ASSERT (p \<noteq> 0);
     s \<leftarrow> acquire_filesys s;
     ino \<leftarrow> inodes s p;
     Some ((set_inode p (ino\<lparr>removed := True\<rparr>) s)\<lparr>filesys_lock := False\<rparr>) }"

section \<open>Opening and closing files\<close>

definition file_open :: "nat \<Rightarrow> 'a fs_scheme \<Rightarrow> (nat \<times> 'a fs_scheme) option" where
  "file_open p s =
     (let (f, s) = kmalloc s in
      if p \<noteq> 0 \<and> f \<noteq> 0 then Some (f, s\<lparr>files := (files s)(f := Some \<lparr>f_inode = p, f_pos = 0\<rparr>)\<rparr>)
      else do { s \<leftarrow> inode_close p s; Some (0, s) })"

definition file_reopen :: "nat \<Rightarrow> 'a fs_scheme \<Rightarrow> (nat \<times> 'a fs_scheme) option" where
  "file_reopen f s = do { fl \<leftarrow> files s f; (p, s) \<leftarrow> inode_reopen (f_inode fl) s; file_open p s }"

definition file_close :: "nat \<Rightarrow> 'a fs_scheme \<Rightarrow> 'a fs_scheme option" where
  "file_close f s =
     (if f = 0 then Some s
      else do {
        fl \<leftarrow> files s f;
        s \<leftarrow> inode_close (f_inode fl) s;
        Some (s\<lparr>files := (files s)(f := None)\<rparr>) })"

section \<open>The free map file\<close>

text \<open>\<open>bitmap_read (free_map, free_map_file)\<close>: what was read replaces the first elements.\<close>

fun bytes_words :: "u8 list \<Rightarrow> 32 word list \<Rightarrow> 32 word list" where
  "bytes_words (a # b # c # d # r) (w # ws) = word_of_nat (le_at 0 4 [a, b, c, d]) # bytes_words r ws"
| "bytes_words _ ws = ws"

definition free_map_read :: "'a fs_scheme \<Rightarrow> (bool \<times> 'a fs_scheme) option" where
  "free_map_read s = do {
     (n, buf, s) \<leftarrow> (if bit_cnt (free_map s) > 0 then file_read_at (free_map_file s) (int (bitmap_file_size (free_map s))) 0 s
                    else Some (0, [], s));
     (ok, b) \<leftarrow> bitmap_read (free_map s) (\<lambda>_ ws. (nat n, bytes_words buf ws));
     Some (ok, s\<lparr>free_map := b\<rparr>) }"

definition free_map_open :: "'a fs_scheme \<Rightarrow> 'a fs_scheme option" where
  "free_map_open s = do {
     (p, s) \<leftarrow> inode_open FREE_MAP_SECTOR s;
     (f, s) \<leftarrow> file_open p s;
     let s = s\<lparr>free_map_file := f\<rparr>;
     ASSERT (f \<noteq> 0);
     (ok, s) \<leftarrow> free_map_read s;
     ASSERT ok;
     Some s }"

definition free_map_close :: "'a fs_scheme \<Rightarrow> 'a fs_scheme option" where
  "free_map_close s = file_close (free_map_file s) s"

definition free_map_create :: "'a fs_scheme \<Rightarrow> 'a fs_scheme option" where
  "free_map_create s = do {
     (ok, s) \<leftarrow> inode_create FREE_MAP_SECTOR (int (bitmap_file_size (free_map s))) s;
     ASSERT ok;
     (p, s) \<leftarrow> inode_open FREE_MAP_SECTOR s;
     (f, s) \<leftarrow> file_open p s;
     let s = s\<lparr>free_map_file := f\<rparr>;
     ASSERT (f \<noteq> 0);
     (ok, s) \<leftarrow> free_map_write s;
     ASSERT ok;
     Some s }"

section \<open>Numbers on disk\<close>

lemma length_le32 [simp]: "length (le32 n) = 4"
  by (simp add: le32_def)

lemma le_at_le32:
  assumes "n < 2 ^ 32"
  shows "le_at 0 4 (le32 n @ r) = n"
proof -
  define a b c where "a = n div 256" and "b = a div 256" and "c = b div 256"
  have div: "n div 65536 = b" "n div 16777216 = c" by (simp_all add: a_def b_def c_def div_mult2_eq [symmetric])
  have "c < 256" using assms by (simp add: a_def b_def c_def less_mult_imp_div_less)
  then have "unat (word_of_nat c :: u8) = c" by (simp add: unat_of_nat)
  moreover have "n = n mod 256 + 256 * (a mod 256 + 256 * (b mod 256 + 256 * c))"
    unfolding c_def by (simp add: a_def b_def)
  ultimately show ?thesis by (simp add: le_at_def le32_def div unat_of_nat flip: a_def)
qed

lemma le_at_skip: "le_at (length a + i) n (a @ x) = le_at i n x"
  by (simp add: le_at_def)

lemma decode_encode:
  assumes "d_start d < 2 ^ 32" "0 \<le> d_length d" "d_length d < 2 ^ 31" "d_magic d < 2 ^ 32"
  shows "decode_inode (encode_inode d) = d" "length (encode_inode d) = 512"
proof -
  let ?l = "nat (d_length d mod 2 ^ 32)"
  have l: "?l < 2 ^ 32" "i32 (int ?l) = d_length d" using assms by (auto simp: i32_def)
  have "le_at 4 4 (encode_inode d) = ?l"
    using le_at_skip [of "le32 (d_start d)" 0 4] le_at_le32 [OF l(1)] by (simp add: encode_inode_def)
  moreover have "le_at 8 4 (encode_inode d) = d_magic d"
    using le_at_skip [of "le32 (d_start d) @ le32 ?l" 0 4] le_at_le32 [OF assms(4)] by (simp add: encode_inode_def)
  moreover have "le_at 0 4 (encode_inode d) = d_start d" using le_at_le32 [OF assms(1)] by (simp add: encode_inode_def)
  ultimately show "decode_inode (encode_inode d) = d" using l(2) by (simp add: decode_inode_def)
  show "length (encode_inode d) = 512" by (simp add: encode_inode_def)
qed

end
