(* ===== verification/Directory.thy ===== *)
theory Directory
  imports Open_Files
begin

text \<open>
  Directories (\<^verbatim>\<open>filesys/directory.c\<close>) and the file system interface (\<^verbatim>\<open>filesys/filesys.c\<close>).

  A directory is a file of entries of 20 bytes: the sector of the inode, the name with its
  terminator in 15 bytes, and a flag. A name is the list of its bytes without the terminator.
  The entries in use make up a finite map from names to sectors, \<open>dir_map\<close>; looking up, adding and
  removing names are shown to be the operations of that map.
\<close>

section \<open>Directory entries\<close>

abbreviation (input) NAME_MAX :: nat where "NAME_MAX \<equiv> 14"
abbreviation (input) ENTRY_SIZE :: nat where "ENTRY_SIZE \<equiv> 20"

definition e_sector :: "u8 list \<Rightarrow> nat" where "e_sector e = le_at 0 4 e"
definition e_name :: "u8 list \<Rightarrow> u8 list" where "e_name e = takeWhile (\<lambda>x. x \<noteq> 0) (drop 4 e)"
definition e_in_use :: "u8 list \<Rightarrow> bool" where "e_in_use e \<longleftrightarrow> e ! 19 \<noteq> 0"

text \<open>\<open>strlcpy\<close> into the name leaves the bytes after the terminator as they were.\<close>

definition set_entry :: "u8 list \<Rightarrow> nat \<Rightarrow> u8 list \<Rightarrow> u8 list" where
  "set_entry name sector e =
     (let n = take NAME_MAX name in le32 sector @ n @ [0] @ take (NAME_MAX - length n) (drop (4 + length n + 1) e) @ [1])"

section \<open>Directories\<close>

definition dir_create :: "nat \<Rightarrow> nat \<Rightarrow> 'a fs_scheme \<Rightarrow> (bool \<times> 'a fs_scheme) option" where
  "dir_create sector entry_cnt s = inode_create sector (i32 (int (entry_cnt * ENTRY_SIZE))) s"

definition dir_init :: "'a fs_scheme \<Rightarrow> 'a fs_scheme" where
  "dir_init s = s\<lparr>dir_lock := False\<rparr>"

definition dir_open :: "nat \<Rightarrow> 'a fs_scheme \<Rightarrow> (nat \<times> 'a fs_scheme) option" where
  "dir_open p s =
     (let (d, s) = kmalloc s in
      if p \<noteq> 0 \<and> d \<noteq> 0 then Some (d, s\<lparr>dirs := (dirs s)(d := Some \<lparr>dir_inode = p, dir_pos = 0\<rparr>)\<rparr>)
      else do { s \<leftarrow> inode_close p s; Some (0, s) })"

definition dir_open_root :: "'a fs_scheme \<Rightarrow> (nat \<times> 'a fs_scheme) option" where
  "dir_open_root s = do { (p, s) \<leftarrow> inode_open ROOT_DIR_SECTOR s; dir_open p s }"

definition dir_reopen :: "nat \<Rightarrow> 'a fs_scheme \<Rightarrow> (nat \<times> 'a fs_scheme) option" where
  "dir_reopen d s = do { dr \<leftarrow> dirs s d; (p, s) \<leftarrow> inode_reopen (dir_inode dr) s; dir_open p s }"

definition dir_close :: "nat \<Rightarrow> 'a fs_scheme \<Rightarrow> 'a fs_scheme option" where
  "dir_close d s =
     (if d = 0 then Some s
      else do {
        dr \<leftarrow> dirs s d;
        s \<leftarrow> inode_close (dir_inode dr) s;
        Some (s\<lparr>dirs := (dirs s)(d := None)\<rparr>) })"

definition dir_get_inode :: "nat \<Rightarrow> 'a fs_scheme \<Rightarrow> nat option" where
  "dir_get_inode d s = map_option dir_inode (dirs s d)"

text \<open>The loop of \<open>lookup\<close>: the entry found and its offset, if any.\<close>

partial_function (option) lookup_loop ::
  "nat \<Rightarrow> u8 list \<Rightarrow> nat \<Rightarrow> 'a fs_scheme \<Rightarrow> ((u8 list \<times> nat) option \<times> 'a fs_scheme) option" where
  "lookup_loop p name ofs s = do {
     (n, e, s) \<leftarrow> inode_read_at p (int ENTRY_SIZE) (i32 (int ofs)) s;
     if n = int ENTRY_SIZE then
       (if e_in_use e \<and> name = e_name e then Some (Some (e, ofs), s)
        else lookup_loop p name ((ofs + ENTRY_SIZE) mod 2 ^ 32) s)
     else Some (None, s) }"

definition lookup :: "nat \<Rightarrow> u8 list \<Rightarrow> 'a fs_scheme \<Rightarrow> ((u8 list \<times> nat) option \<times> 'a fs_scheme) option" where
  "lookup d name s = do { ASSERT (d \<noteq> 0); dr \<leftarrow> dirs s d; lookup_loop (dir_inode dr) name 0 s }"

definition dir_lookup :: "nat \<Rightarrow> u8 list \<Rightarrow> 'a fs_scheme \<Rightarrow> (nat \<times> 'a fs_scheme) option" where
  "dir_lookup d name s = do {
     (r, s) \<leftarrow> lookup d name s;
     case r of Some (e, _) \<Rightarrow> inode_open (e_sector e) s | None \<Rightarrow> Some (0, s) }"

text \<open>The search for a free slot: its offset and the bytes that the variable \<open>e\<close> holds then. At the
  end of the file the last entry read is still there; \<open>old\<close> are those bytes.\<close>

partial_function (option) free_slot_loop ::
  "nat \<Rightarrow> u8 list \<Rightarrow> int \<Rightarrow> 'a fs_scheme \<Rightarrow> (u8 list \<times> int \<times> 'a fs_scheme) option" where
  "free_slot_loop p old ofs s = do {
     (n, e, s) \<leftarrow> inode_read_at p (int ENTRY_SIZE) ofs s;
     let e = e @ drop (length e) old;
     if n = int ENTRY_SIZE then
       (if \<not> e_in_use e then Some (e, ofs, s)
        else free_slot_loop p e (i32 (ofs + int ENTRY_SIZE)) s)
     else Some (e, ofs, s) }"

text \<open>\<open>e\<close> are the uninitialised bytes of the local variable.\<close>

definition dir_add :: "nat \<Rightarrow> u8 list \<Rightarrow> nat \<Rightarrow> u8 list \<Rightarrow> 'a fs_scheme \<Rightarrow> (bool \<times> 'a fs_scheme) option" where
  "dir_add d name inode_sector e s = do {
     ASSERT (d \<noteq> 0);
     s \<leftarrow> acquire_dir s;
     if name = [] \<or> length name > NAME_MAX then Some (False, s)
     else do {
       (r, s) \<leftarrow> lookup d name s;
       (success, s) \<leftarrow> (if r \<noteq> None then Some (False, s)
         else do {
           dr \<leftarrow> dirs s d;
           (e, ofs, s) \<leftarrow> free_slot_loop (dir_inode dr) e 0 s;
           (n, s) \<leftarrow> inode_write_at (dir_inode dr) (set_entry name inode_sector e) (int ENTRY_SIZE) ofs s;
           Some (n = int ENTRY_SIZE, s) });
       Some (success, s\<lparr>dir_lock := False\<rparr>) } }"

definition dir_remove :: "nat \<Rightarrow> u8 list \<Rightarrow> 'a fs_scheme \<Rightarrow> (bool \<times> 'a fs_scheme) option" where
  "dir_remove d name s = do {
     ASSERT (d \<noteq> 0);
     s \<leftarrow> acquire_dir s;
     (r, s) \<leftarrow> lookup d name s;
     (success, p, s) \<leftarrow> (case r of
         None \<Rightarrow> Some (False, 0, s)
       | Some (e, ofs) \<Rightarrow> do {
           (p, s) \<leftarrow> inode_open (e_sector e) s;
           if p = 0 then Some (False, 0, s)
           else do {
             dr \<leftarrow> dirs s d;
             (n, s) \<leftarrow> inode_write_at (dir_inode dr) (e[19 := 0]) (int ENTRY_SIZE) (i32 (int ofs)) s;
             if n \<noteq> int ENTRY_SIZE then Some (False, p, s)
             else do { s \<leftarrow> inode_remove p s; Some (True, p, s) } } });
     s \<leftarrow> inode_close p s;
     Some (success, s\<lparr>dir_lock := False\<rparr>) }"

text \<open>The result is the name, or \<open>None\<close> when there are no more entries.\<close>

partial_function (option) dir_readdir :: "nat \<Rightarrow> 'a fs_scheme \<Rightarrow> (u8 list option \<times> 'a fs_scheme) option" where
  "dir_readdir d s = do {
     dr \<leftarrow> dirs s d;
     (n, e, s) \<leftarrow> inode_read_at (dir_inode dr) (int ENTRY_SIZE) (dir_pos dr) s;
     if n = int ENTRY_SIZE then do {
       let s = s\<lparr>dirs := (dirs s)(d := Some (dr\<lparr>dir_pos := i32 (dir_pos dr + int ENTRY_SIZE)\<rparr>))\<rparr>;
       if e_in_use e then Some (Some (take NAME_MAX (e_name e)), s) else dir_readdir d s }
     else Some (None, s) }"

section \<open>The file system interface\<close>

definition filesys_create :: "u8 list \<Rightarrow> int \<Rightarrow> u8 list \<Rightarrow> 'a fs_scheme \<Rightarrow> (bool \<times> 'a fs_scheme) option" where
  "filesys_create name initial_size e s = do {
     (d, s) \<leftarrow> dir_open_root s;
     (r, s) \<leftarrow> (if d \<noteq> 0 then free_map_allocate 1 s else Some (None, s));
     let inode_sector = (case r of Some x \<Rightarrow> x | None \<Rightarrow> 0);
     (ok, s) \<leftarrow> (if d \<noteq> 0 \<and> r \<noteq> None then inode_create inode_sector initial_size s else Some (False, s));
     (success, s) \<leftarrow> (if ok then dir_add d name inode_sector e s else Some (False, s));
     s \<leftarrow> (if \<not> success \<and> inode_sector \<noteq> 0 then free_map_release inode_sector 1 s else Some s);
     s \<leftarrow> dir_close d s;
     Some (success, s) }"

definition filesys_open :: "u8 list \<Rightarrow> 'a fs_scheme \<Rightarrow> (nat \<times> 'a fs_scheme) option" where
  "filesys_open name s = do {
     (d, s) \<leftarrow> dir_open_root s;
     (p, s) \<leftarrow> (if d \<noteq> 0 then dir_lookup d name s else Some (0, s));
     s \<leftarrow> dir_close d s;
     file_open p s }"

definition filesys_remove :: "u8 list \<Rightarrow> 'a fs_scheme \<Rightarrow> (bool \<times> 'a fs_scheme) option" where
  "filesys_remove name s = do {
     (d, s) \<leftarrow> dir_open_root s;
     (success, s) \<leftarrow> (if d \<noteq> 0 then dir_remove d name s else Some (False, s));
     s \<leftarrow> dir_close d s;
     Some (success, s) }"

definition do_format :: "'a fs_scheme \<Rightarrow> 'a fs_scheme option" where
  "do_format s = do {
     s \<leftarrow> free_map_create s;
     (ok, s) \<leftarrow> dir_create ROOT_DIR_SECTOR 16 s;
     ASSERT ok;
     free_map_close s }"

definition filesys_init :: "32 word list \<Rightarrow> bool \<Rightarrow> 'a fs_scheme \<Rightarrow> 'a fs_scheme option" where
  "filesys_init ws format s = do {
     b \<leftarrow> block_get_role BLOCK_FILESYS s;
     let s = s\<lparr>fs_device := b\<rparr>;
     ASSERT (b \<noteq> 0);
     let s = inode_init s;
     s \<leftarrow> free_map_init ws s;
     let s = dir_init s;
     s \<leftarrow> (if format then do_format s else Some s);
     free_map_open s }"

definition filesys_done :: "'a fs_scheme \<Rightarrow> 'a fs_scheme option" where
  "filesys_done s = free_map_close s"

section \<open>A directory as a list of entries\<close>

definition dir_entry :: "u8 list \<Rightarrow> nat \<Rightarrow> u8 list" where
  "dir_entry c k = take ENTRY_SIZE (drop (ENTRY_SIZE * k) c)"

definition dir_entries :: "u8 list \<Rightarrow> u8 list list" where
  "dir_entries c = map (dir_entry c) [0..<length c div ENTRY_SIZE]"

definition names :: "u8 list \<Rightarrow> u8 list \<Rightarrow> bool" where
  "names name e \<longleftrightarrow> e_in_use e \<and> name = e_name e"

definition dir_map :: "u8 list \<Rightarrow> u8 list \<Rightarrow> nat option" where
  "dir_map c name = map_option e_sector (find (names name) (dir_entries c))"

lemma length_dir_entries [simp]: "length (dir_entries c) = length c div ENTRY_SIZE"
  by (simp add: dir_entries_def)

lemma nth_dir_entries [simp]: "k < length c div ENTRY_SIZE \<Longrightarrow> dir_entries c ! k = dir_entry c k"
  by (simp add: dir_entries_def)

lemma entry_end: "ENTRY_SIZE * k + ENTRY_SIZE \<le> n \<longleftrightarrow> k < n div ENTRY_SIZE"
  by (auto simp: less_eq_div_iff_mult_less_eq algebra_simps simp flip: Suc_le_eq)

lemma length_dir_entry: "k < length c div ENTRY_SIZE \<Longrightarrow> length (dir_entry c k) = ENTRY_SIZE"
proof -
  assume "k < length c div ENTRY_SIZE"
  then have "ENTRY_SIZE * k + ENTRY_SIZE \<le> length c" using entry_end [of k "length c"] by simp
  then show ?thesis by (simp add: dir_entry_def)
qed

text \<open>What is needed to read the directory: the inode is open and at rest, the file lies on the device,
  offsets do not overflow, and there is memory for \<open>n\<close> bounce buffers.\<close>

definition dir_ok :: "nat \<Rightarrow> nat \<Rightarrow> inode \<Rightarrow> 'a fs_scheme \<Rightarrow> bool" where
  "dir_ok n p ino s \<longleftrightarrow> fs_dev_ok s \<and> inodes s p = Some ino \<and> idle ino \<and> inode_fits s ino
     \<and> d_length (i_data ino) \<le> 2 ^ 30 \<and> mem_ok n s \<and> 0 < next_ptr s"

lemma dir_ok_step:
  assumes "dir_ok (Suc n) p ino s" "same_fs s s'" "fs_dev_ok s'" "popped 1 s s'"
  shows "dir_ok n p ino s'"
  using assms same_fs_fields [OF assms(2)] inode_fits_cong [OF assms(2), of ino] popped_mem_ok [OF assms(4), of n]
  by (auto simp: dir_ok_def same_fs_def)

lemma dir_read_entry:
  assumes "dir_ok (Suc n) p ino s"
  obtains m s' where "inode_read_at p (int ENTRY_SIZE) (int (ENTRY_SIZE * k)) s
      = Some (int m, take m (drop (ENTRY_SIZE * k) (contents s ino)), s')"
    "m = ENTRY_SIZE \<longleftrightarrow> k < length (contents s ino) div ENTRY_SIZE" "m \<le> ENTRY_SIZE"
    "dir_ok n p ino s'" "same_fs s s'" "media s' = media s" "popped 1 s s'"
proof -
  note ok = assms [unfolded dir_ok_def]
  have mem: "can_bounce 0 s" using ok by (simp add: can_bounce_def mem_ok_def)
  obtain m s' where m: "inode_read_at p (int ENTRY_SIZE) (int (ENTRY_SIZE * k)) s
      = Some (int m, take m (drop (ENTRY_SIZE * k) (contents s ino)), s')"
    "done_ok ino (int ENTRY_SIZE) (ENTRY_SIZE * k) (can_bounce 0 s) m" "same_fs s s'" "media s' = media s" "popped 1 s s'"
    using inode_read_at_spec [of s p ino "int ENTRY_SIZE" "ENTRY_SIZE * k"] ok by blast
  then have "m = todo ino (int ENTRY_SIZE) (ENTRY_SIZE * k)" using mem by (simp add: done_ok_def)
  then have "m = ENTRY_SIZE \<longleftrightarrow> ENTRY_SIZE * k + ENTRY_SIZE \<le> length (contents s ino)" "m \<le> ENTRY_SIZE"
    by (auto simp: todo_def)
  moreover have "ENTRY_SIZE * k + ENTRY_SIZE \<le> length (contents s ino) \<longleftrightarrow> k < length (contents s ino) div ENTRY_SIZE"
    by (rule entry_end)
  moreover have "dir_ok n p ino s'" using dir_ok_step [OF assms m(3) _ m(5)] same_fs_dev_ok [OF m(3,4)] ok by blast
  ultimately show thesis using that m by blast
qed

lemma dir_read_first:
  assumes "dir_ok (Suc n) p ino s" "k < length (contents s ino) div ENTRY_SIZE"
  shows "\<exists>s'. inode_read_at p (int ENTRY_SIZE) (int (ENTRY_SIZE * k)) s
      = Some (int ENTRY_SIZE, dir_entry (contents s ino) k, s') \<and> dir_ok n p ino s' \<and> same_fs s s' \<and> media s' = media s"
proof -
  obtain m s' where "inode_read_at p (int ENTRY_SIZE) (int (ENTRY_SIZE * k)) s
      = Some (int m, take m (drop (ENTRY_SIZE * k) (contents s ino)), s')"
    "m = ENTRY_SIZE \<longleftrightarrow> k < length (contents s ino) div ENTRY_SIZE" "m \<le> ENTRY_SIZE"
    "dir_ok n p ino s'" "same_fs s s'" "media s' = media s" "popped 1 s s'" using dir_read_entry [OF assms(1)] .
  then show ?thesis using assms(2) by (auto simp: dir_entry_def)
qed

lemma dir_offset_small:
  assumes "dir_ok n p ino s" "k \<le> length (contents s ino) div ENTRY_SIZE"
  shows "ENTRY_SIZE * k \<le> 2 ^ 30" "i32 (int (ENTRY_SIZE * k)) = int (ENTRY_SIZE * k)"
proof -
  have "ENTRY_SIZE * k \<le> length (contents s ino)" using assms(2) by (simp add: less_eq_div_iff_mult_less_eq mult.commute)
  moreover have "length (contents s ino) \<le> 2 ^ 30" using assms(1) by (auto simp: dir_ok_def)
  ultimately show "ENTRY_SIZE * k \<le> 2 ^ 30" by linarith
  then show "i32 (int (ENTRY_SIZE * k)) = int (ENTRY_SIZE * k)" by (intro i32_small) auto
qed

lemma dir_ok_mono: "dir_ok m p ino s \<Longrightarrow> n \<le> m \<Longrightarrow> dir_ok n p ino s"
  by (auto simp: dir_ok_def mem_ok_def)

lemma lookup_loop_spec:
  assumes "c = contents s ino" "k \<le> length c div ENTRY_SIZE" "dir_ok (length c div ENTRY_SIZE - k + 1 + n) p ino s"
  shows "\<exists>s'. lookup_loop p name (ENTRY_SIZE * k) s = Some (map_option (\<lambda>j. (dir_entry c j, ENTRY_SIZE * j))
        (find (\<lambda>j. names name (dir_entry c j)) [k..<length c div ENTRY_SIZE]), s')
    \<and> same_fs s s' \<and> media s' = media s \<and> dir_ok n p ino s'"
  using assms
proof (induction "length c div ENTRY_SIZE - k" arbitrary: k s)
  case (0 k s)
  then have ok: "dir_ok (Suc n) p ino s" by simp
  obtain m s' where m: "inode_read_at p (int ENTRY_SIZE) (int (ENTRY_SIZE * k)) s
      = Some (int m, take m (drop (ENTRY_SIZE * k) (contents s ino)), s')"
    "m = ENTRY_SIZE \<longleftrightarrow> k < length (contents s ino) div ENTRY_SIZE" "m \<le> ENTRY_SIZE"
    "dir_ok n p ino s'" "same_fs s s'" "media s' = media s" "popped 1 s s'" using dir_read_entry [OF ok] .
  have "i32 (int (ENTRY_SIZE * k)) = int (ENTRY_SIZE * k)" using dir_offset_small(2) [OF ok, of k] 0 by simp
  then show ?case using 0 m by (subst lookup_loop.simps) auto
next
  case (Suc x k s)
  then have k: "k < length c div ENTRY_SIZE" and x: "x = length c div ENTRY_SIZE - Suc k" by linarith+
  have ok: "dir_ok (Suc (length c div ENTRY_SIZE - Suc k + 1 + n)) p ino s"
    using Suc.prems(3) Suc.hyps(2) by (auto elim: dir_ok_mono)
  obtain s1 where s1: "inode_read_at p (int ENTRY_SIZE) (int (ENTRY_SIZE * k)) s
      = Some (int ENTRY_SIZE, dir_entry c k, s1)"
    "dir_ok (length c div ENTRY_SIZE - Suc k + 1 + n) p ino s1" "same_fs s s1" "media s1 = media s"
    using dir_read_first [OF ok, of k] k Suc.prems(1) by blast
  have off: "i32 (int (ENTRY_SIZE * k)) = int (ENTRY_SIZE * k)" "(ENTRY_SIZE * k + ENTRY_SIZE) mod 2 ^ 32 = ENTRY_SIZE * Suc k"
    using dir_offset_small [OF Suc.prems(3), of k] Suc.prems(1,2) by auto
  have up: "[k..<length c div ENTRY_SIZE] = k # [Suc k..<length c div ENTRY_SIZE]" using k by (simp add: upt_conv_Cons)
  show ?case
  proof (cases "names name (dir_entry c k)")
    case True
    then show ?thesis using s1 off dir_ok_mono [OF s1(2), of n]
      by (subst lookup_loop.simps) (auto simp: up names_def)
  next
    case False
    have "c = contents s1 ino" using Suc.prems(1) contents_cong [OF same_fs_fsec [OF s1(3,4)]] by simp
    then obtain s' where "lookup_loop p name (ENTRY_SIZE * Suc k) s1 = Some (map_option (\<lambda>j. (dir_entry c j, ENTRY_SIZE * j))
        (find (\<lambda>j. names name (dir_entry c j)) [Suc k..<length c div ENTRY_SIZE]), s')"
      "same_fs s1 s'" "media s' = media s1" "dir_ok n p ino s'"
      using Suc.hyps(1) [OF x _ Suc_leI [OF k] s1(2)] by blast
    moreover have "lookup_loop p name (ENTRY_SIZE * k) s = lookup_loop p name (ENTRY_SIZE * Suc k) s1"
      using False s1(1) off by (subst lookup_loop.simps) (auto simp: names_def)
    ultimately show ?thesis using False same_fs_trans [OF s1(3)] s1(4) by (auto simp: up)
  qed
qed

lemma free_slot_spec:
  assumes "c = contents s ino" "k \<le> length c div ENTRY_SIZE" "dir_ok (length c div ENTRY_SIZE - k + 1 + n) p ino s"
    and "length old = ENTRY_SIZE"
  shows "\<exists>e s'. free_slot_loop p old (int (ENTRY_SIZE * k)) s = Some (e, int (ENTRY_SIZE *
        (case find (\<lambda>j. \<not> e_in_use (dir_entry c j)) [k..<length c div ENTRY_SIZE] of None \<Rightarrow> length c div ENTRY_SIZE | Some j \<Rightarrow> j)), s')
    \<and> same_fs s s' \<and> media s' = media s \<and> dir_ok n p ino s' \<and> length e = ENTRY_SIZE"
  using assms
proof (induction "length c div ENTRY_SIZE - k" arbitrary: k s old)
  case (0 k s)
  then have ok: "dir_ok (Suc n) p ino s" by simp
  obtain m s' where "inode_read_at p (int ENTRY_SIZE) (int (ENTRY_SIZE * k)) s
      = Some (int m, take m (drop (ENTRY_SIZE * k) (contents s ino)), s')"
    "m = ENTRY_SIZE \<longleftrightarrow> k < length (contents s ino) div ENTRY_SIZE" "m \<le> ENTRY_SIZE"
    "dir_ok n p ino s'" "same_fs s s'" "media s' = media s" "popped 1 s s'" using dir_read_entry [OF ok] .
  then show ?case using 0 by (subst free_slot_loop.simps) auto
next
  case (Suc x k s)
  then have k: "k < length c div ENTRY_SIZE" and x: "x = length c div ENTRY_SIZE - Suc k" by linarith+
  have ok: "dir_ok (Suc (length c div ENTRY_SIZE - Suc k + 1 + n)) p ino s"
    using Suc.prems(3) Suc.hyps(2) by (auto elim: dir_ok_mono)
  have len: "length (dir_entry c k) = ENTRY_SIZE" using length_dir_entry [OF k] .
  obtain s1 where s1: "inode_read_at p (int ENTRY_SIZE) (int (ENTRY_SIZE * k)) s
      = Some (int ENTRY_SIZE, dir_entry c k, s1)"
    "dir_ok (length c div ENTRY_SIZE - Suc k + 1 + n) p ino s1" "same_fs s s1" "media s1 = media s"
    using dir_read_first [OF ok, of k] k Suc.prems(1) by blast
  have off: "i32 (int (ENTRY_SIZE * k) + int ENTRY_SIZE) = int (ENTRY_SIZE * Suc k)"
    using dir_offset_small(2) [OF Suc.prems(3), of "Suc k"] Suc.prems(1) k by (simp add: algebra_simps)
  have up: "[k..<length c div ENTRY_SIZE] = k # [Suc k..<length c div ENTRY_SIZE]" using k by (simp add: upt_conv_Cons)
  show ?case
  proof (cases "e_in_use (dir_entry c k)")
    case False
    then show ?thesis using s1 len Suc.prems(4) dir_ok_mono [OF s1(2), of n]
      by (subst free_slot_loop.simps) (auto simp: up)
  next
    case True
    have "c = contents s1 ino" using Suc.prems(1) contents_cong [OF same_fs_fsec [OF s1(3,4)]] by simp
    then obtain e s' where "free_slot_loop p (dir_entry c k) (int (ENTRY_SIZE * Suc k)) s1 = Some (e, int (ENTRY_SIZE *
        (case find (\<lambda>j. \<not> e_in_use (dir_entry c j)) [Suc k..<length c div ENTRY_SIZE] of None \<Rightarrow> length c div ENTRY_SIZE | Some j \<Rightarrow> j)), s')"
      "same_fs s1 s'" "media s' = media s1" "dir_ok n p ino s'" "length e = ENTRY_SIZE"
      using Suc.hyps(1) [OF x _ Suc_leI [OF k] s1(2) len] by blast
    moreover have "free_slot_loop p old (int (ENTRY_SIZE * k)) s = free_slot_loop p (dir_entry c k) (int (ENTRY_SIZE * Suc k)) s1"
      using True s1(1) off len Suc.prems(4) by (subst free_slot_loop.simps) auto
    ultimately show ?thesis using True same_fs_trans [OF s1(3)] s1(4) by (auto simp: up)
  qed
qed

section \<open>A directory as a map\<close>

lemma find_map_eq: "find P (map f xs) = map_option f (find (\<lambda>x. P (f x)) xs)"
  by (induction xs) auto

lemma find_update_same:
  "j < length xs \<Longrightarrow> \<not> P (xs ! j) \<Longrightarrow> \<not> P x \<Longrightarrow> find P (xs[j := x]) = find P xs"
proof (induction xs arbitrary: j)
  case (Cons y ys) then show ?case by (cases j) auto
qed simp

lemma find_update_new:
  "j < length xs \<Longrightarrow> find P xs = None \<Longrightarrow> P x \<Longrightarrow> find P (xs[j := x]) = Some x"
proof (induction xs arbitrary: j)
  case (Cons y ys) then show ?case by (cases j) (auto split: if_splits)
qed simp

definition valid_name :: "u8 list \<Rightarrow> bool" where
  "valid_name name \<longleftrightarrow> name \<noteq> [] \<and> length name \<le> NAME_MAX \<and> 0 \<notin> set name"

lemma set_entry_fields:
  assumes "valid_name name" "sector < 2 ^ 32" "length e = ENTRY_SIZE"
  shows "length (set_entry name sector e) = ENTRY_SIZE" "e_name (set_entry name sector e) = name"
    "e_sector (set_entry name sector e) = sector" "e_in_use (set_entry name sector e)"
proof -
  let ?r = "take (NAME_MAX - length name) (drop (4 + length name + 1) e)"
  have se: "set_entry name sector e = le32 sector @ name @ [0] @ ?r @ [1]"
    using assms(1) by (simp add: set_entry_def valid_name_def)
  have r: "length ?r = NAME_MAX - length name" using assms(1,3) by (simp add: valid_name_def)
  then show "length (set_entry name sector e) = ENTRY_SIZE" using assms(1) by (simp add: se valid_name_def)
  have "takeWhile (\<lambda>x. x \<noteq> 0) (name @ 0 # ?r @ [1]) = name"
    using assms(1) by (subst takeWhile_append2) (auto simp: valid_name_def)
  then show "e_name (set_entry name sector e) = name" by (simp add: e_name_def se)
  show "e_sector (set_entry name sector e) = sector" using le_at_le32 [OF assms(2)] by (simp add: e_sector_def se)
  have "set_entry name sector e ! 19 = 1"
    using assms(1) r by (auto simp: se nth_append valid_name_def nth_Cons')
  then show "e_in_use (set_entry name sector e)" by (simp add: e_in_use_def)
qed

lemma dir_entry_nth: "i < ENTRY_SIZE \<Longrightarrow> ENTRY_SIZE * k + i < length c \<Longrightarrow> dir_entry c k ! i = c ! (ENTRY_SIZE * k + i)"
  by (simp add: dir_entry_def)

lemma dir_entries_overwrite:
  assumes "j < length c div ENTRY_SIZE" "length e = ENTRY_SIZE"
  shows "dir_entries (overwrite c (ENTRY_SIZE * j) e) = (dir_entries c)[j := e]"
proof (rule nth_equalityI)
  have end_j: "ENTRY_SIZE * j + ENTRY_SIZE \<le> length c" using assms(1) entry_end [of j "length c"] by simp
  have len: "length (overwrite c (ENTRY_SIZE * j) e) = length c" using end_j assms(2) by (simp add: overwrite_def)
  have nth: "overwrite c (ENTRY_SIZE * j) e ! x = (if ENTRY_SIZE * j \<le> x \<and> x < ENTRY_SIZE * j + ENTRY_SIZE
      then e ! (x - ENTRY_SIZE * j) else c ! x)" if "x < length c" for x
    using that end_j assms(2) by (auto simp: overwrite_def nth_append)
  show "length (dir_entries (overwrite c (ENTRY_SIZE * j) e)) = length ((dir_entries c)[j := e])" by (simp add: len)
  fix k assume "k < length (dir_entries (overwrite c (ENTRY_SIZE * j) e))"
  then have k: "k < length c div ENTRY_SIZE" by (simp add: len)
  then have end_k: "ENTRY_SIZE * k + ENTRY_SIZE \<le> length c" using entry_end [of k "length c"] by simp
  have "dir_entry (overwrite c (ENTRY_SIZE * j) e) k = (if k = j then e else dir_entry c k)"
  proof (rule nth_equalityI)
    fix i assume "i < length (dir_entry (overwrite c (ENTRY_SIZE * j) e) k)"
    then have i: "i < ENTRY_SIZE" by (simp add: dir_entry_def)
    moreover have "ENTRY_SIZE * j \<le> ENTRY_SIZE * k + i \<and> ENTRY_SIZE * k + i < ENTRY_SIZE * j + ENTRY_SIZE \<longleftrightarrow> k = j"
      using i by linarith
    ultimately show "dir_entry (overwrite c (ENTRY_SIZE * j) e) k ! i = (if k = j then e else dir_entry c k) ! i"
      using end_k len by (auto simp: dir_entry_nth nth)
  qed (use end_k len assms(2) in \<open>auto simp: dir_entry_def\<close>)
  then show "dir_entries (overwrite c (ENTRY_SIZE * j) e) ! k = (dir_entries c)[j := e] ! k"
    using k len assms(1) by (auto simp: nth_list_update)
qed

lemma dir_map_index:
  "dir_map c name = map_option (\<lambda>j. e_sector (dir_entry c j)) (find (\<lambda>j. names name (dir_entry c j)) [0..<length c div ENTRY_SIZE])"
  by (simp add: dir_map_def dir_entries_def find_map_eq option.map_comp o_def)

lemma dir_map_add:
  assumes "j < length c div ENTRY_SIZE" "\<not> e_in_use (dir_entry c j)" "dir_map c name = None"
    and "valid_name name" "sector < 2 ^ 32" "length e = ENTRY_SIZE"
  shows "dir_map (overwrite c (ENTRY_SIZE * j) (set_entry name sector e)) = (dir_map c)(name \<mapsto> sector)"
proof
  fix n
  note f = set_entry_fields [OF assms(4-6)]
  have old: "\<not> names n (dir_entries c ! j)" using assms(1,2) by (simp add: names_def)
  show "dir_map (overwrite c (ENTRY_SIZE * j) (set_entry name sector e)) n = ((dir_map c)(name \<mapsto> sector)) n"
  proof (cases "n = name")
    case True
    then have "find (names n) (dir_entries c) = None" using assms(3) by (simp add: dir_map_def)
    then show ?thesis using True assms(1) f
      by (simp add: dir_map_def dir_entries_overwrite find_update_new names_def)
  next
    case False
    then show ?thesis using assms(1) old f
      by (simp add: dir_map_def dir_entries_overwrite find_update_same names_def)
  qed
qed

lemma lookup_spec:
  assumes "d \<noteq> 0" "dirs s d = Some dr" "c = contents s ino" "dir_ok (length c div ENTRY_SIZE + 1 + n) (dir_inode dr) ino s"
  shows "\<exists>r s'. lookup d name s = Some (r, s') \<and> map_option (\<lambda>(e, _). e_sector e) r = dir_map c name
    \<and> same_fs s s' \<and> media s' = media s \<and> dir_ok n (dir_inode dr) ino s'"
proof -
  obtain s' where "lookup_loop (dir_inode dr) name (ENTRY_SIZE * 0) s = Some (map_option (\<lambda>j. (dir_entry c j, ENTRY_SIZE * j))
        (find (\<lambda>j. names name (dir_entry c j)) [0..<length c div ENTRY_SIZE]), s')"
    "same_fs s s'" "media s' = media s" "dir_ok n (dir_inode dr) ino s'"
    using lookup_loop_spec [OF assms(3), of 0 n "dir_inode dr" name] assms(4) by auto
  then show ?thesis using assms(1,2) by (auto simp: lookup_def dir_map_index option.map_comp o_def)
qed

lemma dir_lock_simps [simp]:
  "fsec (s\<lparr>dir_lock := b\<rparr>) = fsec s" "fs_size (s\<lparr>dir_lock := b\<rparr>) = fs_size s" "fs_dev_ok (s\<lparr>dir_lock := b\<rparr>) = fs_dev_ok s"
  "contents (s\<lparr>dir_lock := b\<rparr>) i = contents s i" "dir_ok n p ino (s\<lparr>dir_lock := b\<rparr>) = dir_ok n p ino s"
  using dev_geom_cong [of "s\<lparr>dir_lock := b\<rparr>" s]
  by (auto simp: fsec_def fs_size_def fs_dev_ok_def fun_eq_iff contents_def fbyte_def dir_ok_def inode_fits_def mem_ok_def
      split: option.splits)

lemma take_drop_prefix:
  assumes "a + n \<le> t" "t \<le> length xs"
  shows "take n (drop a (take t xs @ ys)) = take n (drop a xs)"
  using assms by (intro nth_equalityI) (auto simp: nth_append)

lemma dir_entries_tail:
  assumes "ENTRY_SIZE * (length c div ENTRY_SIZE) + length bs \<le> length c"
  shows "dir_entries (overwrite c (ENTRY_SIZE * (length c div ENTRY_SIZE)) bs) = dir_entries c"
proof (rule nth_equalityI)
  let ?o = "overwrite c (ENTRY_SIZE * (length c div ENTRY_SIZE)) bs"
  have len: "length ?o = length c" using assms by (simp add: overwrite_def)
  then show "length (dir_entries ?o) = length (dir_entries c)" by simp
  fix k assume "k < length (dir_entries ?o)"
  then have k: "k < length c div ENTRY_SIZE" by (simp add: len)
  then have "ENTRY_SIZE * k + ENTRY_SIZE \<le> ENTRY_SIZE * (length c div ENTRY_SIZE)" by linarith
  then have "dir_entry ?o k = dir_entry c k"
    using take_drop_prefix [of "ENTRY_SIZE * k" ENTRY_SIZE "ENTRY_SIZE * (length c div ENTRY_SIZE)" c]
    by (simp add: dir_entry_def overwrite_def)
  then show "dir_entries ?o ! k = dir_entries c ! k" using k len by simp
qed

lemma dir_write:
  assumes "dir_ok (Suc n) p ino s" "length e = ENTRY_SIZE"
  obtains m s' where "inode_write_at p e (int ENTRY_SIZE) (int (ENTRY_SIZE * k)) s = Some (int m, s')"
    "m = ENTRY_SIZE \<longleftrightarrow> k < length (contents s ino) div ENTRY_SIZE"
    "contents s' ino = overwrite (contents s ino) (ENTRY_SIZE * k) (take m e)"
    "ENTRY_SIZE * k \<le> length (contents s ino) \<Longrightarrow> ENTRY_SIZE * k + m \<le> length (contents s ino)"
    "wrote ino (ENTRY_SIZE * k) (take m e) s s'" "dir_ok n p ino s'" "same_fs s s'"
proof -
  note ok = assms(1) [unfolded dir_ok_def]
  have mem: "can_bounce 0 s" using ok by (simp add: can_bounce_def mem_ok_def)
  obtain m s' where m: "inode_write_at p e (int ENTRY_SIZE) (int (ENTRY_SIZE * k)) s = Some (int m, s')"
    "done_ok ino (int ENTRY_SIZE) (ENTRY_SIZE * k) (can_bounce 0 s) m" "wrote ino (ENTRY_SIZE * k) (take m e) s s'" "popped 1 s s'"
    using inode_write_at_spec [of s p ino "int ENTRY_SIZE" e "ENTRY_SIZE * k"] ok assms(2) by auto
  have mt: "m = todo ino (int ENTRY_SIZE) (ENTRY_SIZE * k)" using mem m(2) by (simp add: done_ok_def)
  then have "m = ENTRY_SIZE \<longleftrightarrow> ENTRY_SIZE * k + ENTRY_SIZE \<le> length (contents s ino)" by (auto simp: todo_def)
  moreover have "take m e = [] \<or> ENTRY_SIZE * k + length (take m e) \<le> nat (d_length (i_data ino))"
    using mt assms(2) by (auto simp: todo_def)
  note wrote_contents [OF m(3) this]
  moreover have "dir_ok n p ino s'" using dir_ok_step [OF assms(1) _ _ m(4)] m(3) by (simp add: wrote_def)
  moreover have "ENTRY_SIZE * k \<le> length (contents s ino) \<Longrightarrow> ENTRY_SIZE * k + m \<le> length (contents s ino)"
    using mt by (auto simp: todo_def)
  moreover have "same_fs s s'" using m(3) by (simp add: wrote_def)
  ultimately show thesis using that m(1,3) unfolding entry_end by blast
qed

lemma find_in_use:
  "find (\<lambda>j. \<not> e_in_use (dir_entry c j)) [0..<length c div ENTRY_SIZE] = None \<longleftrightarrow> (\<forall>x\<in>set (dir_entries c). e_in_use x)"
  by (auto simp: find_None_iff dir_entries_def)

lemma dir_add_spec:
  assumes d: "d \<noteq> 0" "dirs s d = Some dr" "\<not> dir_lock s" and c: "c = contents s ino"
    and ok: "dir_ok (2 * (length c div ENTRY_SIZE) + 3 + n) (dir_inode dr) ino s"
    and args: "valid_name name" "sector < 2 ^ 32" "length e = ENTRY_SIZE"
  shows "\<exists>success s'. dir_add d name sector e s = Some (success, s') \<and> \<not> dir_lock s'
    \<and> (success \<longleftrightarrow> dir_map c name = None \<and> (\<exists>x\<in>set (dir_entries c). \<not> e_in_use x))
    \<and> dir_map (contents s' ino) = (if success then (dir_map c)(name \<mapsto> sector) else dir_map c)
    \<and> (\<forall>i. 0 \<le> d_length (i_data i) \<and> (d_start (i_data i) + nsect i \<le> d_start (i_data ino)
         \<or> d_start (i_data ino) + nsect ino \<le> d_start (i_data i)) \<longrightarrow> contents s' i = contents s i)
    \<and> dir_ok n (dir_inode dr) ino s' \<and> dirs s' d = Some dr"
proof -
  let ?N = "length c div ENTRY_SIZE" and ?p = "dir_inode dr"
  define s0 where "s0 = s\<lparr>dir_lock := True\<rparr>"
  have s0: "c = contents s0 ino" "dir_ok (?N + 1 + (?N + 2 + n)) ?p ino s0" "dirs s0 d = Some dr"
    unfolding s0_def dir_lock_simps using c dir_ok_mono [OF ok] d(2) by simp_all
  obtain r s1 where s1: "lookup d name s0 = Some (r, s1)" "map_option (\<lambda>(e, _). e_sector e) r = dir_map c name"
    "same_fs s0 s1" "media s1 = media s0" "dir_ok (?N + 2 + n) ?p ino s1"
    using lookup_spec [OF d(1) s0(3,1,2)] by blast
  have c1: "contents s1 i = contents s i" for i
    using contents_cong [OF same_fs_fsec [OF s1(3,4)], of i] by (simp add: s0_def)
  have start: "dir_add d name sector e s = do {
      (success, s) \<leftarrow> (if r \<noteq> None then Some (False, s1)
         else do {
           dr \<leftarrow> dirs s1 d;
           (e, ofs, s) \<leftarrow> free_slot_loop (dir_inode dr) e 0 s1;
           (n, s) \<leftarrow> inode_write_at (dir_inode dr) (set_entry name sector e) (int ENTRY_SIZE) ofs s;
           Some (n = int ENTRY_SIZE, s) });
      Some (success, s\<lparr>dir_lock := False\<rparr>) }"
    using d(1,3) args(1) s1(1) by (simp add: dir_add_def acquire_dir_def s0_def valid_name_def del: not_None_eq)
  show ?thesis
  proof (cases "dir_map c name = None")
    case False
    then have "r \<noteq> None" using s1(2) by auto
    then show ?thesis using start False c1 c s1(5) dir_ok_mono [OF s1(5), of n] same_fs_fields(7) [OF s1(3)] s0(3)
      by (intro exI [of _ False] exI [of _ "s1\<lparr>dir_lock := False\<rparr>"]) auto
  next
    case True
    then have r: "r = None" using s1(2) by auto
    have ok1: "dir_ok (?N - 0 + 1 + Suc n) ?p ino s1" using s1(5) by simp
    have cs1: "c = contents s1 ino" using c c1 by simp
    obtain x s2 where s2: "free_slot_loop ?p e (int (ENTRY_SIZE * 0)) s1 = Some (x, int (ENTRY_SIZE *
        (case find (\<lambda>j. \<not> e_in_use (dir_entry c j)) [0..<?N] of None \<Rightarrow> ?N | Some j \<Rightarrow> j)), s2)"
      "same_fs s1 s2" "media s2 = media s1" "dir_ok (Suc n) ?p ino s2" "length x = ENTRY_SIZE"
      using free_slot_spec [OF cs1 _ ok1 args(3)] by blast
    have c2: "contents s2 i = contents s i" for i using contents_cong [OF same_fs_fsec [OF s2(2,3)], of i] c1 by simp
    define j where "j = (case find (\<lambda>j. \<not> e_in_use (dir_entry c j)) [0..<?N] of None \<Rightarrow> ?N | Some j \<Rightarrow> j)"
    note f = set_entry_fields [OF args(1,2) s2(5)]
    obtain m s3 where s3: "inode_write_at ?p (set_entry name sector x) (int ENTRY_SIZE) (int (ENTRY_SIZE * j)) s2 = Some (int m, s3)"
      "m = ENTRY_SIZE \<longleftrightarrow> j < length (contents s2 ino) div ENTRY_SIZE"
      "contents s3 ino = overwrite (contents s2 ino) (ENTRY_SIZE * j) (take m (set_entry name sector x))"
      "ENTRY_SIZE * j \<le> length (contents s2 ino) \<Longrightarrow> ENTRY_SIZE * j + m \<le> length (contents s2 ino)"
      "wrote ino (ENTRY_SIZE * j) (take m (set_entry name sector x)) s2 s3" "dir_ok n ?p ino s3" "same_fs s2 s3"
      using dir_write [OF s2(4) f(1), where k = j] by blast
    have dirs3: "dirs s1 d = Some dr" "dirs s3 d = Some dr"
      using same_fs_fields(7) s1(3) s2(2) s3(7) s0(3) by metis+
    have other: "contents s3 i = contents s i" if "0 \<le> d_length (i_data i)" "d_start (i_data i) + nsect i \<le> d_start (i_data ino)
         \<or> d_start (i_data ino) + nsect ino \<le> d_start (i_data i)" for i
      using wrote_other [OF s3(5) that(2,1)] c2 by simp
    have res: "dir_add d name sector e s = Some (m = ENTRY_SIZE, s3\<lparr>dir_lock := False\<rparr>)"
      using start r dirs3 s2(1) s3(1) by (simp add: j_def)
    have "(m = ENTRY_SIZE \<longleftrightarrow> (\<exists>x\<in>set (dir_entries c). \<not> e_in_use x)) \<and>
      dir_map (contents s3 ino) = (if m = ENTRY_SIZE then (dir_map c)(name \<mapsto> sector) else dir_map c)"
    proof (cases "find (\<lambda>j. \<not> e_in_use (dir_entry c j)) [0..<?N]")
      case None
      then have j: "j = ?N" by (simp add: j_def)
      have "m \<noteq> ENTRY_SIZE" using s3(2) c2 c j by simp
      moreover have "ENTRY_SIZE * j + m \<le> length c" using s3(4) c2 c j by simp
      then have "dir_entries (contents s3 ino) = dir_entries c"
        using s3(3) dir_entries_tail [of c "take m (set_entry name sector x)"] c2 c j f(1) by simp
      ultimately show ?thesis using None find_in_use [of c] by (auto simp: dir_map_def)
    next
      case (Some k)
      then have j: "j < ?N" "\<not> e_in_use (dir_entry c j)" using find_upt_Some [OF Some] by (auto simp: j_def)
      have "m = ENTRY_SIZE" using s3(2) c2 c j by simp
      moreover have "dir_entry c j \<in> set (dir_entries c)" using j(1) by (auto simp: dir_entries_def)
      moreover have "contents s3 ino = overwrite c (ENTRY_SIZE * j) (set_entry name sector x)"
        using s3(3) c2 c f(1) \<open>m = ENTRY_SIZE\<close> by simp
      ultimately show ?thesis using dir_map_add [OF j True args(1,2) s2(5)] j(2) by auto
    qed
    then show ?thesis using res True other s3(6) dirs3(2)
      by (intro exI [of _ "m = ENTRY_SIZE"] exI [of _ "s3\<lparr>dir_lock := False\<rparr>"]) auto
  qed
qed

text \<open>C38: a directory is a map from names to sectors, and adding a name refines adding it to the map.
  With memory for the bounce buffers and the lock free, \<open>dir_add\<close> returns; it succeeds exactly if the
  name is not in the map and some slot is free (a directory never grows); on success the map has
  the new name besides all the old ones, on failure it is as before; no other file changes; and
  every lookup afterwards answers from the new map.\<close>

theorem dir_add_refines:
  assumes "d \<noteq> 0" "dirs s d = Some dr" "\<not> dir_lock s" "c = contents s ino"
    and "dir_ok (3 * (length c div ENTRY_SIZE) + 4) (dir_inode dr) ino s"
    and "valid_name name" "sector < 2 ^ 32" "length e = ENTRY_SIZE"
  shows "\<exists>success s'. dir_add d name sector e s = Some (success, s') \<and> \<not> dir_lock s'
    \<and> (success \<longleftrightarrow> dir_map c name = None \<and> (\<exists>x\<in>set (dir_entries c). \<not> e_in_use x))
    \<and> dir_map (contents s' ino) = (if success then (dir_map c)(name \<mapsto> sector) else dir_map c)
    \<and> (\<forall>i. 0 \<le> d_length (i_data i) \<and> (d_start (i_data i) + nsect i \<le> d_start (i_data ino)
         \<or> d_start (i_data ino) + nsect ino \<le> d_start (i_data i)) \<longrightarrow> contents s' i = contents s i)
    \<and> (\<forall>nm. \<exists>r s''. lookup d nm s' = Some (r, s'') \<and>
         map_option (\<lambda>(x, _). e_sector x) r = (if success then (dir_map c)(name \<mapsto> sector) else dir_map c) nm)"
proof -
  let ?N = "length c div ENTRY_SIZE"
  have "dir_ok (2 * ?N + 3 + (?N + 1 + 0)) (dir_inode dr) ino s" using dir_ok_mono [OF assms(5)] by simp
  from dir_add_spec [OF assms(1-4) this assms(6-8)] obtain success s' where
    r: "dir_add d name sector e s = Some (success, s')" "\<not> dir_lock s'"
      "success \<longleftrightarrow> dir_map c name = None \<and> (\<exists>x\<in>set (dir_entries c). \<not> e_in_use x)"
      "dir_map (contents s' ino) = (if success then (dir_map c)(name \<mapsto> sector) else dir_map c)"
      "\<forall>i. 0 \<le> d_length (i_data i) \<and> (d_start (i_data i) + nsect i \<le> d_start (i_data ino)
         \<or> d_start (i_data ino) + nsect ino \<le> d_start (i_data i)) \<longrightarrow> contents s' i = contents s i"
    and ok: "dir_ok (?N + 1 + 0) (dir_inode dr) ino s'" "dirs s' d = Some dr" by blast
  have "length (contents s' ino) = length c" using assms(4) by simp
  then have "dir_ok (length (contents s' ino) div ENTRY_SIZE + 1 + 0) (dir_inode dr) ino s'" using ok(1) by simp
  from lookup_spec [OF assms(1) ok(2) refl this]
  have "\<forall>nm. \<exists>q s''. lookup d nm s' = Some (q, s'') \<and> map_option (\<lambda>(x, _). e_sector x) q = dir_map (contents s' ino) nm"
    by blast
  from this [unfolded r(4)] r show ?thesis by blast
qed

text \<open>A directory of three slots in sector 5: one name, \<^verbatim>\<open>A\<close> for sector 9, and two free slots.\<close>

definition demo_dir :: inode where
  "demo_dir = demo_inode\<lparr>i_data := \<lparr>d_start = 5, d_length = 60, d_magic = INODE_MAGIC\<rparr>\<rparr>"

definition demo_dir_fs :: fs where
  "demo_dir_fs = demo_fs\<lparr>media := (\<lambda>d i. set_entry [65] 9 (replicate 20 0) @ replicate 492 0),
     mem_answers := replicate 13 True, inodes := [10 \<mapsto> demo_dir], dirs := [20 \<mapsto> \<lparr>dir_inode = 10, dir_pos = 0\<rparr>]\<rparr>"

lemma demo_dir_fs_ok: "dir_ok 13 10 demo_dir demo_dir_fs" "\<not> dir_lock demo_dir_fs"
  "dirs demo_dir_fs 20 = Some \<lparr>dir_inode = 10, dir_pos = 0\<rparr>"
  "contents demo_dir_fs demo_dir = set_entry [65] 9 (replicate 20 0) @ replicate 40 0"
proof -
  let ?x = "set_entry [65] 9 (replicate 20 0) @ replicate 492 (0 :: u8)"
  have x: "length ?x = 512" by (simp add: set_entry_def)
  have g: "dev_geom demo_dir_fs 2 = Some (0, 10, 40)" "writable demo_dir_fs 2" "fs_device demo_dir_fs = 2"
    by (simp_all add: dev_geom_def writable_def demo_dir_fs_def demo_fs_def demo_blocks_def blocks.defs fs.defs)
  have sec: "fsec demo_dir_fs i = ?x" for i using g by (simp add: fsec_def demo_dir_fs_def)
  show "dir_ok 13 10 demo_dir demo_dir_fs"
    using g sec x demo_fs_ok(3)
    by (simp add: dir_ok_def fs_dev_ok_def fs_size_def inode_fits_def demo_dir_def nsect_def idle_def)
      (simp add: demo_dir_fs_def demo_fs_def demo_blocks_def blocks.defs fs.defs mem_ok_def demo_dir_def)
  show "\<not> dir_lock demo_dir_fs" "dirs demo_dir_fs 20 = Some \<lparr>dir_inode = 10, dir_pos = 0\<rparr>"
    by (simp_all add: demo_dir_fs_def demo_fs_def demo_blocks_def blocks.defs fs.defs)
  show "contents demo_dir_fs demo_dir = set_entry [65] 9 (replicate 20 0) @ replicate 40 0"
  proof -
    have "length (set_entry [65] 9 (replicate 20 0)) = 20" by (simp add: set_entry_def)
    then show ?thesis by (intro nth_equalityI) (auto simp: fbyte_def sec demo_dir_def nth_append)
  qed
qed

theorem dir_add_refines_witness:
  "\<exists>s'. dir_add 20 [66] 11 (replicate 20 0) demo_dir_fs = Some (True, s')
    \<and> dir_map (contents s' demo_dir) = [[65] \<mapsto> 9, [66] \<mapsto> 11]"
proof -
  let ?c = "set_entry [65] 9 (replicate 20 0) @ replicate 40 (0 :: u8)"
  have es: "dir_entries ?c = [set_entry [65] 9 (replicate 20 0), replicate 20 0, replicate 20 0]"
    by (simp add: dir_entries_def dir_entry_def set_entry_def upt_rec)
  have f: "valid_name [65]" "valid_name [66]" by (simp_all add: valid_name_def)
  note a = set_entry_fields [OF f(1), of 9 "replicate 20 0"]
  have "dir_map ?c = [[65] \<mapsto> 9]"
    using a by (auto simp: dir_map_def es names_def fun_eq_iff) (auto simp: e_in_use_def)
  moreover have "\<exists>x\<in>set (dir_entries ?c). \<not> e_in_use x" by (simp add: es e_in_use_def)
  moreover have len: "length ?c = 60" "length (replicate 20 (0 :: u8)) = 20" by (simp_all add: set_entry_def)
  have ok: "dir_ok (3 * (length ?c div ENTRY_SIZE) + 4) (dir_inode \<lparr>dir_inode = 10, dir_pos = 0\<rparr>) demo_dir demo_dir_fs"
    using demo_dir_fs_ok(1) unfolding len by simp
  have "(20 :: nat) \<noteq> 0" "(11 :: nat) < 2 ^ 32" by simp_all
  note dir_add_refines [OF this(1) demo_dir_fs_ok(3,2) demo_dir_fs_ok(4) [symmetric] ok f(2) this(2) len(2)]
  ultimately show ?thesis by (elim exE conjE) (auto intro!: exI)
qed

section \<open>The directory lock\<close>

text \<open>Nothing but the functions of \<^verbatim>\<open>directory.c\<close> touches the directory lock, whatever the state of the devices.\<close>

lemma block_read_more:
  assumes ret: "block_read b i s = Some (x, s')"
  shows "blocks.more s' = blocks.more s"
proof -
  have "blocks.more (snd (x, s')) = blocks.more s"
  proof (rule block_read.raw_induct [of "\<lambda>b i s r. blocks.more (snd r) = blocks.more s", OF _ ret], goal_cases)
    case (1 f b i s r)
    note ih = 1(1)
    from 1(2) obtain d where d: "blkdevs s b = Some d" by (auto simp: Option.bind_eq_Some_conv)
    show ?case using 1(2) d by (cases "b_ops d") (auto simp: disk_read_def Option.bind_eq_Some_conv dest!: ih)
  qed
  then show ?thesis by simp
qed

lemma block_write_more:
  assumes ret: "block_write b i x s = Some s'"
  shows "blocks.more s' = blocks.more s"
proof (rule block_write.raw_induct [of "\<lambda>b i x s r. blocks.more r = blocks.more s", OF _ ret], goal_cases)
  case (1 f b i x s r)
  note ih = 1(1)
  from 1(2) obtain d where d: "blkdevs s b = Some d" by (auto simp: Option.bind_eq_Some_conv)
  show ?case using 1(2) d by (cases "b_ops d") (auto simp: disk_write_def Option.bind_eq_Some_conv dest!: ih)
qed

lemma get_bounce_more: "get_bounce b s = (b', s') \<Longrightarrow> blocks.more s' = blocks.more s"
  by (auto simp: get_bounce_def kmalloc_def Let_def split: list.splits bool.splits if_splits)

lemma kmalloc_more: "kmalloc s = (p, s') \<Longrightarrow> blocks.more s' = blocks.more s"
  by (auto simp: kmalloc_def Let_def split: list.splits bool.splits if_splits)

lemma write_loop_more: "write_loop p buf sz offset bounce written s = Some (n, s') \<Longrightarrow> blocks.more s' = blocks.more s"
proof (induction "nat sz" arbitrary: sz offset bounce written s rule: less_induct)
  case less
  have ih: "blocks.more s' = blocks.more t" if "write_loop p buf (sz - k) o' b w t = Some (n, s')" "0 < sz" "\<not> k \<le> 0" for k o' b w t
    using less(1) [of "sz - k" o' b w t] that by simp
  show ?case
  proof (cases "0 < sz")
    case False
    then show ?thesis using less(2) by (simp add: write_loop.simps)
  next
    case True
    then obtain ino where ino: "inodes s p = Some ino" "0 \<le> offset" using less(2) by (auto simp: write_loop.simps Option.bind_eq_Some_conv)
    define k where "k = chunk_size ino sz offset"
    note step = less(2) [unfolded write_loop.simps [of p buf sz], simplified ino True k_def [symmetric] Let_def, simplified]
    show ?thesis
      using step ino(2)
      by (auto simp: Option.bind_eq_Some_conv dest!: ih [OF _ True] block_write_more block_read_more get_bounce_more
        split: if_splits prod.splits)
  qed
qed

lemma dir_lock_more: "blocks.more s' = blocks.more s \<Longrightarrow> dir_lock s' = dir_lock s"
  by (rule more_fs)

lemmas io_dir_lock = block_read_more [THEN dir_lock_more] block_write_more [THEN dir_lock_more]
  kmalloc_more [THEN dir_lock_more] write_loop_more [THEN dir_lock_more]

lemma inode_write_at_dir_lock: "inode_write_at p buf sz off s = Some (n, s') \<Longrightarrow> dir_lock s' = dir_lock s"
  by (auto simp: inode_write_at_def set_inode_def Option.bind_eq_Some_conv dest!: io_dir_lock)

lemma free_map_write_dir_lock: "free_map_write s = Some (ok, s') \<Longrightarrow> dir_lock s' = dir_lock s"
  by (auto simp: free_map_write_def bitmap_write_def file_write_at_def Option.bind_eq_Some_conv Let_def
      dest!: inode_write_at_dir_lock split: if_splits option.splits prod.splits)

lemma free_map_allocate_dir_lock: "free_map_allocate n s = Some (r, s') \<Longrightarrow> dir_lock s' = dir_lock s"
  by (auto simp: free_map_allocate_def acquire_free_map_def Option.bind_eq_Some_conv Let_def
      dest!: free_map_write_dir_lock split: if_splits)

lemma free_map_release_dir_lock: "free_map_release i n s = Some s' \<Longrightarrow> dir_lock s' = dir_lock s"
  by (auto simp: free_map_release_def acquire_free_map_def Option.bind_eq_Some_conv Let_def
      dest!: free_map_write_dir_lock split: if_splits)

lemma for_each_keeps:
  assumes "for_each xs body s = Some s'" "\<And>x s s'. body x s = Some s' \<Longrightarrow> f s' = f s"
  shows "f s' = f s"
  using assms(1) by (induction xs arbitrary: s) (auto simp: Option.bind_eq_Some_conv dest!: assms(2))

lemma inode_create_dir_lock: "inode_create i n s = Some (ok, s') \<Longrightarrow> dir_lock s' = dir_lock s"
  by (auto simp: inode_create_def acquire_filesys_def Option.bind_eq_Some_conv Let_def
      dest!: free_map_allocate_dir_lock io_dir_lock for_each_keeps [where f = dir_lock] split: if_splits prod.splits option.splits)

lemma inode_open_dir_lock: "inode_open i s = Some (p, s') \<Longrightarrow> dir_lock s' = dir_lock s"
  by (auto simp: inode_open_def inode_reopen_def set_inode_def acquire_filesys_def Option.bind_eq_Some_conv Let_def
      dest!: io_dir_lock split: if_splits prod.splits option.splits)

lemma inode_close_dir_lock: "inode_close p s = Some s' \<Longrightarrow> dir_lock s' = dir_lock s"
  by (auto simp: inode_close_def set_inode_def acquire_filesys_def Option.bind_eq_Some_conv Let_def
      dest!: free_map_release_dir_lock split: if_splits)

lemma dir_open_dir_lock: "dir_open p s = Some (d, s') \<Longrightarrow> dir_lock s' = dir_lock s"
  by (cases "kmalloc s") (auto simp: dir_open_def Option.bind_eq_Some_conv Let_def
      dest!: io_dir_lock inode_close_dir_lock split: if_splits)

lemma dir_open_root_dir_lock: "dir_open_root s = Some (d, s') \<Longrightarrow> dir_lock s' = dir_lock s"
  by (auto simp: dir_open_root_def Option.bind_eq_Some_conv dest!: inode_open_dir_lock dir_open_dir_lock)

lemma dir_close_dir_lock: "dir_close d s = Some s' \<Longrightarrow> dir_lock s' = dir_lock s"
  by (auto simp: dir_close_def Option.bind_eq_Some_conv dest!: inode_close_dir_lock split: if_splits)

lemmas keeps_dir_lock = free_map_allocate_dir_lock free_map_release_dir_lock inode_create_dir_lock
  dir_open_root_dir_lock dir_close_dir_lock

lemma dir_locked: "dir_lock s \<Longrightarrow> dir_add d name i e s = None" "dir_lock s \<Longrightarrow> dir_remove d name s = None"
  by (simp_all add: dir_add_def dir_remove_def acquire_dir_def Option.bind_eq_None_conv)

lemma filesys_remove_locked:
  assumes "dir_lock s" "filesys_remove name s = Some (ok, s')"
  shows "\<not> ok" "dir_lock s'"
  using assms by (auto simp: filesys_remove_def Option.bind_eq_Some_conv dir_locked dest!: keeps_dir_lock split: if_splits)

lemma filesys_create_locked:
  assumes "dir_lock s" "filesys_create name n e s = Some (ok, s')"
  shows "\<not> ok" "dir_lock s'"
  using assms by (auto simp: filesys_create_def Option.bind_eq_Some_conv Let_def dir_locked dest!: keeps_dir_lock split: if_splits)

text \<open>C39: a name that is empty or longer than 14 bytes locks the directory for good. Adding it is
  refused, as it should be, but the early return of \<open>dir_add\<close> keeps the directory lock; and while the
  lock is held, no call of \<open>filesys_create\<close> and \<open>filesys_remove\<close> succeeds, whatever the state of the file
  system and whatever the name, and none of those that return at all gives the lock back.\<close>

theorem bad_name_locks_directory:
  assumes "d \<noteq> 0" "\<not> dir_lock s" "name = [] \<or> NAME_MAX < length name"
  shows "\<exists>s'. dir_add d name i e s = Some (False, s') \<and> dir_lock s' \<and>
    (\<forall>(t :: 'a fs_scheme) nm n e' ok t'. dir_lock t \<longrightarrow>
      filesys_create nm n e' t = Some (ok, t') \<or> filesys_remove nm t = Some (ok, t') \<longrightarrow> \<not> ok \<and> dir_lock t')"
proof -
  have "dir_add d name i e s = Some (False, s\<lparr>dir_lock := True\<rparr>)" using assms by (auto simp: dir_add_def acquire_dir_def)
  moreover have "\<not> ok \<and> dir_lock t'" if "dir_lock t" "filesys_create nm n e' t = Some (ok, t') \<or> filesys_remove nm t = Some (ok, t')"
    for t t' :: "'a fs_scheme" and nm n e' ok
    using that(2) filesys_create_locked [OF that(1)] filesys_remove_locked [OF that(1)] by blast
  ultimately show ?thesis by (intro exI [of _ "s\<lparr>dir_lock := True\<rparr>"]) (simp, blast)
qed

theorem bad_name_locks_directory_witness:
  "\<exists>s'. dir_add 20 [] 7 (replicate 20 0) demo_fs = Some (False, s') \<and> dir_lock s' \<and>
    (\<forall>t'. filesys_remove [65] s' \<noteq> Some (True, t'))"
proof -
  have "\<not> dir_lock demo_fs" by (simp add: demo_fs_def demo_blocks_def blocks.defs fs.defs)
  from bad_name_locks_directory [OF _ this, of 20 "[]" 7 "replicate 20 0"] show ?thesis by fastforce
qed

end
