(* ===== verification/Process.thy ===== *)
theory Process
  imports Synch Open_Files
begin

text \<open>
  The end of a process and waiting for it (\<^verbatim>\<open>process_exit\<close> and \<^verbatim>\<open>process_wait\<close> of
  \<^verbatim>\<open>userprog/process.c\<close>). Parent and child share a \<^verbatim>\<open>struct shared_mem\<close> (\<^verbatim>\<open>threads/thread.h\<close>); a pointer
  to it is its address, and its lock and semaphores are at the offsets they have in the structure.

  A function returns \<open>False\<close> (or no value) when its caller is blocked inside it, on a lock or in
  \<^verbatim>\<open>sema_down\<close>, and another thread runs; what the caller does after it is resumed is not part of
  that result. The messages that \<^verbatim>\<open>process_exit\<close> prints are kept as pairs of name and status.
\<close>

record shared_mem =
  cmd_line :: nat
  child_tid :: int
  exit_status :: int
  alive_count :: int
  waited :: bool

record proc = sync +
  shared :: "nat \<rightharpoonup> shared_mem"
  fsys :: fs
  exit_msgs :: "(string \<times> int) list"

definition alive_count_lock :: "nat \<Rightarrow> nat" where
  "alive_count_lock sm = sm + 16"
definition sema_exec :: "nat \<Rightarrow> nat" where
  "sema_exec sm = sm + 40"
definition sema_wait :: "nat \<Rightarrow> nat" where
  "sema_wait sm = sm + 60"

text \<open>Access through a pointer; a null pointer faults.\<close>

definition get_shared :: "nat \<Rightarrow> proc \<Rightarrow> shared_mem option" where
  "get_shared p s = (if p = 0 then None else shared s p)"

definition set_shared :: "nat \<Rightarrow> shared_mem \<Rightarrow> proc \<Rightarrow> proc" where
  "set_shared p sm s = s\<lparr>shared := (shared s)(p \<mapsto> sm)\<rparr>"

definition decremented :: "shared_mem \<Rightarrow> shared_mem" where
  "decremented sm = sm\<lparr>alive_count := int_wrap (alive_count sm - 1)\<rparr>"

section \<open>Exit\<close>

text \<open>The loop of \<^verbatim>\<open>process_exit\<close> over \<^verbatim>\<open>child_relations\<close>. An element that is taken out of the list
  keeps its link to the next one.\<close>

primrec leave_children :: "nat \<Rightarrow> nat list \<Rightarrow> proc \<Rightarrow> (bool \<times> proc) option" where
  "leave_children t [] s = Some (True, s)"
| "leave_children t (e # es) s = do {
     (acquired, s) \<leftarrow> lock_acquire (alive_count_lock e) s;
     if \<not> acquired then Some (False, s)
     else do {
       sm \<leftarrow> get_shared e s;
       let sm = decremented sm;
       s \<leftarrow> lock_release (alive_count_lock e) (set_shared e sm s);
       leave_children t es (if alive_count sm = 0
         then upd_thread t (\<lambda>th. th\<lparr>child_relations := remove1 e (child_relations th)\<rparr>) s else s)
     }
   }"

text \<open>The last part of \<^verbatim>\<open>process_exit\<close>.\<close>

definition exit_pagedir :: "nat \<Rightarrow> proc \<Rightarrow> proc option" where
  "exit_pagedir t s = do {
     th \<leftarrow> threads s t;
     let pd = pagedir th;
     if pd \<noteq> 0 then do {
       let s = upd_thread t (\<lambda>th. th\<lparr>pagedir := 0\<rparr>) s;
       s \<leftarrow> pagedir_activate 0 s;
       pagedir_destroy pd s
     } else Some s
   }"

definition process_exit :: "proc \<Rightarrow> (bool \<times> proc) option" where
  "process_exit s = do {
     t \<leftarrow> thread_current s;
     th \<leftarrow> threads s t;
     let p = parent_relation th;
     sm \<leftarrow> get_shared p s;
     let s = s\<lparr>exit_msgs := exit_msgs s @ [(name th, exit_status sm)]\<rparr>;
     (acquired, s) \<leftarrow> lock_acquire (alive_count_lock p) s;
     if \<not> acquired then Some (False, s)
     else do {
       sm \<leftarrow> get_shared p s;
       let sm = decremented sm;
       let s = set_shared p sm s;
       s \<leftarrow> (if alive_count sm = 0 then lock_release (alive_count_lock p) s
            else do {
              s \<leftarrow> lock_release (alive_count_lock p) s;
              sema_up (sema_wait p) s
            });
       th \<leftarrow> threads s t;
       f \<leftarrow> for_each (file_descriptors th) (\<lambda>(fd, file). file_close file) (fsys s);
       let s = s\<lparr>fsys := f\<rparr>;
       (left, s) \<leftarrow> leave_children t (child_relations th) s;
       if \<not> left then Some (False, s)
       else do { s \<leftarrow> exit_pagedir t s; Some (True, s) }
     }
   }"

section \<open>Waiting for a child\<close>

text \<open>The result is the return value, or \<open>None\<close> when the caller is blocked.\<close>

definition process_wait :: "int \<Rightarrow> proc \<Rightarrow> (int option \<times> proc) option" where
  "process_wait ctid s =
     (if ctid = TID_ERROR then Some (Some (- 1), s)
      else do {
        t \<leftarrow> thread_current s;
        th \<leftarrow> threads s t;
        if waiting th then Some (Some (- 1), s)
        else case find (\<lambda>e. map_option child_tid (shared s e) = Some ctid) (child_relations th) of
          None \<Rightarrow> Some (Some (- 1), s)
        | Some e \<Rightarrow> do {
            sm \<leftarrow> get_shared e s;
            if waited sm then Some (Some (- 1), s)
            else do {
              (acquired, s) \<leftarrow> lock_acquire (alive_count_lock e) s;
              if \<not> acquired then Some (None, s)
              else do {
                sm \<leftarrow> get_shared e s;
                s \<leftarrow> lock_release (alive_count_lock e) s;
                if alive_count sm = 1 then do { sm \<leftarrow> get_shared e s; Some (Some (exit_status sm), s) }
                else do {
                  sm \<leftarrow> get_shared e s;
                  let s = upd_thread t (\<lambda>th. th\<lparr>waiting := True\<rparr>) s;
                  let s = set_shared e (sm\<lparr>waited := True\<rparr>) s;
                  (old, dn, s) \<leftarrow> sema_down (sema_wait e) s;
                  if \<not> dn then Some (None, s)
                  else do {
                    let s = upd_thread t (\<lambda>th. th\<lparr>waiting := False\<rparr>) s;
                    sm \<leftarrow> get_shared e s;
                    Some (Some (exit_status sm), s)
                  }
                }
              }
            }
          }
      })"

section \<open>A section of a lock that nobody holds\<close>

definition free_lock :: "nat \<Rightarrow> 'a sync_scheme \<Rightarrow> bool" where
  "free_lock l s \<longleftrightarrow> l \<noteq> 0 \<and> holder s l = 0 \<and> semas s (lock_sema l) = \<lparr>value = 1, waiters = []\<rparr>"

definition locked :: "nat \<Rightarrow> 'a sync_scheme \<Rightarrow> 'a sync_scheme" where
  "locked l s = s\<lparr>semas := (semas s)(lock_sema l := \<lparr>value = 0, waiters = []\<rparr>), holder := (holder s)(l := cur s)\<rparr>"

lemma cur_nonzero: "sched_inv s \<Longrightarrow> cur s \<noteq> 0"
  using sched_inv_cur [of s] sched_thread [of s "cur s" THREAD_RUNNING] by (auto simp: thread_ok_def)

lemma acquire_free:
  assumes "sched_inv s" "\<not> in_external_intr s" "free_lock l s"
  shows "lock_acquire l s = Some (True, locked l s)"
proof -
  have "lock_acquire_check l s = Some ()"
    using assms cur_nonzero [OF assms(1)]
    by (simp add: lock_acquire_check_def lock_held_by_current_thread_def free_lock_def intr_context_def)
  moreover have "sema_down (lock_sema l) s = Some (level s, True, set_sema (lock_sema l) \<lparr>value = 0, waiters = []\<rparr> s)"
    using assms by (simp add: sema_down_def sema_down_iter_def free_lock_def intr_context_def Let_def set_sema_def lock_sema_def)
  ultimately show ?thesis
    using assms(1) by (simp add: lock_acquire_def lock_set_holder_def) (simp add: locked_def set_sema_def)
qed

lemma release_locked:
  assumes "sched_inv s" "\<not> in_external_intr s" "l \<noteq> 0" "holder s l = cur s" "semas s (lock_sema l) = \<lparr>value = 0, waiters = []\<rparr>"
  shows "lock_release l s = Some (s\<lparr>semas := (semas s)(lock_sema l := \<lparr>value = 1, waiters = []\<rparr>), holder := (holder s)(l := 0)\<rparr>)"
proof -
  have "lock_release_clear l s = Some (s\<lparr>holder := (holder s)(l := 0)\<rparr>)"
    using assms by (simp add: lock_release_clear_def lock_held_by_current_thread_def)
  then show ?thesis
    using assms by (simp add: lock_release_def sema_up_def Let_def lock_sema_def) (simp add: set_sema_def)
qed

lemma sched_inv_proc [simp]:
  "sched_inv (s\<lparr>shared := a\<rparr>) = sched_inv s" "sched_inv (s\<lparr>fsys := f\<rparr>) = sched_inv s" "sched_inv (s\<lparr>exit_msgs := m\<rparr>) = sched_inv s"
  "sched_inv (locked l s) = sched_inv s"
  by (rule sched_inv_cong; simp add: locked_def)+

text \<open>The member that a lock protects is changed; nothing else is.\<close>

lemma shared_section:
  assumes "sched_inv s" "\<not> in_external_intr s" "free_lock l s"
  shows "lock_acquire l s = Some (True, locked l s)" "lock_release l (set_shared p sm (locked l s)) = Some (set_shared p sm s)"
    "get_shared p (locked l s) = get_shared p s"
proof -
  show "lock_acquire l s = Some (True, locked l s)" by (rule acquire_free [OF assms])
  show "get_shared p (locked l s) = get_shared p s" by (simp add: get_shared_def locked_def)
  have "(semas s)(lock_sema l := \<lparr>value = 1, waiters = []\<rparr>) = semas s" "(holder s)(l := 0) = holder s"
    using assms(3) by (auto simp: free_lock_def)
  moreover have "lock_release l (set_shared p sm (locked l s)) = Some ((set_shared p sm (locked l s))\<lparr>
      semas := (semas (set_shared p sm (locked l s)))(lock_sema l := \<lparr>value = 1, waiters = []\<rparr>),
      holder := (holder (set_shared p sm (locked l s)))(l := 0)\<rparr>)"
    by (rule release_locked) (use assms in \<open>simp_all add: set_shared_def\<close>, simp_all add: locked_def free_lock_def)
  ultimately show "lock_release l (set_shared p sm (locked l s)) = Some (set_shared p sm s)"
    by (simp add: set_shared_def locked_def)
qed

section \<open>Leaving the children\<close>

text \<open>What one round of the loop does when the lock of the child is free.\<close>

definition leave_child :: "nat \<Rightarrow> nat \<Rightarrow> proc \<Rightarrow> proc" where
  "leave_child t e s =
     (case shared s e of None \<Rightarrow> s
      | Some sm \<Rightarrow> if alive_count (decremented sm) = 0
          then upd_thread t (\<lambda>th. th\<lparr>child_relations := remove1 e (child_relations th)\<rparr>) (set_shared e (decremented sm) s)
          else set_shared e (decremented sm) s)"

lemma leave_child_frame [simp]:
  "cur (leave_child t e s) = cur s" "level (leave_child t e s) = level s" "in_external_intr (leave_child t e s) = in_external_intr s"
  "semas (leave_child t e s) = semas s" "holder (leave_child t e s) = holder s" "ready_list (leave_child t e s) = ready_list s"
  "all_list (leave_child t e s) = all_list s" "idle_thread (leave_child t e s) = idle_thread s" "fsys (leave_child t e s) = fsys s"
  "exit_msgs (leave_child t e s) = exit_msgs s" "ram (leave_child t e s) = ram s" "kernel_pool (leave_child t e s) = kernel_pool s"
  "user_pool (leave_child t e s) = user_pool s" "init_page_dir (leave_child t e s) = init_page_dir s" "tss (leave_child t e s) = tss s"
  "initial_thread (leave_child t e s) = initial_thread s" "next_tid (leave_child t e s) = next_tid s"
  "dom (shared (leave_child t e s)) = dom (shared s)" "dom (threads (leave_child t e s)) = dom (threads s)"
  by (auto simp: leave_child_def set_shared_def upd_thread_def split: option.split)

lemma leave_child_inv:
  assumes "sched_inv s"
  shows "sched_inv (leave_child (cur s) e s) \<and> st (leave_child (cur s) e s) = st s"
proof -
  define f where "f = (\<lambda>th :: thread. th\<lparr>child_relations := remove1 e (child_relations th)\<rparr>)"
  have wf: "mmu_wf s" using sched_wfD(1) [OF sched_inv_cur(4) [OF assms]] .
  have u: "sched_inv (upd_thread (cur s) f s')" "st (upd_thread (cur s) f s') = st s'"
    if "sched_inv s'" "cur s' = cur s" for s' :: proc
    using that sched_inv_memory [OF that(1), where f = f and K = "upd_thread (cur s) f s'"]
      sched_wfD(1) [OF sched_inv_cur(4) [OF that(1)]] used_pages_cong [of "upd_thread (cur s) f s'" s']
    by (simp_all add: f_def)
  have v: "st (set_shared e sm s) = st s" "sched_inv (set_shared e sm s)" "cur (set_shared e sm s) = cur s" for sm
    using assms by (simp_all add: set_shared_def st_def fun_eq_iff)
  show ?thesis using assms v u [OF v(2,3)] by (simp add: leave_child_def f_def [symmetric] split: option.split)
qed

lemma leave_children_eq:
  assumes "sched_inv s" "\<not> in_external_intr s" "\<And>e. e \<in> set es \<Longrightarrow> e \<noteq> 0 \<and> free_lock (alive_count_lock e) s \<and> shared s e \<noteq> None"
  shows "leave_children (cur s) es s = Some (True, fold (leave_child (cur s)) es s)"
  using assms
proof (induction es arbitrary: s)
  case (Cons e es)
  obtain sm where sm: "shared s e = Some sm" "e \<noteq> 0" "free_lock (alive_count_lock e) s" using Cons.prems(3) [of e] by auto
  note sec = shared_section [OF Cons.prems(1,2) sm(3)]
  define s1 where "s1 = leave_child (cur s) e s"
  have "get_shared e s = Some sm" using sm by (simp add: get_shared_def)
  then have "leave_children (cur s) (e # es) s = leave_children (cur s) es s1"
    using sec sm by (simp add: s1_def leave_child_def Let_def)
  moreover have c: "cur s1 = cur s" by (simp add: s1_def)
  moreover have "leave_children (cur s1) es s1 = Some (True, fold (leave_child (cur s1)) es s1)"
  proof (rule Cons.IH)
    show "sched_inv s1" using leave_child_inv [OF Cons.prems(1)] by (simp add: s1_def)
    show "\<not> in_external_intr s1" using Cons.prems(2) by (simp add: s1_def)
    show "e' \<noteq> 0 \<and> free_lock (alive_count_lock e') s1 \<and> shared s1 e' \<noteq> None" if "e' \<in> set es" for e'
    proof -
      have "dom (shared s1) = dom (shared s)" by (simp add: s1_def)
      then have "shared s1 e' \<noteq> None" using Cons.prems(3) [of e'] that by (auto simp: dom_def set_eq_iff)
      then show ?thesis using Cons.prems(3) [of e'] that by (simp add: s1_def free_lock_def)
    qed
  qed
  ultimately show ?case by (simp add: s1_def)
qed simp

text \<open>What the whole loop does.\<close>

lemma leave_children_frame:
  fixes es :: "nat list"
  assumes "sched_inv s"
  defines "s' \<equiv> fold (leave_child (cur s)) es s"
  shows "sched_inv s'" "st s' = st s" "cur s' = cur s" "level s' = level s" "in_external_intr s' = in_external_intr s"
    "semas s' = semas s" "holder s' = holder s" "ready_list s' = ready_list s" "all_list s' = all_list s"
    "idle_thread s' = idle_thread s" "fsys s' = fsys s" "exit_msgs s' = exit_msgs s" "ram s' = ram s"
    "kernel_pool s' = kernel_pool s" "user_pool s' = user_pool s" "init_page_dir s' = init_page_dir s"
    "initial_thread s' = initial_thread s" "dom (threads s') = dom (threads s)"
proof -
  have "sched_inv s' \<and> st s' = st s \<and> cur s' = cur s \<and> level s' = level s \<and> in_external_intr s' = in_external_intr s \<and>
    semas s' = semas s \<and> holder s' = holder s \<and> ready_list s' = ready_list s \<and> all_list s' = all_list s \<and>
    idle_thread s' = idle_thread s \<and> fsys s' = fsys s \<and> exit_msgs s' = exit_msgs s \<and> ram s' = ram s \<and>
    kernel_pool s' = kernel_pool s \<and> user_pool s' = user_pool s \<and> init_page_dir s' = init_page_dir s \<and>
    initial_thread s' = initial_thread s \<and> dom (threads s') = dom (threads s)"
    using assms(1) unfolding s'_def
  proof (induction es arbitrary: s)
    case (Cons e es)
    have "sched_inv (leave_child (cur s) e s)" "st (leave_child (cur s) e s) = st s" using leave_child_inv [OF Cons.prems] by simp_all
    then show ?case using Cons.IH [of "leave_child (cur s) e s"] by simp
  qed simp
  then show "sched_inv s'" "st s' = st s" "cur s' = cur s" "level s' = level s" "in_external_intr s' = in_external_intr s"
    "semas s' = semas s" "holder s' = holder s" "ready_list s' = ready_list s" "all_list s' = all_list s"
    "idle_thread s' = idle_thread s" "fsys s' = fsys s" "exit_msgs s' = exit_msgs s" "ram s' = ram s"
    "kernel_pool s' = kernel_pool s" "user_pool s' = user_pool s" "init_page_dir s' = init_page_dir s"
    "initial_thread s' = initial_thread s" "dom (threads s') = dom (threads s)"
    by blast+
qed

definition last_user :: "shared_mem option \<Rightarrow> bool" where
  "last_user sm \<longleftrightarrow> map_option (\<lambda>sm. alive_count (decremented sm)) sm = Some 0"

lemma leave_children_shared:
  "distinct es \<Longrightarrow> shared (fold (leave_child t) es s) =
      (\<lambda>e. if e \<in> set es then map_option decremented (shared s e) else shared s e)
    \<and> threads (fold (leave_child t) es s) = (threads s)(t := map_option (\<lambda>th. th\<lparr>child_relations :=
      fold (\<lambda>e cs. if last_user (shared s e) then remove1 e cs else cs) es (child_relations th)\<rparr>) (threads s t))"
proof (induction es arbitrary: s)
  case Nil
  show ?case by (cases "threads s t") (auto simp: fun_eq_iff)
next
  case (Cons e es)
  define s1 where "s1 = leave_child t e s"
  have d: "e \<notin> set es" "distinct es" using Cons.prems by simp_all
  have sh: "shared s1 = (\<lambda>x. if x = e then map_option decremented (shared s e) else shared s x)"
    by (auto simp: s1_def leave_child_def set_shared_def upd_thread_def split: option.split)
  have th: "threads s1 = (threads s)(t := map_option (\<lambda>th. th\<lparr>child_relations :=
      (if last_user (shared s e) then remove1 e (child_relations th) else child_relations th)\<rparr>) (threads s t))"
    by (cases "threads s t") (auto simp: s1_def leave_child_def set_shared_def upd_thread_def last_user_def split: option.split)
  have "fold (\<lambda>e cs. if last_user (shared s1 e) then remove1 e cs else cs) es cs =
    fold (\<lambda>e cs. if last_user (shared s e) then remove1 e cs else cs) es cs" for cs
    by (rule fold_cong) (use d sh in auto)
  then have "threads (fold (leave_child t) (e # es) s) = (threads s)(t := map_option (\<lambda>th. th\<lparr>child_relations :=
      fold (\<lambda>e cs. if last_user (shared s e) then remove1 e cs else cs) (e # es) (child_relations th)\<rparr>) (threads s t))"
    using Cons.IH [OF d(2), of s1] th unfolding fold_simps s1_def [symmetric] by (auto simp: option.map_comp comp_def fun_eq_iff)
  moreover have "shared (fold (leave_child t) (e # es) s) =
      (\<lambda>x. if x \<in> set (e # es) then map_option decremented (shared s x) else shared s x)"
    using Cons.IH [OF d(2), of s1] d(1) unfolding fold_simps s1_def [symmetric] sh by (auto simp: fun_eq_iff)
  ultimately show ?case by blast
qed

lemma fold_remove1:
  "distinct cs \<Longrightarrow> fold (\<lambda>e cs. if P e then remove1 e cs else cs) es cs = filter (\<lambda>e. e \<in> set es \<longrightarrow> \<not> P e) cs"
proof (induction es arbitrary: cs)
  case (Cons e es)
  have "filter (\<lambda>e'. e' \<in> set es \<longrightarrow> \<not> P e') (if P e then remove1 e cs else cs) =
      filter (\<lambda>e'. e' \<in> set (e # es) \<longrightarrow> \<not> P e') cs"
    using Cons.prems by (auto simp: distinct_remove1_removeAll removeAll_filter_not_eq intro!: filter_cong)
  then show ?case using Cons.IH [of "if P e then remove1 e cs else cs"] Cons.prems by simp
qed simp

section \<open>Waking the parent and destroying the address space\<close>

text \<open>The state after \<^verbatim>\<open>sema_up\<close>.\<close>

definition raised :: "nat \<Rightarrow> 'a sync_scheme \<Rightarrow> 'a sync_scheme" where
  "raised a s = (let v = semas s a; s' = set_sema a \<lparr>value = (value v + 1) mod 2 ^ 32, waiters = tl (waiters v)\<rparr> s
     in case waiters v of [] \<Rightarrow> s'
        | t # ts \<Rightarrow> (upd_thread t (\<lambda>th. th\<lparr>status := THREAD_READY\<rparr>) s')\<lparr>ready_list := ready_list s @ [t]\<rparr>)"

lemma sema_up_raised:
  assumes inv: "sched_inv s" and a: "a \<noteq> 0" "\<not> in_external_intr s"
    and w: "\<And>t. t \<in> set (waiters (semas s a)) \<Longrightarrow> st s t = Some THREAD_BLOCKED \<and> t \<noteq> idle_thread s"
  shows "sema_up a s = Some (raised a s)" "sched_inv (raised a s)" "threads (raised a s) (cur s) = threads s (cur s)"
proof -
  obtain s' where s': "sema_up a s = Some s'" "sched_inv s'"
    by (rule sema_up_eq [OF inv a(1)]) (use a w in auto)
  have "sema_up a s = Some (raised a s)"
  proof (cases "waiters (semas s a)")
    case Nil
    have "(semas s a)\<lparr>value := n\<rparr> = \<lparr>value = n, waiters = []\<rparr>" for n using Nil by (cases "semas s a") simp
    note e = this
    show ?thesis using a Nil by (simp add: sema_up_def raised_def Let_def) (simp add: set_sema_def e)
  next
    case (Cons t ts)
    define s1 where "s1 = (set_sema a ((semas s a)\<lparr>waiters := ts\<rparr>) s)\<lparr>level := INTR_OFF\<rparr>"
    have p: "sched_inv s1" "st s1 t = Some THREAD_BLOCKED" "t \<noteq> idle_thread s1" "\<not> in_external_intr s1 \<or> level s1 = INTR_OFF"
      using inv w Cons by (simp_all add: s1_def)
    obtain s2 where s2: "thread_unblock t s1 = Some s2"
        "s2 = (upd_thread t (\<lambda>th. th\<lparr>status := THREAD_READY\<rparr>) s1)\<lparr>ready_list := ready_list s1 @ [t]\<rparr>"
      by (rule thread_unblock_inv [OF p])
    have s1: "set_sema a ((semas s a)\<lparr>waiters := ts\<rparr>) (s\<lparr>level := INTR_OFF\<rparr>) = s1" by (simp add: s1_def set_sema_def)
    have e: "(semas s a)\<lparr>waiters := ws, value := n\<rparr> = \<lparr>value = n, waiters = ws\<rparr>" for ws n by (cases "semas s a") simp
    show ?thesis
      using a Cons s2(1) by (simp add: sema_up_def s1 Let_def e raised_def s2(2))
        (simp add: s1_def set_sema_def upd_thread_def e)
  qed
  then show "sema_up a s = Some (raised a s)" "sched_inv (raised a s)" using s' by simp_all
  have "st s (cur s) = Some THREAD_RUNNING" using sched_inv_cur(1) [OF inv] .
  then have "cur s \<notin> set (waiters (semas s a))" using w by force
  then show "threads (raised a s) (cur s) = threads s (cur s)"
    by (auto simp: raised_def Let_def set_sema_def upd_thread_def split: list.split)
qed

lemma raised_frame [simp]:
  "cur (raised a s) = cur s" "level (raised a s) = level s" "in_external_intr (raised a s) = in_external_intr s"
  "holder (raised a s) = holder s" "all_list (raised a s) = all_list s" "idle_thread (raised a s) = idle_thread s"
  "initial_thread (raised a s) = initial_thread s" "ram (raised a s) = ram s" "kernel_pool (raised a s) = kernel_pool s"
  "user_pool (raised a s) = user_pool s" "init_page_dir (raised a s) = init_page_dir s" "sync.more (raised a s) = sync.more s"
  "dom (threads (raised a s)) = dom (threads s)" "ready_list (raised a s) = ready_list s @ take 1 (waiters (semas s a))"
  "semas (raised a s) = (semas s)(a := \<lparr>value = (value (semas s a) + 1) mod 2 ^ 32, waiters = tl (waiters (semas s a))\<rparr>)"
  by (auto simp: raised_def Let_def set_sema_def upd_thread_def split: list.split)

text \<open>The pages of an address space that can be destroyed: each is an allocated page of its own and
  holds no thread.\<close>

definition space_ok :: "nat \<Rightarrow> 'a kernel_scheme \<Rightarrow> bool" where
  "space_ok pd k \<longleftrightarrow> pd \<noteq> init_page_dir k \<and> distinct (dir_pages (ram k) pd) \<and>
     (\<forall>p \<in> set (dir_pages (ram k) pd). live_region k (p, 1) \<and> threads k p = None)"

lemma exit_pagedir_ok:
  assumes inv: "sched_inv s" and th: "threads s (cur s) = Some th" and sp: "pagedir th = 0 \<or> space_ok (pagedir th) s"
  obtains s' where "exit_pagedir (cur s) s = Some s'" "sched_inv s'" "threads s' = (threads s)(cur s \<mapsto> th\<lparr>pagedir := 0\<rparr>)"
    "used_pages s' = used_pages s - (if pagedir th = 0 then {} else set (dir_pages (ram s) (pagedir th)))"
    "cur s' = cur s" "level s' = level s" "in_external_intr s' = in_external_intr s" "ready_list s' = ready_list s"
    "all_list s' = all_list s" "idle_thread s' = idle_thread s" "initial_thread s' = initial_thread s"
    "kernel.more s' = kernel.more s"
proof (cases "pagedir th = 0")
  case True
  have "th\<lparr>pagedir := 0\<rparr> = th" using True by (cases th) simp
  then show thesis using inv th True by (intro that [of s]) (auto simp: exit_pagedir_def)
next
  case False
  define pd where "pd = pagedir th"
  define F where "F = set (dir_pages (ram s) pd)"
  define s1 where "s1 = upd_thread (cur s) (\<lambda>th. th\<lparr>pagedir := 0\<rparr>) s"
  have wf: "mmu_wf s" "is_kernel_vaddr (init_page_dir s)" using sched_wfD(1,2) [OF sched_inv_cur(4) [OF inv]] by simp_all
  note m = used_pages_cong [of s1 s]
  have inv1: "sched_inv s1" unfolding s1_def
    by (rule sched_inv_memory [OF inv, where f = "\<lambda>th. th\<lparr>pagedir := 0\<rparr>"]) (use wf m in \<open>simp_all add: s1_def\<close>)
  obtain q where act: "pagedir_activate 0 s1 = Some (s1\<lparr>cr3 := q, tlb_flushes := tlb_flushes s1 + 1\<rparr>)"
    using wf(2) by (simp add: pagedir_activate_def vtop_def s1_def)
  define s2 where "s2 = s1\<lparr>cr3 := q, tlb_flushes := tlb_flushes s1 + 1\<rparr>"
  have inv2: "sched_inv s2" using inv1 by (subst sched_inv_cong [of _ s1]) (simp_all add: s2_def)
  have f2: "ram s2 = ram s" "init_page_dir s2 = init_page_dir s" "dom (threads s2) = dom (threads s)"
      "threads s2 = (threads s)(cur s \<mapsto> th\<lparr>pagedir := 0\<rparr>)"
    using th by (auto simp: s2_def s1_def)
  have m2: "used_pages s2 = used_pages s" "geometry s2 = geometry s" "mmu_wf s2 = mmu_wf s" "live_region s2 = live_region s"
    using used_pages_cong [of s2 s] by (simp_all add: s2_def s1_def)
  have sp': "pd \<noteq> init_page_dir s2" "distinct (dir_pages (ram s2) pd)" "F \<inter> dom (threads s2) = {}"
      "\<And>p. p \<in> set (dir_pages (ram s2) pd) \<Longrightarrow> live_region s2 (p, 1)"
    using sp False th unfolding f2 m2 by (auto simp: space_ok_def pd_def F_def)
  have "pmem_wf s2" using m2 wf by (simp add: mmu_wf_def)
  then obtain s3 where s3: "pagedir_destroy pd s2 = Some s3" "freed s2 (set (dir_pages (ram s2) pd)) s3"
    using pagedir_destroy_frees [of s2 pd] sp' by blast
  then obtain kp up mm where e: "s3 = s2\<lparr>kernel_pool := kp, user_pool := up, ram := mm\<rparr>" "pmem_wf s3"
      "geometry s3 = geometry s2" "used_pages s3 = used_pages s2 - F"
    by (auto simp: freed_def F_def f2)
  have inv3: "sched_inv s3" using sched_inv_pools [OF inv2 e(1-3), of F] e(4) sp'(3) by simp
  have "exit_pagedir (cur s) s = Some s3"
    using th False act [folded s2_def] s3(1) by (simp add: exit_pagedir_def Let_def s1_def [symmetric] pd_def)
  then show thesis
    by (rule that) (use inv3 f2 m2 e False in \<open>simp_all add: F_def pd_def\<close>, simp_all add: s2_def s1_def)
qed

section \<open>Correctness of exit\<close>

text \<open>A state in which \<^verbatim>\<open>process_exit\<close> runs through: the running thread has a parent relation, the locks of
  that relation and of the relations to its children are free, the structures do not overlap,
  threads that wait for this one are blocked, its files can be closed, which gives \<open>f\<close>, and its address space, if
  any, is well formed.\<close>

definition exit_ready :: "proc \<Rightarrow> thread \<Rightarrow> shared_mem \<Rightarrow> fs \<Rightarrow> bool" where
  "exit_ready s th sm f \<longleftrightarrow> (let p = parent_relation th in
     p \<noteq> 0 \<and> shared s p = Some sm \<and> free_lock (alive_count_lock p) s \<and>
     distinct (child_relations th) \<and>
     (\<forall>e \<in> set (child_relations th). e \<noteq> 0 \<and> shared s e \<noteq> None \<and> free_lock (alive_count_lock e) s \<and> (e + 92 \<le> p \<or> p + 92 \<le> e)) \<and>
     (\<forall>t \<in> set (waiters (semas s (sema_wait p))). st s t = Some THREAD_BLOCKED \<and> t \<noteq> idle_thread s) \<and>
     for_each (file_descriptors th) (\<lambda>(fd, file). file_close file) (fsys s) = Some f \<and>
     (pagedir th = 0 \<or> space_ok (pagedir th) s))"

lemma process_exit_null:
  assumes "threads s (cur s) = Some th" "parent_relation th = 0"
  shows "process_exit s = None"
proof (cases "thread_current s")
  case (Some t)
  then have "t = cur s" by (auto simp: thread_current_def running_thread_def panic_simps Let_def Option.bind_eq_Some_conv)
  then show ?thesis using assms Some by (simp add: process_exit_def get_shared_def)
qed (simp add: process_exit_def)

text \<open>The state before the files are closed.\<close>

definition told_parent :: "nat \<Rightarrow> string \<Rightarrow> shared_mem \<Rightarrow> proc \<Rightarrow> proc" where
  "told_parent p nm sm s =
     (let s = set_shared p (decremented sm) (s\<lparr>exit_msgs := exit_msgs s @ [(nm, exit_status sm)]\<rparr>)
      in if alive_count (decremented sm) = 0 then s else raised (sema_wait p) s)"

lemma more_proc:
  assumes "sync.more s' = sync.more s"
  shows "shared s' = shared s" "fsys s' = fsys s" "exit_msgs s' = exit_msgs s"
  using assms by (cases s; cases s'; simp)+

lemma told_parent_frame:
  "cur (told_parent p nm sm s) = cur s" "level (told_parent p nm sm s) = level s" "in_external_intr (told_parent p nm sm s) = in_external_intr s"
  "holder (told_parent p nm sm s) = holder s" "all_list (told_parent p nm sm s) = all_list s" "idle_thread (told_parent p nm sm s) = idle_thread s"
  "initial_thread (told_parent p nm sm s) = initial_thread s" "ram (told_parent p nm sm s) = ram s" "kernel_pool (told_parent p nm sm s) = kernel_pool s"
  "user_pool (told_parent p nm sm s) = user_pool s" "init_page_dir (told_parent p nm sm s) = init_page_dir s"
  "dom (threads (told_parent p nm sm s)) = dom (threads s)" "fsys (told_parent p nm sm s) = fsys s"
  "shared (told_parent p nm sm s) = (shared s)(p \<mapsto> decremented sm)"
  "exit_msgs (told_parent p nm sm s) = exit_msgs s @ [(nm, exit_status sm)]"
  "ready_list (told_parent p nm sm s) = ready_list s @
     (if alive_count (decremented sm) = 0 then [] else take 1 (waiters (semas s (sema_wait p))))"
  "semas (told_parent p nm sm s) = (if alive_count (decremented sm) = 0 then semas s else (semas s)(sema_wait p :=
     \<lparr>value = (value (semas s (sema_wait p)) + 1) mod 2 ^ 32, waiters = tl (waiters (semas s (sema_wait p)))\<rparr>))"
  using more_proc [OF raised_frame(12), of "sema_wait p" "set_shared p (decremented sm) (s\<lparr>exit_msgs := exit_msgs s @ [(nm, exit_status sm)]\<rparr>)"]
  by (simp_all add: told_parent_def Let_def) (simp_all add: set_shared_def)

lemma told_parent_inv:
  assumes inv: "sched_inv s" "\<not> in_external_intr s" and th: "threads s (cur s) = Some th" and r: "exit_ready s th sm f"
  defines "s1 \<equiv> told_parent (parent_relation th) (name th) sm s"
  shows "sched_inv s1" "threads s1 (cur s) = Some th"
    "process_exit s = do {
       f \<leftarrow> for_each (file_descriptors th) (\<lambda>(fd, file). file_close file) (fsys s);
       (left, s') \<leftarrow> leave_children (cur s) (child_relations th) (s1\<lparr>fsys := f\<rparr>);
       if \<not> left then Some (False, s') else do { s' \<leftarrow> exit_pagedir (cur s) s'; Some (True, s') } }"
proof -
  define p where "p = parent_relation th"
  define s0 where "s0 = s\<lparr>exit_msgs := exit_msgs s @ [(name th, exit_status sm)]\<rparr>"
  define s2 where "s2 = set_shared p (decremented sm) s0"
  have r': "p \<noteq> 0" "shared s p = Some sm" "free_lock (alive_count_lock p) s"
      "\<And>t. t \<in> set (waiters (semas s (sema_wait p))) \<Longrightarrow> st s t = Some THREAD_BLOCKED \<and> t \<noteq> idle_thread s"
    using r by (simp_all add: exit_ready_def Let_def p_def)
  have inv0: "sched_inv s0" "\<not> in_external_intr s0" "free_lock (alive_count_lock p) s0"
    using inv r'(3) by (simp_all add: s0_def free_lock_def)
  have s2: "sched_inv s2" "\<not> in_external_intr s2" "semas s2 = semas s" "st s2 = st s" "idle_thread s2 = idle_thread s"
      "cur s2 = cur s" "threads s2 = threads s"
    using inv0 inv by (simp_all add: s2_def set_shared_def s0_def st_def fun_eq_iff)
  have s1: "s1 = (if alive_count (decremented sm) = 0 then s2 else raised (sema_wait p) s2)"
    by (simp add: s1_def told_parent_def s2_def s0_def p_def Let_def)
  have a: "sema_wait p \<noteq> 0" by (simp add: sema_wait_def)
  have w: "st s2 t = Some THREAD_BLOCKED \<and> t \<noteq> idle_thread s2" if "t \<in> set (waiters (semas s2 (sema_wait p)))" for t
    using r'(4) that s2 by simp
  note up = sema_up_raised [OF s2(1) a s2(2) w]
  show "sched_inv s1" "threads s1 (cur s) = Some th" using s2 up th by (simp_all add: s1)
  note sec = shared_section [OF inv0]
  have g: "get_shared p s = Some sm" "get_shared p s0 = Some sm" using r' by (simp_all add: get_shared_def s0_def)
  have fs: "fsys s1 = fsys s" "threads s1 (cur s) = Some th"
    using \<open>threads s1 (cur s) = Some th\<close> by (simp_all add: s1_def told_parent_frame)
  show "process_exit s = do {
       f \<leftarrow> for_each (file_descriptors th) (\<lambda>(fd, file). file_close file) (fsys s);
       (left, s') \<leftarrow> leave_children (cur s) (child_relations th) (s1\<lparr>fsys := f\<rparr>);
       if \<not> left then Some (False, s') else do { s' \<leftarrow> exit_pagedir (cur s) s'; Some (True, s') } }"
    using inv(1) th g sec(1) sec(3) [of p] sec(2) [of p "decremented sm", folded s2_def] up(1) fs
    by (cases "alive_count (decremented sm) = 0")
      (simp_all add: process_exit_def Let_def p_def [symmetric] s0_def [symmetric] s1)
qed

text \<open>C40: The end of a process. In a thread without a parent relation \<^verbatim>\<open>thread_exit\<close> follows a null pointer;
  the initial thread is one, and every thread that \<^verbatim>\<open>thread_create\<close> has made until \<^verbatim>\<open>start_process\<close>
  gives it a relation. In a process whose relations are in order \<^verbatim>\<open>thread_exit\<close> closes every file,
  lowers the counts of its own relation and of the relation to each child, keeps exactly the children
  that are still in use, raises the semaphore the parent waits on unless the count has reached zero,
  gives back every page of the address space, and the thread is gone.\<close>

theorem thread_exit_correct:
  assumes inv: "sched_inv s" "\<not> in_external_intr s" "idle_thread s \<noteq> 0" "cur s \<noteq> idle_thread s"
    and th: "threads s (cur s) = Some th"
  shows "(parent_relation th = 0 \<longrightarrow> thread_exit process_exit s = None) \<and>
    (exit_ready s th sm f \<longrightarrow> (\<exists>s1 s'. process_exit s = Some (True, s1)
      \<and> shared s1 = (\<lambda>e. if e = parent_relation th \<or> e \<in> set (child_relations th) then map_option decremented (shared s e) else shared s e)
      \<and> threads s1 (cur s) = Some (th\<lparr>pagedir := 0, child_relations := filter (\<lambda>e. \<not> last_user (shared s e)) (child_relations th)\<rparr>)
      \<and> fsys s1 = f \<and> exit_msgs s1 = exit_msgs s @ [(name th, exit_status sm)] \<and> holder s1 = holder s
      \<and> semas s1 = (if last_user (Some sm) then semas s else (semas s)(sema_wait (parent_relation th) :=
          \<lparr>value = (value (semas s (sema_wait (parent_relation th))) + 1) mod 2 ^ 32,
           waiters = tl (waiters (semas s (sema_wait (parent_relation th))))\<rparr>))
      \<and> ready_list s1 = ready_list s @ (if last_user (Some sm) then [] else take 1 (waiters (semas s (sema_wait (parent_relation th)))))
      \<and> used_pages s1 = used_pages s - (if pagedir th = 0 then {} else set (dir_pages (ram s) (pagedir th)))
      \<and> thread_exit process_exit s = Some (True, s') \<and> sched_inv s' \<and> cur s' = next_of s1
      \<and> st s' (cur s) = (if cur s = initial_thread s then Some THREAD_DYING else None)))"
proof (intro conjI impI)
  assume "parent_relation th = 0"
  then show "thread_exit process_exit s = None" using process_exit_null [OF th] by (simp add: thread_exit_def)
next
  assume r: "exit_ready s th sm f"
  define p where "p = parent_relation th"
  define cs where "cs = child_relations th"
  define s1 where "s1 = (told_parent p (name th) sm s)\<lparr>fsys := f\<rparr>"
  note t = told_parent_inv [OF inv(1,2) th r]
  have r': "shared s p = Some sm" "for_each (file_descriptors th) (\<lambda>(fd, file). file_close file) (fsys s) = Some f" "distinct cs"
      "\<And>e. e \<in> set cs \<Longrightarrow> e \<noteq> 0 \<and> shared s e \<noteq> None \<and> free_lock (alive_count_lock e) s \<and> (e + 92 \<le> p \<or> p + 92 \<le> e)"
      "pagedir th = 0 \<or> space_ok (pagedir th) s"
    using r by (simp_all add: exit_ready_def Let_def p_def cs_def)
  have inv1: "sched_inv s1" "\<not> in_external_intr s1" "cur s1 = cur s" "threads s1 (cur s) = Some th"
    using t inv(2) by (simp_all add: s1_def p_def told_parent_frame)
  have pc: "p \<notin> set cs" using r'(4) [of p] by auto
  have free: "e \<noteq> 0 \<and> free_lock (alive_count_lock e) s1 \<and> shared s1 e \<noteq> None" if "e \<in> set cs" for e
    using r'(4) [OF that] by (auto simp: s1_def told_parent_frame free_lock_def lock_sema_def alive_count_lock_def sema_wait_def)
  define s2 where "s2 = fold (leave_child (cur s)) cs s1"
  have lv: "leave_children (cur s) cs s1 = Some (True, s2)"
    using leave_children_eq [OF inv1(1,2) free] inv1(3) by (simp add: s2_def)
  note f2 = leave_children_frame [OF inv1(1), of cs, unfolded inv1(3), folded s2_def]
  have sh2: "shared s2 = (\<lambda>e. if e \<in> set cs then map_option decremented (shared s1 e) else shared s1 e)"
    and th2: "threads s2 (cur s) = Some (th\<lparr>child_relations := filter (\<lambda>e. \<not> last_user (shared s e)) cs\<rparr>)"
  proof -
    have d: "fold (\<lambda>e cs. if last_user (shared s1 e) then remove1 e cs else cs) cs cs = filter (\<lambda>e. \<not> last_user (shared s e)) cs"
      unfolding fold_remove1 [OF r'(3)] using pc by (intro filter_cong) (auto simp: s1_def told_parent_frame)
    show "shared s2 = (\<lambda>e. if e \<in> set cs then map_option decremented (shared s1 e) else shared s1 e)"
      "threads s2 (cur s) = Some (th\<lparr>child_relations := filter (\<lambda>e. \<not> last_user (shared s e)) cs\<rparr>)"
      using leave_children_shared [OF r'(3), of "cur s" s1] inv1(4) d by (simp_all add: s2_def cs_def)
  qed
  have mem: "ram s2 = ram s" "kernel_pool s2 = kernel_pool s" "user_pool s2 = user_pool s" "init_page_dir s2 = init_page_dir s"
      "dom (threads s2) = dom (threads s)"
    using f2 by (simp_all add: s1_def told_parent_frame)
  have sp: "pagedir th = 0 \<or> space_ok (pagedir th) s2"
  proof -
    have "threads s2 q = None \<longleftrightarrow> threads s q = None" for q using mem(5) by (metis domIff)
    then show ?thesis using r'(5) mem used_pages_cong(4) [of s2 s] by (simp add: space_ok_def)
  qed
  obtain s3 where s3: "exit_pagedir (cur s) s2 = Some s3" "sched_inv s3"
      "threads s3 = (threads s2)(cur s \<mapsto> th\<lparr>child_relations := filter (\<lambda>e. \<not> last_user (shared s e)) cs, pagedir := 0\<rparr>)"
      "used_pages s3 = used_pages s2 - (if pagedir th = 0 then {} else set (dir_pages (ram s2) (pagedir th)))"
      "cur s3 = cur s" "in_external_intr s3 = in_external_intr s2" "ready_list s3 = ready_list s2"
      "idle_thread s3 = idle_thread s2" "initial_thread s3 = initial_thread s2" "kernel.more s3 = kernel.more s2"
    by (rule exit_pagedir_ok [OF f2(1), unfolded f2(3) inv1(3), OF th2]) (use sp in simp_all)
  have ex: "process_exit s = Some (True, s3)"
    using t(3) r'(2) lv s3(1) by (simp add: s1_def p_def cs_def)
  have c3: "cur s3 = cur s" "idle_thread s3 = idle_thread s" "\<not> in_external_intr s3" "initial_thread s3 = initial_thread s"
    using s3 f2 inv1 by (simp_all add: s1_def told_parent_frame)
  obtain s' where s': "thread_exit_finish s3 = Some s'" "sched_inv s'" "cur s' = next_of s3"
      "\<forall>t. st s' t = (if t = next_of s3 then Some THREAD_RUNNING
         else if t = cur s3 then (if t = initial_thread s3 then Some THREAD_DYING else None) else st s3 t)"
    by (rule thread_exit_inv [OF s3(2) c3(3)]) (use c3 inv in \<open>simp_all add: can_switch_def\<close>)
  show "\<exists>s1 s'. process_exit s = Some (True, s1)
      \<and> shared s1 = (\<lambda>e. if e = parent_relation th \<or> e \<in> set (child_relations th) then map_option decremented (shared s e) else shared s e)
      \<and> threads s1 (cur s) = Some (th\<lparr>pagedir := 0, child_relations := filter (\<lambda>e. \<not> last_user (shared s e)) (child_relations th)\<rparr>)
      \<and> fsys s1 = f \<and> exit_msgs s1 = exit_msgs s @ [(name th, exit_status sm)] \<and> holder s1 = holder s
      \<and> semas s1 = (if last_user (Some sm) then semas s else (semas s)(sema_wait (parent_relation th) :=
          \<lparr>value = (value (semas s (sema_wait (parent_relation th))) + 1) mod 2 ^ 32,
           waiters = tl (waiters (semas s (sema_wait (parent_relation th))))\<rparr>))
      \<and> ready_list s1 = ready_list s @ (if last_user (Some sm) then [] else take 1 (waiters (semas s (sema_wait (parent_relation th)))))
      \<and> used_pages s1 = used_pages s - (if pagedir th = 0 then {} else set (dir_pages (ram s) (pagedir th)))
      \<and> thread_exit process_exit s = Some (True, s') \<and> sched_inv s' \<and> cur s' = next_of s1
      \<and> st s' (cur s) = (if cur s = initial_thread s then Some THREAD_DYING else None)"
  proof (intro exI conjI)
    note m = more_sync [OF s3(10)] more_proc [OF more_sync(4) [OF s3(10)]]
    have l: "last_user (Some sm) \<longleftrightarrow> alive_count (decremented sm) = 0" by (simp add: last_user_def)
    show "process_exit s = Some (True, s3)" by (rule ex)
    show "thread_exit process_exit s = Some (True, s')" using ex s'(1) inv(2) by (simp add: thread_exit_def intr_context_def)
    show "sched_inv s'" "cur s' = next_of s3" using s' by simp_all
    show "shared s3 = (\<lambda>e. if e = parent_relation th \<or> e \<in> set (child_relations th) then map_option decremented (shared s e) else shared s e)"
      using pc r'(1) by (auto simp: m sh2 s1_def told_parent_frame p_def cs_def)
    show "threads s3 (cur s) = Some (th\<lparr>pagedir := 0, child_relations := filter (\<lambda>e. \<not> last_user (shared s e)) (child_relations th)\<rparr>)"
      by (simp add: s3(3) cs_def)
    show "fsys s3 = f" "exit_msgs s3 = exit_msgs s @ [(name th, exit_status sm)]" "holder s3 = holder s"
      using f2 by (simp_all add: m s1_def told_parent_frame)
    show "semas s3 = (if last_user (Some sm) then semas s else (semas s)(sema_wait (parent_relation th) :=
          \<lparr>value = (value (semas s (sema_wait (parent_relation th))) + 1) mod 2 ^ 32,
           waiters = tl (waiters (semas s (sema_wait (parent_relation th))))\<rparr>))"
      "ready_list s3 = ready_list s @ (if last_user (Some sm) then [] else take 1 (waiters (semas s (sema_wait (parent_relation th)))))"
      using f2 s3(7) unfolding l by (simp_all add: m s1_def told_parent_frame p_def)
    show "used_pages s3 = used_pages s - (if pagedir th = 0 then {} else set (dir_pages (ram s) (pagedir th)))"
      using s3(4) mem used_pages_cong(1) [of s2 s] by simp
    obtain x where "st s3 (next_of s3) = Some x" "x = THREAD_READY \<or> next_of s3 = idle_thread s3"
      by (rule next_of_thread [OF sched_inv_cur(4) [OF s3(2)]]) (use c3 inv in \<open>simp_all add: can_switch_def\<close>)
    then have "next_of s3 \<noteq> cur s3" using sched_inv_cur(1) [OF s3(2)] c3 inv(4) by auto
    then show "st s' (cur s) = (if cur s = initial_thread s then Some THREAD_DYING else None)"
      using s'(4) [THEN spec, of "cur s"] c3 by auto
  qed
qed

section \<open>What a waiting parent sees\<close>

text \<open>The parent of a child that has ended, and has not been waited for, gets its status at once. With any
  other count, also with the count 0 that a child whose program could not be loaded leaves behind, it
  blocks until the semaphore is raised.\<close>

lemma wait_relation:
  fixes s :: proc
  assumes "sched_inv s" "\<not> in_external_intr s" "free_lock (alive_count_lock e) s" "shared s e = Some sm"
  shows "lock_release (alive_count_lock e) (locked (alive_count_lock e) s) = Some s"
proof -
  have "set_shared e sm (locked (alive_count_lock e) s) = locked (alive_count_lock e) s" "set_shared e sm s = s"
    using assms(4) by (simp_all add: set_shared_def locked_def fun_upd_idem)
  then show ?thesis using shared_section(2) [OF assms(1-3), of e sm] by simp
qed

lemma process_wait_ended:
  fixes s :: proc
  assumes "sched_inv s" "\<not> in_external_intr s" "threads s (cur s) = Some th" "\<not> waiting th" "ctid \<noteq> TID_ERROR"
    "find (\<lambda>e. map_option child_tid (shared s e) = Some ctid) (child_relations th) = Some e"
    "e \<noteq> 0" "shared s e = Some sm" "\<not> waited sm" "free_lock (alive_count_lock e) s" "alive_count sm = 1"
  shows "process_wait ctid s = Some (Some (exit_status sm), s)"
proof -
  have "get_shared e s = Some sm" using assms(7,8) by (simp add: get_shared_def)
  then show ?thesis
    using assms wait_relation [OF assms(1,2,10,8)] shared_section(1,3) [OF assms(1,2,10)] by (simp add: process_wait_def)
qed

lemma process_wait_blocks:
  fixes s :: proc
  assumes "sched_inv s" "\<not> in_external_intr s" "threads s (cur s) = Some th" "\<not> waiting th" "ctid \<noteq> TID_ERROR"
    "find (\<lambda>e. map_option child_tid (shared s e) = Some ctid) (child_relations th) = Some e"
    "e \<noteq> 0" "shared s e = Some sm" "\<not> waited sm" "free_lock (alive_count_lock e) s" "alive_count sm \<noteq> 1"
    and z: "value (semas s (sema_wait e)) = 0" and idle: "idle_thread s \<noteq> 0" "cur s \<noteq> idle_thread s"
  obtains s' where "process_wait ctid s = Some (None, s')" "sched_inv s'" "st s' (cur s) = Some THREAD_BLOCKED"
    "waiters (semas s' (sema_wait e)) = waiters (semas s (sema_wait e)) @ [cur s]"
proof -
  define f where "f = (\<lambda>th :: thread. th\<lparr>waiting := True\<rparr>)"
  define s1 where "s1 = set_shared e (sm\<lparr>waited := True\<rparr>) (upd_thread (cur s) f s)"
  define s2 where "s2 = s1\<lparr>level := INTR_OFF\<rparr>"
  have wf: "mmu_wf s" using sched_wfD(1) [OF sched_inv_cur(4) [OF assms(1)]] .
  have "sched_inv (upd_thread (cur s) f s)"
    by (rule sched_inv_memory [OF assms(1), where f = f])
      (use wf used_pages_cong [of "upd_thread (cur s) f s" s] in \<open>simp_all add: f_def\<close>)
  then have inv2: "sched_inv s2" "\<not> in_external_intr s2" "level s2 = INTR_OFF" "can_switch s2" "value (semas s2 (sema_wait e)) = 0"
    using assms(2) z idle by (simp_all add: s2_def s1_def set_shared_def can_switch_def) (simp_all add: upd_thread_def)
  have f2: "cur s2 = cur s" "idle_thread s2 = idle_thread s" "semas s2 = semas s"
    by (simp_all add: s2_def s1_def set_shared_def) (simp add: upd_thread_def)
  obtain s' where s': "sema_down_iter (sema_wait e) (level s1) s2 = Some (False, s')" "sched_inv s'"
      "semas s' = (semas s2)(sema_wait e := (semas s2 (sema_wait e))\<lparr>waiters := waiters (semas s2 (sema_wait e)) @ [cur s2]\<rparr>)"
      "\<forall>t. st s' t = (if t = next_of s2 then Some THREAD_RUNNING else if t = cur s2 then Some THREAD_BLOCKED else st s2 t)"
    by (rule sema_down_iter_zero [OF inv2(1,5,2,3,4)])
  obtain x where "st s2 (next_of s2) = Some x" "x = THREAD_READY \<or> next_of s2 = idle_thread s2"
    by (rule next_of_thread [OF sched_inv_cur(4) [OF inv2(1)] inv2(4)])
  then have ne: "next_of s2 \<noteq> cur s2" using sched_inv_cur(1) [OF inv2(1)] f2 idle by auto
  have "sema_down (sema_wait e) s1 = Some (level s1, False, s')"
    using s'(1) inv2(2) by (simp add: sema_down_def s2_def intr_context_def sema_wait_def)
  moreover have "get_shared e s = Some sm" using assms(7,8) by (simp add: get_shared_def)
  ultimately have "process_wait ctid s = Some (None, s')"
    using assms wait_relation [OF assms(1,2,10,8)] shared_section(1,3) [OF assms(1,2,10)]
    by (simp add: process_wait_def Let_def f_def [symmetric] s1_def [symmetric])
  then show thesis by (rule that) (use s' f2 ne in auto)
qed

section \<open>A process that ends\<close>

text \<open>A process whose parent has not called \<^verbatim>\<open>process_wait\<close> yet: the thread created first, running, next
  to the idle thread.\<close>

lemma demo_process:
  obtains s th sm where "sched_inv s" "\<not> in_external_intr s" "idle_thread s \<noteq> 0" "cur s \<noteq> idle_thread s"
    "threads s (cur s) = Some th" "parent_relation th = 0xc0001000" "alive_count sm = 2"
    "semas s (sema_wait 0xc0001000) = \<lparr>value = 1, waiters = []\<rparr>" "exit_ready s th sm (fsys s)"
proof (rule demo_create)
  fix t and k :: kernel
  assume c: "thread_create 1 2 ''a.out x'' PRI_DEFAULT 3 4 demo_main = Some (2, k)" "sched_reach 1 2 k" "ready_list k = [t]"
  have inv: "sched_inv k" "\<not> in_external_intr k" using sched_reach_inv [OF c(2)] by simp_all
  have ik: "idle_thread k = 0xc000e000 \<and> cur k = 0xc000e000"
  proof -
    have "sched_inv demo_main" using sched_reach_inv [OF demo_main_reach] by simp
    then show ?thesis
      by (rule thread_create_inv [of _ 3 PRI_DEFAULT 1 2 "''a.out x''" 4]) (use c(1) demo_main_fields in simp_all)
  qed
  obtain k1 :: kernel where y: "sched_inv k1" "cur k1 = (if queue_with_cur k = [] then idle_thread k else hd (queue_with_cur k))"
      "idle_thread k1 = idle_thread k" "\<not> in_external_intr k1"
    by (rule thread_yield_inv [OF inv])
  then have k1: "sched_inv k1" "cur k1 = t" "idle_thread k1 = 0xc000e000" "\<not> in_external_intr k1"
    using c(3) ik by (simp_all add: queue_with_cur_def)
  have ne: "t \<noteq> 0xc000e000" using sched_inv_cur(2) [OF inv(1)] c(3) ik by auto
  define p :: nat where "p = 0xc0001000"
  obtain th where th: "threads k1 t = Some th"
    using sched_thread [OF sched_inv_cur(4) [OF k1(1)] sched_inv_cur(1) [OF k1(1)]] k1(2) by metis
  define f where "f = (\<lambda>th :: thread. th\<lparr>pagedir := 0, next_fd := 2, file_descriptors := [], waiting := False,
    child_relations := [], parent_relation := p\<rparr>)"
  define k2 where "k2 = upd_thread (cur k1) f k1"
  have "mem_step k1 k2" unfolding k2_def f_def by (rule mem_step.process) simp
  then have k2: "sched_inv k2" "\<not> in_external_intr k2" "cur k2 = t" "idle_thread k2 = 0xc000e000"
    using mem_step_inv [of k1 k2] k1 by simp_all
  have th2: "threads k2 t = Some (f th)" using th k1(2) by (simp add: k2_def)
  define sm where "sm = \<lparr>cmd_line = 0, child_tid = 2, exit_status = 7, alive_count = 2, waited = False\<rparr>"
  define s :: proc where "s = sync.extend (kernel.extend k2 (sync.fields (\<lambda>_. \<lparr>value = 1, waiters = []\<rparr>) (\<lambda>_. 0) (\<lambda>_. [])))
    (proc.fields [p \<mapsto> sm] demo_fs [])"
  have s: "sched_inv s" using k2(1) by (subst sched_inv_cong [of _ k2]) (simp_all add: s_def kernel.defs sync.defs proc.defs)
  have fl: "cur s = t" "idle_thread s = 0xc000e000" "\<not> in_external_intr s" "threads s t = Some (f th)" "shared s = [p \<mapsto> sm]"
      "semas s = (\<lambda>_. \<lparr>value = 1, waiters = []\<rparr>)" "holder s = (\<lambda>_. 0)"
    using k2 th2 by (simp_all add: s_def kernel.defs sync.defs proc.defs)
  have "exit_ready s (f th) sm (fsys s)"
    by (simp add: exit_ready_def f_def fl free_lock_def) (simp add: p_def alive_count_lock_def)
  then show thesis
    using s fl ne by (intro that [of s "f th" sm]) (simp_all add: f_def p_def sm_def)
qed

theorem thread_exit_correct_witness:
  "\<exists>(s :: proc) s1 s'. process_exit s = Some (True, s1) \<and> thread_exit process_exit s = Some (True, s') \<and> sched_inv s'
     \<and> value (semas s1 (sema_wait 0xc0001000)) = 2 \<and> map_option alive_count (shared s1 0xc0001000) = Some 1"
proof (rule demo_process)
  fix s th sm
  assume p: "sched_inv s" "\<not> in_external_intr s" "idle_thread s \<noteq> 0" "cur s \<noteq> idle_thread s" "threads s (cur s) = Some th"
    "parent_relation th = 0xc0001000" "alive_count sm = 2" "semas s (sema_wait 0xc0001000) = \<lparr>value = 1, waiters = []\<rparr>"
    "exit_ready s th sm (fsys s)"
  have sm: "shared s 0xc0001000 = Some sm" "\<not> last_user (Some sm)" "alive_count (decremented sm) = 1"
    using p(6,7,9) by (simp_all add: exit_ready_def Let_def last_user_def decremented_def int_wrap_def)
  have "\<exists>s1 s'. process_exit s = Some (True, s1) \<and> thread_exit process_exit s = Some (True, s') \<and> sched_inv s'
     \<and> value (semas s1 (sema_wait 0xc0001000)) = 2 \<and> map_option alive_count (shared s1 0xc0001000) = Some 1"
    using thread_exit_correct [OF p(1-5), of sm "fsys s"] p(6,8,9) sm by auto
  then show ?thesis by blast
qed

end
