(* ===== verification/Spec2Isabelle.thy ===== *)
theory Spec2Isabelle
  imports Klist_Sort Arith Mutual_Exclusion Console_Input Hash Stdlib Directory Process
begin

text \<open>
  A verification of the Pintos kernel in \<^verbatim>\<open>src/pintos-main\<close>. The theories are arranged like the
  kernel itself, each importing the parts it calls.

  \<^bold>\<open>Conventions.\<close> A C function is a HOL function of the same name that takes the state it uses as
  its last argument and returns the new state. A failed \<^verbatim>\<open>ASSERT\<close>, a \<^verbatim>\<open>PANIC\<close>, a null pointer
  dereference and a processor trap stop the kernel and are the result \<open>None\<close>; so is a loop that does
  not end, which is why such loops are defined with \<^theory_text>\<open>partial_function\<close>, and theorems about them
  state that they return. Error codes stay values. Pointers are numbers, the null pointer is 0.
  Unsigned arithmetic that can overflow is written with its modulus or done on machine words.
  The kernel state is a chain of records, each component adding its fields: \<open>pmem\<close> (page pools and
  memory), \<open>mmu\<close> (page directory in use), \<open>intr\<close> (interrupt flag, handlers, port writes), \<open>kernel\<close>
  (threads and run queue), \<open>sync\<close> (semaphores, locks, conditions), \<open>timer\<close>, \<open>devices\<close>. Operations
  are polymorphic in the rest of the record, so a lemma about a component holds in every later one.

  A function that can block is cut where it blocks: it returns the state in which the next thread
  runs, and a continuation function describes what the caller does when it runs again.

  \<^bold>\<open>Library.\<close>
  \<^item> \<^theory_text>\<open>Prelude\<close>: assertions, rounding (\<^verbatim>\<open>lib/round.h\<close>), generic lemmas.
  \<^item> \<^theory_text>\<open>Klist\<close>, \<^theory_text>\<open>Klist_Sort\<close>: doubly linked lists (\<^verbatim>\<open>lib/kernel/list.c\<close>) as programs on a heap of
    links. Insertion, removal, splicing and reversal implement the corresponding list functions and
    touch no other memory; the natural merge sort ends, sorts and is stable. Locales \<open>weak_order\<close>
    and \<open>list_order\<close> state the contract of a comparison function.
  \<^item> \<^theory_text>\<open>Arith\<close>: 64-bit division (\<^verbatim>\<open>lib/arithmetic.c\<close>) equals mathematical division; the remainder
    functions lose the upper half.
  \<^item> \<^theory_text>\<open>Bitmap\<close> (\<^verbatim>\<open>lib/kernel/bitmap.c\<close>): bit operations on machine words refine operations on a list
    of booleans.
  \<^item> \<^theory_text>\<open>Hash\<close> (\<^verbatim>\<open>lib/kernel/hash.c\<close>): hash tables with resizing act on the set of elements.
  \<^item> \<^theory_text>\<open>Cstring\<close> (\<^verbatim>\<open>lib/string.c\<close>): block and string functions on a byte memory.
  \<^item> \<^theory_text>\<open>Ctype\<close> (\<^verbatim>\<open>lib/ctype.h\<close>).
  \<^item> \<^theory_text>\<open>Stdlib\<close> (\<^verbatim>\<open>lib/stdlib.c\<close>, \<^verbatim>\<open>lib/random.c\<close>): heap sort and binary search on arrays of
    elements of any size, proved in the locale \<open>element_order\<close> for every comparison function that
    keeps the contract.

  \<^bold>\<open>Memory.\<close>
  \<^item> \<^theory_text>\<open>Vaddr\<close> (\<^verbatim>\<open>threads/vaddr.h\<close>, \<^verbatim>\<open>threads/pte.h\<close>): address arithmetic and page table entries.
  \<^item> \<^theory_text>\<open>Palloc\<close> (\<^verbatim>\<open>threads/palloc.c\<close>): over all sequences of allocations and releases no page is handed
    out twice.
  \<^item> \<^theory_text>\<open>Pagedir\<close> (\<^verbatim>\<open>userprog/pagedir.c\<close>): mapping and unmapping change exactly one translation;
    destroying a directory frees exactly its pages.

  \<^bold>\<open>Threads.\<close>
  \<^item> \<^theory_text>\<open>Interrupt\<close> (\<^verbatim>\<open>threads/interrupt.c\<close>): interrupt level, handler tables, descriptors.
  \<^item> \<^theory_text>\<open>Thread\<close> (\<^verbatim>\<open>threads/thread.c\<close>): the invariant \<open>sched_inv\<close> holds in every reachable state, no
    scheduler call panics there, scheduling is round robin and preemption bounded. The reachable states
    (\<open>sched_reach\<close>) start after the boot and contain the memory and process steps that other kernel code
    makes between scheduler calls; \<^verbatim>\<open>thread_exit\<close> enters with the code after \<^verbatim>\<open>process_exit\<close>.
  \<^item> \<^theory_text>\<open>Synch\<close> (\<^verbatim>\<open>threads/synch.c\<close>); \<^theory_text>\<open>Interleaving\<close> and \<^theory_text>\<open>Mutual_Exclusion\<close> run the calls of many threads
    as interleaved micro-operations with preemption: mutual exclusion and no lost wake-ups.
  \<^item> \<^theory_text>\<open>Process\<close> (\<^verbatim>\<open>process_exit\<close> and \<^verbatim>\<open>process_wait\<close> of \<^verbatim>\<open>userprog/process.c\<close>): the whole of \<^verbatim>\<open>thread_exit\<close> for a
    process whose locks are free, and the null pointer it follows in a thread without a parent.

  \<^bold>\<open>Devices.\<close>
  \<^item> \<^theory_text>\<open>Timer\<close> (\<^verbatim>\<open>devices/timer.c\<close>, \<^verbatim>\<open>devices/pit.c\<close>): sleeping threads wake exactly on time,
    counted from the tick at which \<^verbatim>\<open>timer_sleep\<close>, taken as one step, is called.
  \<^item> \<^theory_text>\<open>Intq\<close> (\<^verbatim>\<open>devices/intq.c\<close>): circular buffers refine a bounded queue (locale \<open>bounded_fifo\<close>).
  \<^item> \<^theory_text>\<open>Console_Input\<close> (\<^verbatim>\<open>devices/input.c\<close>, \<^verbatim>\<open>devices/serial.c\<close>, \<^verbatim>\<open>devices/kbd.c\<close>): what \<^verbatim>\<open>serial_putc\<close>, in
    both modes, and \<^verbatim>\<open>serial_interrupt\<close> send, queue, receive and write to the interrupt enable register, exactly.
    Bytes received while the input buffer is full stay in the port.

  \<^bold>\<open>File system.\<close> Its state is a second chain of records, \<open>blocks\<close> and \<open>fs\<close>; its calls run one after
  the other, locks are flags, and \<open>mem_answers\<close> says which allocations succeed. The disks are a map
  from sectors to bytes, which is what the driver \<^verbatim>\<open>devices/ide.c\<close> provides.
  \<^item> \<^theory_text>\<open>Block\<close> (\<^verbatim>\<open>devices/block.c\<close>, \<^verbatim>\<open>devices/partition.c\<close>): devices and partitions; a scan registers the
    partitions of a table without extended entries; when the first extended entry starts in the first half of
    the disk, the scan never returns, because every level reads sector 0.
  \<^item> \<^theory_text>\<open>Inode\<close> (\<^verbatim>\<open>filesys/inode.c\<close>): reading and writing an inode are reading and overwriting a list of
    bytes (\<open>contents\<close>).
  \<^item> \<^theory_text>\<open>Open_Files\<close> (\<^verbatim>\<open>filesys/inode.c\<close>, \<^verbatim>\<open>filesys/free-map.c\<close>, \<^verbatim>\<open>filesys/file.c\<close>): the free map, creating,
    opening and closing.
  \<^item> \<^theory_text>\<open>Directory\<close> (\<^verbatim>\<open>filesys/directory.c\<close>, \<^verbatim>\<open>filesys/filesys.c\<close>): a directory is a map from names to
    sectors (\<open>dir_map\<close>); adding a name and looking it up are the operations of the map.

  \<^bold>\<open>Bounds.\<close> No theorem bounds the number of threads, the length of queues or the size of memory
  beyond what the machine does. Thread identifiers stay below \<open>2 ^ 31\<close>; the interrupt handler of the
  serial port returns when the port answers 126 status reads, which is more than one handler run
  can need with queues of 63 bytes.

  \<^bold>\<open>Not modelled.\<close>
  Of \<^verbatim>\<open>userprog/process.c\<close>, starting a process and the ELF loader; the system call layer
  (\<^verbatim>\<open>userprog/syscall.c\<close>), the fault handlers (\<^verbatim>\<open>exception.c\<close>), the segment descriptors (\<^verbatim>\<open>gdt.c\<close>, and the
  layout of the task-state segment in \<^verbatim>\<open>tss.c\<close>) and \<^verbatim>\<open>slowdown.c\<close>. The kernel heap (\<^verbatim>\<open>threads/malloc.c\<close>): whether an
  allocation succeeds is an input. The order of initialisation in \<^verbatim>\<open>threads/init.c\<close>, of which \<open>boot_state\<close> and
  \<open>boot_init\<close> state what the scheduler needs. The disk and display drivers (\<^verbatim>\<open>devices/ide.c\<close>, \<^verbatim>\<open>vga.c\<close>, \<^verbatim>\<open>speaker.c\<close>,
  \<^verbatim>\<open>shutdown.c\<close>, \<^verbatim>\<open>rtc.c\<close>) and the console (\<^verbatim>\<open>lib/kernel/console.c\<close>, \<^verbatim>\<open>lib/stdio.c\<close>), which are sequences of
  port and memory accesses whose effect is the hardware's. The boot code, the interrupt stubs and \<^verbatim>\<open>switch.S\<close>, which
  are assembly. The file copying of \<^verbatim>\<open>filesys/fsutil.c\<close> and \<^verbatim>\<open>lib/ustar.c\<close>. Console output, statistics and self
  tests are left out of the components they belong to. User programs and their library, the tests, the
  host utilities and the standalone exercises are not part of the kernel.
\<close>

end
